(* ===== verification/Prelude.thy ===== *)
theory Prelude
  imports Main "HOL-Library.Word" "HOL-Library.Monad_Syntax"
begin

section \<open>Prelude: machine types, failing computations, list walks\<close>

text \<open>
  What the component theories share.  A C computation that may abort (a failed \<open>assert\<close>) or
  touch memory it must not touch (a NULL or freed pointer, a read past the end of an array) is a
  value of an \<open>option\<close> type, with \<open>None\<close> for the abort or the fault; the \<open>do\<close> notation of
  Monad_Syntax threads it.  Pointers into the session's heaps are natural numbers.
\<close>

type_synonym u32 = "32 word"
type_synonym u64 = "64 word"
type_synonym byte = "8 word"
type_synonym bytes = "byte list"

text \<open>\<open>types/primitives.h\<close>: participant and instance numbers, session identifiers.\<close>

type_synonym paxid = "32 word"
type_synonym pax_uuid = "64 word"

named_theorems wp_simps \<open>equations that run a failing computation\<close>
named_theorems frame_simps \<open>which session fields an operation leaves alone\<close>

text \<open>C's \<open>assert\<close> (and the check that a pointer may be dereferenced).\<close>

definition assert :: "bool \<Rightarrow> unit option" where
  "assert b = (if b then Some () else None)"

lemma assert_bind [simp]: "Option.bind (assert b) f = (if b then f () else None)"
  by (simp add: assert_def)

lemma assert_eq_Some [simp]: "assert b = Some u \<longleftrightarrow> b"
  by (simp add: assert_def)

lemmas bind_Some_iff = Option.bind_eq_Some_conv

lemma option_eqI: "(\<And>x. a = Some x \<longleftrightarrow> b = Some x) \<Longrightarrow> a = b"
  by (metis not_None_eq)

lemma if_None_iff: "(if b then x else None) = Some y \<longleftrightarrow> b \<and> x = Some y"
  by simp

lemma bind_SomeE:
  assumes "Option.bind m f = Some y"
  obtains x where "m = Some x" "f x = Some y"
  using assms by (auto simp: bind_Some_iff)

subsection \<open>Lists\<close>

lemma sorted_wrt_map_iff: "sorted_wrt R (map f xs) \<longleftrightarrow> sorted_wrt (\<lambda>x y. R (f x) (f y)) xs"
  by (simp add: sorted_wrt_map)

lemma sorted_wrt_insert_mid:
  assumes "sorted_wrt R (ys @ zs)" "\<forall>y\<in>set ys. R y e" "\<forall>z\<in>set zs. R e z"
  shows "sorted_wrt R (ys @ e # zs)"
  using assms by (auto simp: sorted_wrt_append)

lemma find_None_notin: "(\<forall>x\<in>set xs. \<not> P x) \<Longrightarrow> List.find P xs = None"
  by (simp add: find_None_iff)

lemma find_append: "List.find P (xs @ ys) = (case List.find P xs of None \<Rightarrow> List.find P ys | Some x \<Rightarrow> Some x)"
  by (induction xs) auto

lemma find_unique:
  assumes "x \<in> set xs" "P x" "\<And>y. y \<in> set xs \<Longrightarrow> P y \<Longrightarrow> y = x"
  shows "List.find P xs = Some x"
proof (cases "List.find P xs")
  case None
  with assms(1,2) show ?thesis by (auto simp: find_None_iff)
next
  case (Some y)
  then have "y \<in> set xs" "P y" by (auto simp: find_Some_iff)
  with assms(3) Some show ?thesis by simp
qed

lemma distinct_map_inj_eq:
  "distinct (map f xs) \<Longrightarrow> x \<in> set xs \<Longrightarrow> y \<in> set xs \<Longrightarrow> f x = f y \<Longrightarrow> x = y"
  by (auto simp: distinct_map inj_on_def)

text \<open>
  The successor of an element of a list without repetitions: \<open>None\<close> past the last element, where
  the C list gives its head.
\<close>

fun succ_in :: "'a list \<Rightarrow> 'a \<Rightarrow> 'a option" where
  "succ_in [] x = None"
| "succ_in (y # ys) x = (if x = y then (case ys of [] \<Rightarrow> None | z # _ \<Rightarrow> Some z) else succ_in ys x)"

definition pred_in :: "'a list \<Rightarrow> 'a \<Rightarrow> 'a option" where
  "pred_in xs x = succ_in (rev xs) x"

lemma succ_in_mid: "distinct (ys @ x # zs) \<Longrightarrow>
    succ_in (ys @ x # zs) x = (case zs of [] \<Rightarrow> None | z # _ \<Rightarrow> Some z)"
  by (induction ys) auto

lemma pred_in_mid: "distinct (ys @ x # zs) \<Longrightarrow>
    pred_in (ys @ x # zs) x = (if ys = [] then None else Some (last ys))"
proof -
  assume "distinct (ys @ x # zs)"
  then have "distinct (rev zs @ x # rev ys)" by auto
  from succ_in_mid [OF this] show ?thesis
    by (cases ys rule: rev_cases) (auto simp: pred_in_def)
qed

lemma succ_in_mem: "succ_in xs x = Some y \<Longrightarrow> y \<in> set xs"
  by (induction xs) (auto split: if_splits list.splits)

end
