(* ===== verification/Linked_List.thy ===== *)
theory Linked_List
  imports Prelude
begin

section \<open>Embedded circular lists (containers/list.h)\<close>

text \<open>
  The \<open>LIST_*\<close> macros at the level of pointers: a list head with \<open>lh_first\<close>, \<open>lh_last\<close> and
  \<open>lh_count\<close>, and nodes (addresses) with \<open>le_next\<close> and \<open>le_prev\<close>, where a link is a node or the head
  itself cast to an element pointer.  \<open>dll h xs\<close> says that the heap \<open>h\<close> represents the list \<open>xs\<close>; each
  macro is shown to implement the list operation that the session's model uses in its place.
\<close>

datatype link = Head | Node nat

record list_heap =
  lh_first :: link
  lh_last :: link
  lh_count :: u32
  le_next :: "nat \<Rightarrow> link"
  le_prev :: "nat \<Rightarrow> link"

definition LIST_EMPTY :: "list_heap \<Rightarrow> bool" where "LIST_EMPTY h \<longleftrightarrow> lh_first h = Head"
definition LIST_FIRST :: "list_heap \<Rightarrow> link" where "LIST_FIRST h = lh_first h"
definition LIST_LAST :: "list_heap \<Rightarrow> link" where "LIST_LAST h = lh_last h"
definition LIST_COUNT :: "list_heap \<Rightarrow> u32" where "LIST_COUNT h = lh_count h"
definition LIST_NEXT :: "list_heap \<Rightarrow> nat \<Rightarrow> link" where "LIST_NEXT h elm = le_next h elm"
definition LIST_PREV :: "list_heap \<Rightarrow> nat \<Rightarrow> link" where "LIST_PREV h elm = le_prev h elm"

definition set_next :: "nat \<Rightarrow> link \<Rightarrow> list_heap \<Rightarrow> list_heap" where
  "set_next a l h = h\<lparr>le_next := (le_next h)(a := l)\<rparr>"
definition set_prev :: "nat \<Rightarrow> link \<Rightarrow> list_heap \<Rightarrow> list_heap" where
  "set_prev a l h = h\<lparr>le_prev := (le_prev h)(a := l)\<rparr>"

definition LIST_INIT :: "list_heap \<Rightarrow> list_heap" where
  "LIST_INIT h = h\<lparr>lh_first := Head, lh_last := Head, lh_count := 0\<rparr>"

definition LIST_INSERT_AFTER :: "nat \<Rightarrow> nat \<Rightarrow> list_heap \<Rightarrow> list_heap" where
  "LIST_INSERT_AFTER listelm elm h =
     (let h = set_next elm (le_next h listelm) h;
          h = set_prev elm (Node listelm) h;
          h = (case le_next h listelm of
                 Head \<Rightarrow> h\<lparr>lh_last := Node elm\<rparr>
               | Node n \<Rightarrow> set_prev n (Node elm) h);
          h = set_next listelm (Node elm) h
      in h\<lparr>lh_count := lh_count h + 1\<rparr>)"

definition LIST_INSERT_BEFORE :: "nat \<Rightarrow> nat \<Rightarrow> list_heap \<Rightarrow> list_heap" where
  "LIST_INSERT_BEFORE listelm elm h =
     (let h = set_next elm (Node listelm) h;
          h = set_prev elm (le_prev h listelm) h;
          h = (case le_prev h listelm of
                 Head \<Rightarrow> h\<lparr>lh_first := Node elm\<rparr>
               | Node n \<Rightarrow> set_next n (Node elm) h);
          h = set_prev listelm (Node elm) h
      in h\<lparr>lh_count := lh_count h + 1\<rparr>)"

definition LIST_INSERT_HEAD :: "nat \<Rightarrow> list_heap \<Rightarrow> list_heap" where
  "LIST_INSERT_HEAD elm h =
     (let h = set_next elm (lh_first h) h;
          h = set_prev elm Head h;
          h = (if lh_last h = Head then h\<lparr>lh_last := Node elm\<rparr>
               else (case lh_first h of Head \<Rightarrow> h | Node n \<Rightarrow> set_prev n (Node elm) h));
          h = h\<lparr>lh_first := Node elm\<rparr>
      in h\<lparr>lh_count := lh_count h + 1\<rparr>)"

definition LIST_INSERT_TAIL :: "nat \<Rightarrow> list_heap \<Rightarrow> list_heap" where
  "LIST_INSERT_TAIL elm h =
     (let h = set_next elm Head h;
          h = set_prev elm (lh_last h) h;
          h = (if lh_first h = Head then h\<lparr>lh_first := Node elm\<rparr>
               else (case lh_last h of Head \<Rightarrow> h | Node n \<Rightarrow> set_next n (Node elm) h));
          h = h\<lparr>lh_last := Node elm\<rparr>
      in h\<lparr>lh_count := lh_count h + 1\<rparr>)"

definition LIST_REMOVE :: "nat \<Rightarrow> list_heap \<Rightarrow> list_heap" where
  "LIST_REMOVE elm h =
     (let h = (case le_next h elm of
                 Head \<Rightarrow> h\<lparr>lh_last := le_prev h elm\<rparr>
               | Node n \<Rightarrow> set_prev n (le_prev h elm) h);
          h = (case le_prev h elm of
                 Head \<Rightarrow> h\<lparr>lh_first := le_next h elm\<rparr>
               | Node n \<Rightarrow> set_next n (le_next h elm) h)
      in h\<lparr>lh_count := lh_count h - 1\<rparr>)"

subsection \<open>The list a heap represents\<close>

text \<open>\<open>nxt\<close> and \<open>prv\<close> treat the head as one more node of the circle.\<close>

definition nxt :: "list_heap \<Rightarrow> link \<Rightarrow> link" where
  "nxt h l = (case l of Head \<Rightarrow> lh_first h | Node a \<Rightarrow> le_next h a)"
definition prv :: "list_heap \<Rightarrow> link \<Rightarrow> link" where
  "prv h l = (case l of Head \<Rightarrow> lh_last h | Node a \<Rightarrow> le_prev h a)"

definition chained :: "list_heap \<Rightarrow> link list \<Rightarrow> bool" where
  "chained h ls \<longleftrightarrow> successively (\<lambda>u v. nxt h u = v \<and> prv h v = u) ls"

definition dll :: "list_heap \<Rightarrow> nat list \<Rightarrow> bool" where
  "dll h xs \<longleftrightarrow> distinct xs \<and> chained h (Head # map Node xs @ [Head]) \<and> lh_count h = of_nat (length xs)"

text \<open>
  Iteration, \<open>LIST_FOREACH\<close>: from \<open>lh_first\<close> along \<open>le_next\<close> to the head.  A heap may hold a cycle
  that never reaches the head, so the walk has fuel; \<open>dll\<close> gives enough of it.
\<close>

fun foreach_from :: "nat \<Rightarrow> list_heap \<Rightarrow> link \<Rightarrow> nat list option" where
  "foreach_from 0 h l = None"
| "foreach_from (Suc fuel) h l =
     (case l of Head \<Rightarrow> Some [] | Node a \<Rightarrow> map_option (Cons a) (foreach_from fuel h (le_next h a)))"

definition LIST_FOREACH :: "nat \<Rightarrow> list_heap \<Rightarrow> nat list option" where
  "LIST_FOREACH fuel h = foreach_from fuel h (lh_first h)"

fun foreach_rev_from :: "nat \<Rightarrow> list_heap \<Rightarrow> link \<Rightarrow> nat list option" where
  "foreach_rev_from 0 h l = None"
| "foreach_rev_from (Suc fuel) h l =
     (case l of Head \<Rightarrow> Some [] | Node a \<Rightarrow> map_option (Cons a) (foreach_rev_from fuel h (le_prev h a)))"

definition LIST_FOREACH_REV :: "nat \<Rightarrow> list_heap \<Rightarrow> nat list option" where
  "LIST_FOREACH_REV fuel h = foreach_rev_from fuel h (lh_last h)"

lemma chained_Cons2 [simp]:
  "chained h (u # v # ls) \<longleftrightarrow> nxt h u = v \<and> prv h v = u \<and> chained h (v # ls)"
  by (simp add: chained_def)

lemma chained_single [simp]: "chained h [u]"
  by (simp add: chained_def)

lemma chained_append:
  "chained h (xs @ u # ys) \<longleftrightarrow> chained h (xs @ [u]) \<and> chained h (u # ys)"
  by (auto simp: chained_def successively_append_iff successively_Cons)

text \<open>A change of heap that keeps the inner links of a chain keeps the chain.\<close>

lemma chained_cong:
  assumes "chained h ls"
    and "\<And>u. u \<in> set (butlast ls) \<Longrightarrow> nxt h' u = nxt h u"
    and "\<And>v. v \<in> set (tl ls) \<Longrightarrow> prv h' v = prv h v"
  shows "chained h' ls"
  using assms
proof (induction ls rule: induct_list012)
  case (3 x y zs)
  then show ?case by (auto split: if_splits)
qed (auto simp: chained_def)

lemma nxt_simps [simp]: "nxt h Head = lh_first h" "nxt h (Node a) = le_next h a"
  by (simp_all add: nxt_def)

lemma prv_simps [simp]: "prv h Head = lh_last h" "prv h (Node a) = le_prev h a"
  by (simp_all add: prv_def)


subsection \<open>Surgery on a chain\<close>

lemma circle_parts:
  assumes "distinct (butlast (A @ u # L))" "distinct (tl (A @ u # L))" "L \<noteq> []"
  shows "u \<notin> set A" "u \<notin> set (butlast L)" "set (tl (A @ [u])) \<inter> set L = {}" "distinct L"
proof -
  have "butlast (A @ u # L) = A @ u # butlast L" "tl (A @ u # L) = tl (A @ [u]) @ L"
    using assms(3) by (simp_all add: butlast_append, cases A, simp_all)
  with assms show "u \<notin> set A" "u \<notin> set (butlast L)" "set (tl (A @ [u])) \<inter> set L = {}" "distinct L"
    by simp_all
qed

lemma set_tl_subset: "x \<in> set (tl xs) \<Longrightarrow> x \<in> set xs"
  by (cases xs) auto

lemma chained_insert:
  assumes ch: "chained h (A @ u # v # B)"
    and dist: "distinct (butlast (A @ u # v # B))" "distinct (tl (A @ u # v # B))"
    and e: "e \<notin> set (A @ u # v # B)"
    and new: "nxt h' u = e" "prv h' e = u" "nxt h' e = v" "prv h' v = e"
    and old: "\<And>w. w \<noteq> u \<Longrightarrow> w \<noteq> e \<Longrightarrow> nxt h' w = nxt h w" "\<And>w. w \<noteq> v \<Longrightarrow> w \<noteq> e \<Longrightarrow> prv h' w = prv h w"
  shows "chained h' (A @ u # e # v # B)"
proof -
  note d = circle_parts [OF dist, simplified]
  from ch have 1: "chained h (A @ [u])" and 2: "chained h (v # B)"
    using chained_append [of h A u "v # B"] by simp_all
  have "chained h' (A @ [u])"
  proof (rule chained_cong [OF 1])
    fix w assume "w \<in> set (butlast (A @ [u]))"
    then have "w \<in> set A" by simp
    with d e show "nxt h' w = nxt h w" by (intro old(1)) auto
  next
    fix w assume w: "w \<in> set (tl (A @ [u]))"
    then have "w \<in> set (A @ [u])" by (rule set_tl_subset)
    with d e w show "prv h' w = prv h w" by (intro old(2)) auto
  qed
  moreover have "chained h' (v # B)"
  proof (rule chained_cong [OF 2])
    fix w assume w: "w \<in> set (butlast (v # B))"
    then have "w \<in> set (v # B)" by (rule in_set_butlastD)
    with d e w show "nxt h' w = nxt h w" by (intro old(1)) auto
  next
    fix w assume "w \<in> set (tl (v # B))"
    with d e show "prv h' w = prv h w" by (intro old(2)) auto
  qed
  ultimately show ?thesis
    using new chained_append [of h' A u "e # v # B"] by simp
qed

lemma chained_remove:
  assumes ch: "chained h (A @ u # e # v # B)"
    and dist: "distinct (butlast (A @ u # e # v # B))" "distinct (tl (A @ u # e # v # B))"
    and new: "nxt h' u = v" "prv h' v = u"
    and old: "\<And>w. w \<noteq> u \<Longrightarrow> nxt h' w = nxt h w" "\<And>w. w \<noteq> v \<Longrightarrow> prv h' w = prv h w"
  shows "chained h' (A @ u # v # B)"
proof -
  note d = circle_parts [OF dist, simplified]
  from ch have 1: "chained h (A @ [u])" and 2: "chained h (v # B)"
    using chained_append [of h A u "e # v # B"] by simp_all
  have "chained h' (A @ [u])"
  proof (rule chained_cong [OF 1])
    fix w assume "w \<in> set (butlast (A @ [u]))"
    with d show "nxt h' w = nxt h w" by (intro old(1)) auto
  next
    fix w assume "w \<in> set (tl (A @ [u]))"
    with d show "prv h' w = prv h w" by (intro old(2)) auto
  qed
  moreover have "chained h' (v # B)"
  proof (rule chained_cong [OF 2])
    fix w assume "w \<in> set (butlast (v # B))"
    with d show "nxt h' w = nxt h w" by (intro old(1)) auto
  next
    fix w assume "w \<in> set (tl (v # B))"
    with d show "prv h' w = prv h w" by (intro old(2)) auto
  qed
  ultimately show ?thesis
    using new chained_append [of h' A u "v # B"] by simp
qed

lemma circle_distinct:
  "distinct xs \<Longrightarrow> distinct (butlast (Head # map Node xs @ [Head]))"
  "distinct xs \<Longrightarrow> distinct (tl (Head # map Node xs @ [Head]))"
  by (auto simp: butlast_append distinct_map inj_on_def)

text \<open>The link before and the link after each place of the list.\<close>

definition link_last :: "nat list \<Rightarrow> link" where
  "link_last xs = (if xs = [] then Head else Node (last xs))"
definition link_hd :: "nat list \<Rightarrow> link" where
  "link_hd xs = (case xs of [] \<Rightarrow> Head | x # _ \<Rightarrow> Node x)"

lemma circle_split:
  obtains A B where "Head # map Node (ys @ zs) @ [Head] = A @ link_last ys # link_hd zs # B"
    "\<And>x. Head # map Node (ys @ x # zs) @ [Head] = A @ link_last ys # Node x # link_hd zs # B"
proof -
  obtain A where A: "Head # map Node ys = A @ [link_last ys]"
    by (cases ys rule: rev_cases) (auto simp: link_last_def intro: that [of "[]"])
  obtain B where B: "map Node zs @ [Head] = link_hd zs # B"
    by (cases zs) (auto simp: link_hd_def)
  have "Head # map Node (ys @ zs) @ [Head] = (Head # map Node ys) @ (map Node zs @ [Head])"
    and "\<And>x. Head # map Node (ys @ x # zs) @ [Head] = (Head # map Node ys) @ Node x # (map Node zs @ [Head])"
    by simp_all
  then show ?thesis using that [of A B] unfolding A B by simp
qed

lemma dll_links:
  assumes "dll h (ys @ zs)"
  shows "nxt h (link_last ys) = link_hd zs \<and> prv h (link_hd zs) = link_last ys"
proof -
  obtain A B where "Head # map Node (ys @ zs) @ [Head] = A @ link_last ys # link_hd zs # B"
    by (rule circle_split)
  then show ?thesis
    using assms chained_append [of h A "link_last ys" "link_hd zs # B"] by (simp add: dll_def)
qed

lemma dll_insertI:
  assumes h: "dll h (ys @ zs)" and e: "e \<notin> set (ys @ zs)"
    and new: "nxt h' (link_last ys) = Node e" "prv h' (Node e) = link_last ys"
      "nxt h' (Node e) = link_hd zs" "prv h' (link_hd zs) = Node e"
    and old: "\<And>w. w \<noteq> link_last ys \<Longrightarrow> w \<noteq> Node e \<Longrightarrow> nxt h' w = nxt h w"
      "\<And>w. w \<noteq> link_hd zs \<Longrightarrow> w \<noteq> Node e \<Longrightarrow> prv h' w = prv h w"
    and cnt: "lh_count h' = lh_count h + 1"
  shows "dll h' (ys @ e # zs)"
proof -
  obtain A B where s: "Head # map Node (ys @ zs) @ [Head] = A @ link_last ys # link_hd zs # B"
    "Head # map Node (ys @ e # zs) @ [Head] = A @ link_last ys # Node e # link_hd zs # B"
    by (rule circle_split [of ys zs]) blast
  have d: "distinct (ys @ zs)" and c: "chained h (A @ link_last ys # link_hd zs # B)"
    using h by (auto simp: dll_def s(1) [symmetric])
  have "Node e \<notin> set (Head # map Node (ys @ zs) @ [Head])" using e by auto
  then have n: "Node e \<notin> set (A @ link_last ys # link_hd zs # B)" unfolding s(1) .
  have "chained h' (A @ link_last ys # Node e # link_hd zs # B)"
    by (rule chained_insert [OF c circle_distinct [OF d, unfolded s(1)] n new old])
  then have "chained h' (Head # map Node (ys @ e # zs) @ [Head])" unfolding s(2) .
  then show ?thesis using h e cnt by (auto simp: dll_def)
qed

lemma dll_removeI:
  assumes h: "dll h (ys @ e # zs)"
    and new: "nxt h' (link_last ys) = link_hd zs" "prv h' (link_hd zs) = link_last ys"
    and old: "\<And>w. w \<noteq> link_last ys \<Longrightarrow> nxt h' w = nxt h w" "\<And>w. w \<noteq> link_hd zs \<Longrightarrow> prv h' w = prv h w"
    and cnt: "lh_count h' = lh_count h - 1"
  shows "dll h' (ys @ zs)"
proof -
  obtain A B where s: "Head # map Node (ys @ zs) @ [Head] = A @ link_last ys # link_hd zs # B"
    "Head # map Node (ys @ e # zs) @ [Head] = A @ link_last ys # Node e # link_hd zs # B"
    by (rule circle_split [of ys zs]) blast
  have d: "distinct (ys @ e # zs)" and c: "chained h (A @ link_last ys # Node e # link_hd zs # B)"
    using h by (auto simp: dll_def s(2) [symmetric])
  have "chained h' (A @ link_last ys # link_hd zs # B)"
    by (rule chained_remove [OF c circle_distinct [OF d, unfolded s(2)] new old])
  then have "chained h' (Head # map Node (ys @ zs) @ [Head])" unfolding s(1) .
  then show ?thesis using h cnt by (auto simp: dll_def)
qed

subsection \<open>The macros implement the list operations\<close>

lemma link_eqs [simp]:
  "link_last [] = Head" "link_last (ys @ [a]) = Node a" "link_hd [] = Head" "link_hd (a # zs) = Node a"
  by (simp_all add: link_last_def link_hd_def)

lemmas list_heap_defs = set_next_def set_prev_def nxt_def prv_def Let_def

lemma dll_LIST_INIT: "dll (LIST_INIT h) []"
  by (simp add: dll_def LIST_INIT_def)

lemma dll_LIST_INSERT_AFTER:
  assumes h: "dll h (ys @ a # zs)" and e: "e \<notin> set (ys @ a # zs)"
  shows "dll (LIST_INSERT_AFTER a e h) (ys @ a # e # zs)"
proof -
  have h': "dll h ((ys @ [a]) @ zs)" using h by simp
  have l: "le_next h a = link_hd zs" using dll_links [OF h'] by simp
  have ne: "e \<noteq> a" "link_hd zs \<noteq> Node e" using e by (auto simp: link_hd_def split: list.splits)
  have "dll (LIST_INSERT_AFTER a e h) ((ys @ [a]) @ e # zs)"
    by (rule dll_insertI [OF h'])
      (use e l ne in \<open>auto simp: LIST_INSERT_AFTER_def list_heap_defs split: link.splits\<close>)
  then show ?thesis by simp
qed

lemma dll_LIST_INSERT_BEFORE:
  assumes h: "dll h (ys @ a # zs)" and e: "e \<notin> set (ys @ a # zs)"
  shows "dll (LIST_INSERT_BEFORE a e h) (ys @ e # a # zs)"
proof -
  have l: "le_prev h a = link_last ys" using dll_links [OF h] by simp
  have ne: "e \<noteq> a" "link_last ys \<noteq> Node e" using e by (auto simp: link_last_def)
  show ?thesis
    by (rule dll_insertI [OF h])
      (use e l ne in \<open>auto simp: LIST_INSERT_BEFORE_def list_heap_defs split: link.splits\<close>)
qed

lemma dll_ends:
  assumes "dll h xs"
  shows "lh_first h = link_hd xs" "lh_last h = link_last xs"
  using dll_links [of h "[]" xs] dll_links [of h xs "[]"] assms by simp_all

lemma dll_empty_iff: "dll h xs \<Longrightarrow> lh_first h = Head \<longleftrightarrow> xs = []" "dll h xs \<Longrightarrow> lh_last h = Head \<longleftrightarrow> xs = []"
  by (auto simp: dll_ends link_hd_def link_last_def split: list.splits if_splits)

lemma dll_LIST_INSERT_HEAD:
  assumes h: "dll h xs" and e: "e \<notin> set xs"
  shows "dll (LIST_INSERT_HEAD e h) (e # xs)"
proof -
  have ne: "link_hd xs \<noteq> Node e" using e by (auto simp: link_hd_def split: list.splits)
  have "dll (LIST_INSERT_HEAD e h) ([] @ e # xs)"
    by (rule dll_insertI [of h])
      (use h e ne dll_ends [OF h] dll_empty_iff [OF h] in
        \<open>auto simp: LIST_INSERT_HEAD_def list_heap_defs split: link.splits\<close>)
  then show ?thesis by simp
qed

lemma dll_LIST_INSERT_TAIL:
  assumes h: "dll h xs" and e: "e \<notin> set xs"
  shows "dll (LIST_INSERT_TAIL e h) (xs @ [e])"
proof -
  have ne: "link_last xs \<noteq> Node e" using e by (auto simp: link_last_def)
  show ?thesis
    by (rule dll_insertI [of h])
      (use h e ne dll_ends [OF h] dll_empty_iff [OF h] in
        \<open>auto simp: LIST_INSERT_TAIL_def list_heap_defs split: link.splits\<close>)
qed

lemma dll_LIST_REMOVE:
  assumes h: "dll h (ys @ e # zs)"
  shows "dll (LIST_REMOVE e h) (ys @ zs)"
proof -
  have h': "dll h ((ys @ [e]) @ zs)" using h by simp
  have l: "le_next h e = link_hd zs" "le_prev h e = link_last ys"
    using dll_links [OF h] dll_links [OF h'] by simp_all
  show ?thesis
    by (rule dll_removeI [OF h])
      (use l in \<open>auto simp: LIST_REMOVE_def list_heap_defs split: link.splits\<close>)
qed

text \<open>The removed node keeps its own \<open>le_next\<close>: a pointer left to it still leads into the list.\<close>

lemma LIST_REMOVE_stale:
  assumes h: "dll h (ys @ e # zs)"
  shows "LIST_NEXT (LIST_REMOVE e h) e = link_hd zs"
proof -
  have h': "dll h ((ys @ [e]) @ zs)" using h by simp
  have d: "distinct (ys @ e # zs)" using h by (simp add: dll_def)
  have l: "le_next h e = link_hd zs" "le_prev h e = link_last ys"
    using dll_links [OF h] dll_links [OF h'] by simp_all
  have "link_last ys \<noteq> Node e" using d by (auto simp: link_last_def)
  then show ?thesis
    using l by (auto simp: LIST_REMOVE_def LIST_NEXT_def list_heap_defs split: link.splits)
qed

lemma dll_foreach_from:
  assumes "dll h (ys @ zs)" "length zs < fuel"
  shows "foreach_from fuel h (link_hd zs) = Some zs"
  using assms
proof (induction zs arbitrary: ys fuel)
  case (Cons z zs)
  then obtain f where f: "fuel = Suc f" by (cases fuel) auto
  have "dll h ((ys @ [z]) @ zs)" using Cons.prems by simp
  with Cons.IH [OF this, of f] Cons.prems f dll_links [OF this] show ?case by simp
next
  case Nil
  then show ?case by (cases fuel) auto
qed

lemma dll_foreach_rev_from:
  assumes "dll h (ys @ zs)" "length ys < fuel"
  shows "foreach_rev_from fuel h (link_last ys) = Some (rev ys)"
  using assms
proof (induction ys arbitrary: zs fuel rule: rev_induct)
  case Nil
  then show ?case by (cases fuel) auto
next
  case (snoc y ys)
  then obtain f where f: "fuel = Suc f" by (cases fuel) auto
  have d: "dll h (ys @ y # zs)" using snoc.prems by simp
  with snoc.IH [OF d, of f] snoc.prems f dll_links [OF d] show ?case by simp
qed

lemma dll_foreach: "dll h xs \<Longrightarrow> length xs < fuel \<Longrightarrow> LIST_FOREACH fuel h = Some xs"
  using dll_foreach_from [of h "[]" xs fuel] by (simp add: LIST_FOREACH_def dll_ends)

lemma dll_foreach_rev: "dll h xs \<Longrightarrow> length xs < fuel \<Longrightarrow> LIST_FOREACH_REV fuel h = Some (rev xs)"
  using dll_foreach_rev_from [of h xs "[]" fuel] by (simp add: LIST_FOREACH_REV_def dll_ends)

lemma dll_neighbours:
  assumes h: "dll h (ys @ a # zs)"
  shows "LIST_NEXT h a = link_hd zs" "LIST_PREV h a = link_last ys"
proof -
  have "dll h ((ys @ [a]) @ zs)" using h by simp
  from dll_links [OF this] dll_links [OF h] show "LIST_NEXT h a = link_hd zs" "LIST_PREV h a = link_last ys"
    by (simp_all add: LIST_NEXT_def LIST_PREV_def)
qed

end
