(* ===== verification/Primitives.thy ===== *)
theory Primitives
  imports Prelude "HOL-Library.Option_ord"
begin

section \<open>Primitive types (types/primitives.h, types/primitives.c)\<close>

text \<open>
  Participant IDs, pairs of them (ballots and request IDs), strings and session UUIDs with their
  three-way comparison functions.  The contract the containers rely on, a three-way comparator
  that is a strict total order, is the locale \<open>comparator\<close>; each comparison function of the source
  is an interpretation of it.
\<close>

subsection \<open>The contract of a comparison function\<close>

locale comparator =
  fixes compare :: "'k \<Rightarrow> 'k \<Rightarrow> int"
  assumes compare_eq: "compare x y = 0 \<longleftrightarrow> x = y"
    and compare_anti: "compare x y < 0 \<longleftrightarrow> 0 < compare y x"
    and compare_trans: "compare x y < 0 \<Longrightarrow> compare y z < 0 \<Longrightarrow> compare x z < 0"
begin

lemma compare_refl [simp]: "compare x x = 0"
  by (simp add: compare_eq)

lemma compare_irrefl: "\<not> compare x x < 0"
  by simp

lemma compare_cases: "compare x y < 0 \<or> x = y \<or> compare y x < 0"
  using compare_eq [of x y] compare_anti [of y x] by linarith

lemma compare_asym: "compare x y < 0 \<Longrightarrow> \<not> compare y x < 0"
  using compare_trans [of x y x] by auto

end

subsection \<open>paxid\_compare\<close>

definition paxid_compare :: "paxid \<Rightarrow> paxid \<Rightarrow> int" where
  "paxid_compare x y = (if x < y then -1 else if x > y then 1 else 0)"

interpretation paxid: comparator paxid_compare
  by unfold_locales (auto simp: paxid_compare_def split: if_splits)

lemma paxid_compare_less [simp]: "paxid_compare x y < 0 \<longleftrightarrow> x < y"
  by (auto simp: paxid_compare_def)

lemma paxid_compare_greater [simp]: "0 < paxid_compare x y \<longleftrightarrow> y < x"
  by (auto simp: paxid_compare_def)

lemma paxid_compare_zero [simp]: "paxid_compare x y = 0 \<longleftrightarrow> x = y"
  by (rule paxid.compare_eq)

subsection \<open>Totally ordered pairs\<close>

text \<open>\<open>struct paxid\_pair\<close>: \<open>pid\<close> is the C field \<open>id\<close> (a HOL constant), \<open>gen\<close> is \<open>gen\<close>.\<close>

datatype ppair = PPair (pid: paxid) (gen: paxid)

definition ppair_compare :: "ppair \<Rightarrow> ppair \<Rightarrow> int" where
  "ppair_compare x y =
     (let r = paxid_compare (gen x) (gen y)
      in if r \<noteq> 0 then r else paxid_compare (pid y) (pid x))"

lemma ppair_compare_less:
  "ppair_compare x y < 0 \<longleftrightarrow> gen x < gen y \<or> gen x = gen y \<and> pid y < pid x"
  by (auto simp: ppair_compare_def Let_def)

lemma ppair_compare_greater:
  "0 < ppair_compare x y \<longleftrightarrow> gen y < gen x \<or> gen x = gen y \<and> pid x < pid y"
  by (auto simp: ppair_compare_def Let_def)

lemma ppair_compare_zero [simp]: "ppair_compare x y = 0 \<longleftrightarrow> x = y"
  by (auto simp: ppair_compare_def Let_def ppair.expand)

interpretation ppair: comparator ppair_compare
  by unfold_locales (auto simp: ppair_compare_less ppair_compare_greater)

text \<open>Ballots and request IDs are therefore a linear order, the one \<open>ppair\_compare\<close> decides.\<close>

instantiation ppair :: linorder
begin

definition less_eq_ppair :: "ppair \<Rightarrow> ppair \<Rightarrow> bool" where
  "less_eq_ppair x y \<longleftrightarrow> gen x < gen y \<or> gen x = gen y \<and> pid y \<le> pid x"

definition less_ppair :: "ppair \<Rightarrow> ppair \<Rightarrow> bool" where
  "less_ppair x y \<longleftrightarrow> gen x < gen y \<or> gen x = gen y \<and> pid y < pid x"

instance
  by standard (auto simp: less_eq_ppair_def less_ppair_def ppair.expand)

end

lemma ppair_compare_lt [simp]: "ppair_compare x y < 0 \<longleftrightarrow> x < y"
  by (simp add: ppair_compare_less less_ppair_def)

lemma ppair_compare_gt [simp]: "0 < ppair_compare x y \<longleftrightarrow> y < x"
  by (auto simp: ppair_compare_greater less_ppair_def)

lemma ppair_compare_le [simp]: "ppair_compare x y \<le> 0 \<longleftrightarrow> x \<le> y"
  using ppair_compare_gt [of x y] by (metis linorder_not_le)

lemma ppair_compare_ge [simp]: "0 \<le> ppair_compare x y \<longleftrightarrow> y \<le> x"
  using ppair_compare_lt [of x y] by (metis linorder_not_le)

subsection \<open>Strings and UUIDs\<close>

text \<open>The C library's \<open>memcmp\<close>: the sign of the first difference, bytes read as unsigned.\<close>

fun memcmp :: "bytes \<Rightarrow> bytes \<Rightarrow> nat \<Rightarrow> int" where
  "memcmp (x # xs) (y # ys) (Suc n) = (if x = y then memcmp xs ys n else uint x - uint y)"
| "memcmp _ _ _ = 0"

text \<open>A \<open>pax\_str\_t\<close> is its bytes; \<open>size\<close> is their number.\<close>

definition pax_str_compare :: "bytes \<Rightarrow> bytes \<Rightarrow> int" where
  "pax_str_compare x y =
     (if length x < length y then -1
      else if length x > length y then 1
      else memcmp x y (length x))"

lemma memcmp_eq: "length x = length y \<Longrightarrow> memcmp x y (length x) = 0 \<longleftrightarrow> x = y"
  by (induction x y rule: list_induct2) (auto simp: word_uint_eq_iff)

lemma memcmp_anti: "length x = length y \<Longrightarrow> memcmp x y (length x) = - memcmp y x (length y)"
  by (induction x y rule: list_induct2) auto

lemma memcmp_trans:
  "length x = length y \<Longrightarrow> length y = length z \<Longrightarrow>
   memcmp x y (length x) < 0 \<Longrightarrow> memcmp y z (length y) < 0 \<Longrightarrow> memcmp x z (length x) < 0"
  by (induction x y z rule: list_induct3) (auto split: if_splits)

interpretation pax_str: comparator pax_str_compare
proof (unfold_locales, goal_cases)
  case (1 x y)
  show ?case using memcmp_eq [of x y] by (auto simp: pax_str_compare_def)
next
  case (2 x y)
  show ?case using memcmp_anti [of x y] by (auto simp: pax_str_compare_def)
next
  case (3 x y z)
  then show ?case using memcmp_trans [of x y z]
    by (auto simp: pax_str_compare_def split: if_splits)
qed

definition pax_uuid_compare :: "pax_uuid \<Rightarrow> pax_uuid \<Rightarrow> int" where
  "pax_uuid_compare x y = (if x < y then -1 else if x > y then 1 else 0)"

interpretation pax_uuid: comparator pax_uuid_compare
  by unfold_locales (auto simp: pax_uuid_compare_def split: if_splits)

text \<open>
  \<open>pax\_uuid\_gen\<close> reads 8 bytes of \<open>/dev/urandom\<close>: the bytes are an argument of the model, read
  in the machine's (little-endian) order.
\<close>

definition pax_uuid_gen :: "bytes \<Rightarrow> pax_uuid" where
  "pax_uuid_gen rnd = word_rcat (rev (take 8 rnd))"

end
