(* ===== verification/Containers.thy ===== *)
theory Containers
  imports Primitives
begin

section \<open>Ordered containers (containers/list\_factory.h)\<close>

text \<open>
  \<open>LIST_IMPLEMENT_FIND\<close> and \<open>LIST_IMPLEMENT_INSERT\<close> walk a list in one direction, comparing the
  wanted ID with each element's, and stop where the order says the ID cannot be further on.  The
  elements are pointers (or values); \<open>id_field\<close> reads the ID of one and fails on a freed pointer.
  The head-to-tail walk (\<open>_FWD\<close>) and the tail-to-head walk (\<open>_REV\<close>) differ in the list they follow
  and in the sign of the comparison that stops them, as the macros do.
\<close>

definition LIST_ITER_CMP_FWD :: "int \<Rightarrow> bool" where "LIST_ITER_CMP_FWD x = (x < 0)"
definition LIST_ITER_CMP_REV :: "int \<Rightarrow> bool" where "LIST_ITER_CMP_REV x = (x > 0)"

fun find_walk :: "(int \<Rightarrow> bool) \<Rightarrow> ('k \<Rightarrow> 'k \<Rightarrow> int) \<Rightarrow> ('e \<Rightarrow> 'k option) \<Rightarrow> 'e list \<Rightarrow> 'k
    \<Rightarrow> 'e option option" where
  "find_walk past compare id_field [] k = Some None"
| "find_walk past compare id_field (it # its) k = do {
     i \<leftarrow> id_field it;
     let cmp = compare k i;
     if cmp = 0 then Some (Some it)
     else if past cmp then Some None
     else find_walk past compare id_field its k
   }"

definition LIST_FIND_FWD :: "('k \<Rightarrow> 'k \<Rightarrow> int) \<Rightarrow> ('e \<Rightarrow> 'k option) \<Rightarrow> 'e list \<Rightarrow> 'k \<Rightarrow> 'e option option" where
  "LIST_FIND_FWD compare id_field head k =
     (if head = [] then Some None else find_walk LIST_ITER_CMP_FWD compare id_field head k)"

definition LIST_FIND_REV :: "('k \<Rightarrow> 'k \<Rightarrow> int) \<Rightarrow> ('e \<Rightarrow> 'k option) \<Rightarrow> 'e list \<Rightarrow> 'k \<Rightarrow> 'e option option" where
  "LIST_FIND_REV compare id_field head k =
     (if head = [] then Some None else find_walk LIST_ITER_CMP_REV compare id_field (rev head) k)"

text \<open>
  Insertion along the walk: an element of equal ID is returned and the list kept; the new element
  goes on the near side of the first element past it, or at the far end.  The result is the list in
  walking order and the element that is in it.
\<close>

fun insert_walk :: "(int \<Rightarrow> bool) \<Rightarrow> ('k \<Rightarrow> 'k \<Rightarrow> int) \<Rightarrow> ('e \<Rightarrow> 'k option) \<Rightarrow> 'e list \<Rightarrow> 'e \<Rightarrow> 'k
    \<Rightarrow> ('e list \<times> 'e) option" where
  "insert_walk past compare id_field [] elt k = Some ([elt], elt)"
| "insert_walk past compare id_field (it # its) elt k = do {
     i \<leftarrow> id_field it;
     let cmp = compare k i;
     if cmp = 0 then Some (it # its, it)
     else if past cmp then Some (elt # it # its, elt)
     else do {
       (its', e) \<leftarrow> insert_walk past compare id_field its elt k;
       Some (it # its', e)
     }
   }"

definition LIST_INSERT_FWD :: "('k \<Rightarrow> 'k \<Rightarrow> int) \<Rightarrow> ('e \<Rightarrow> 'k option) \<Rightarrow> 'e list \<Rightarrow> 'e
    \<Rightarrow> ('e list \<times> 'e) option" where
  "LIST_INSERT_FWD compare id_field head elt = do {
     k \<leftarrow> id_field elt;
     insert_walk LIST_ITER_CMP_FWD compare id_field head elt k
   }"

definition LIST_INSERT_REV :: "('k \<Rightarrow> 'k \<Rightarrow> int) \<Rightarrow> ('e \<Rightarrow> 'k option) \<Rightarrow> 'e list \<Rightarrow> 'e
    \<Rightarrow> ('e list \<times> 'e) option" where
  "LIST_INSERT_REV compare id_field head elt = do {
     k \<leftarrow> id_field elt;
     (xs, e) \<leftarrow> insert_walk LIST_ITER_CMP_REV compare id_field (rev head) elt k;
     Some (rev xs, e)
   }"

subsection \<open>Ordered lists\<close>

definition ordered :: "('k \<Rightarrow> 'k \<Rightarrow> int) \<Rightarrow> ('e \<Rightarrow> 'k option) \<Rightarrow> 'e list \<Rightarrow> bool" where
  "ordered compare id_field xs \<longleftrightarrow>
     (\<forall>x\<in>set xs. id_field x \<noteq> None) \<and>
     sorted_wrt (\<lambda>x y. compare (the (id_field x)) (the (id_field y)) < 0) xs"

lemma ordered_Nil [simp]: "ordered compare idf []"
  by (simp add: ordered_def)

lemma ordered_cong:
  "(\<And>x. x \<in> set xs \<Longrightarrow> idf x = idf' x) \<Longrightarrow> ordered compare idf xs = ordered compare idf' xs"
  unfolding ordered_def by (auto elim!: sorted_wrt_mono_rel [rotated])

lemma ordered_appendD: "ordered compare idf (xs @ ys) \<Longrightarrow> ordered compare idf xs \<and> ordered compare idf ys"
  by (auto simp: ordered_def sorted_wrt_append)

lemma ordered_remove_mid: "ordered compare idf (xs @ y # ys) \<Longrightarrow> ordered compare idf (xs @ ys)"
  by (auto simp: ordered_def sorted_wrt_append)

lemma ordered_filter: "ordered compare idf xs \<Longrightarrow> ordered compare idf (filter P xs)"
  by (auto simp: ordered_def intro: sorted_wrt_filter)

context comparator
begin

lemma ordered_unique:
  assumes "ordered compare idf xs" "x \<in> set xs" "y \<in> set xs" "idf x = Some k" "idf y = Some k"
  shows "x = y"
  using assms
proof (induction xs)
  case (Cons z zs)
  then show ?case by (auto simp: ordered_def)
qed simp

lemma ordered_distinct: "ordered compare idf xs \<Longrightarrow> distinct xs"
proof (induction xs)
  case (Cons z zs)
  then show ?case
    using compare_irrefl by (auto simp: ordered_def)
qed simp

lemma find_walk_fwd:
  assumes "ordered compare idf xs"
  shows "find_walk LIST_ITER_CMP_FWD compare idf xs k = Some (List.find (\<lambda>x. idf x = Some k) xs)"
  using assms
proof (induction xs)
  case (Cons x xs)
  then obtain i where i: "idf x = Some i" by (auto simp: ordered_def)
  have tail: "ordered compare idf xs" using Cons.prems by (simp add: ordered_def)
  have later: "compare i (the (idf y)) < 0" if "y \<in> set xs" for y
    using Cons.prems that i by (auto simp: ordered_def)
  have "List.find (\<lambda>y. idf y = Some k) xs = None" if "compare k i < 0"
    using later compare_trans [OF that] by (fastforce intro!: find_None_notin)
  with Cons.IH [OF tail] i show ?case
    by (auto simp: LIST_ITER_CMP_FWD_def compare_eq)
qed simp

lemma find_walk_rev:
  assumes "ordered compare idf (rev xs)"
  shows "find_walk LIST_ITER_CMP_REV compare idf xs k = Some (List.find (\<lambda>x. idf x = Some k) xs)"
  using assms
proof (induction xs)
  case (Cons x xs)
  then obtain i where i: "idf x = Some i" by (auto simp: ordered_def)
  have tail: "ordered compare idf (rev xs)" using Cons.prems by (auto simp: ordered_def sorted_wrt_append)
  have later: "compare (the (idf y)) i < 0" if "y \<in> set xs" for y
    using Cons.prems that i by (auto simp: ordered_def sorted_wrt_append)
  have "List.find (\<lambda>y. idf y = Some k) xs = None" if "compare k i > 0"
    using later compare_trans [of _ i k] that compare_anti [of i k] 
    by (fastforce intro!: find_None_notin)
  with Cons.IH [OF tail] i show ?case
    by (auto simp: LIST_ITER_CMP_REV_def compare_eq)
qed simp

lemma find_rev_list:
  assumes "ordered compare idf xs"
  shows "List.find (\<lambda>x. idf x = Some k) (rev xs) = List.find (\<lambda>x. idf x = Some k) xs"
proof (cases "List.find (\<lambda>x. idf x = Some k) xs")
  case None
  then have "List.find (\<lambda>x. idf x = Some k) (rev xs) = None" by (auto simp: find_None_iff)
  with None show ?thesis by simp
next
  case (Some x)
  then have x: "x \<in> set xs" "idf x = Some k" by (auto simp: find_Some_iff)
  have "List.find (\<lambda>x. idf x = Some k) (rev xs) = Some x"
  proof (rule find_unique)
    fix y assume "y \<in> set (rev xs)" "idf y = Some k"
    then show "y = x" using ordered_unique [OF assms _ x(1) _ x(2)] by simp
  qed (use x in auto)
  with Some show ?thesis by simp
qed

lemma insert_walk_fwd_dup:
  assumes "ordered compare idf xs" "x \<in> set xs" "idf x = Some k"
  shows "insert_walk LIST_ITER_CMP_FWD compare idf xs e k = Some (xs, x)"
  using assms
proof (induction xs)
  case (Cons y ys)
  then obtain i where i: "idf y = Some i" by (auto simp: ordered_def)
  have tail: "ordered compare idf ys" using Cons.prems by (simp add: ordered_def)
  show ?case
  proof (cases "x = y")
    case False
    then have "x \<in> set ys" using Cons.prems by simp
    moreover have "compare i k < 0" using Cons.prems calculation i by (auto simp: ordered_def)
    ultimately show ?thesis
      using Cons.IH [OF tail] Cons.prems i compare_asym [of i k] 
      by (auto simp: LIST_ITER_CMP_FWD_def compare_eq)
  qed (use Cons.prems i in simp)
qed simp

lemma insert_walk_rev_dup:
  assumes "ordered compare idf (rev xs)" "x \<in> set xs" "idf x = Some k"
  shows "insert_walk LIST_ITER_CMP_REV compare idf xs e k = Some (xs, x)"
  using assms
proof (induction xs)
  case (Cons y ys)
  then obtain i where i: "idf y = Some i" by (auto simp: ordered_def)
  have tail: "ordered compare idf (rev ys)" using Cons.prems by (auto simp: ordered_def sorted_wrt_append)
  show ?case
  proof (cases "x = y")
    case False
    then have "x \<in> set ys" using Cons.prems by simp
    moreover have "compare k i < 0" using Cons.prems calculation i by (auto simp: ordered_def sorted_wrt_append)
    ultimately show ?thesis
      using Cons.IH [OF tail] Cons.prems i compare_anti [of k i]
      by (auto simp: LIST_ITER_CMP_REV_def compare_eq)
  qed (use Cons.prems i in simp)
qed simp

lemma insert_walk_fwd_new:
  assumes "ordered compare idf xs" "\<forall>x\<in>set xs. idf x \<noteq> Some k"
  shows "\<exists>ys zs. xs = ys @ zs \<and> insert_walk LIST_ITER_CMP_FWD compare idf xs e k = Some (ys @ e # zs, e) \<and>
    (\<forall>y\<in>set ys. compare (the (idf y)) k < 0) \<and> (\<forall>z\<in>set zs. compare k (the (idf z)) < 0)"
  using assms
proof (induction xs)
  case (Cons x xs)
  then obtain i where i: "idf x = Some i" by (auto simp: ordered_def)
  have tail: "ordered compare idf xs" "\<forall>x\<in>set xs. idf x \<noteq> Some k"
    using Cons.prems by (auto simp: ordered_def)
  have ne: "compare k i \<noteq> 0" using Cons.prems i by (auto simp: compare_eq)
  show ?case
  proof (cases "compare k i < 0")
    case True
    have "compare k (the (idf z)) < 0" if "z \<in> set xs" for z
      using Cons.prems that i compare_trans [OF True] by (auto simp: ordered_def)
    with True i ne show ?thesis
      by - (rule exI [of _ "[]"], rule exI [of _ "x # xs"], auto simp: LIST_ITER_CMP_FWD_def)
  next
    case False
    then have lt: "compare i k < 0" using ne compare_anti [of i k] by linarith
    from Cons.IH [OF tail] obtain ys zs where "xs = ys @ zs"
      "insert_walk LIST_ITER_CMP_FWD compare idf xs e k = Some (ys @ e # zs, e)"
      "\<forall>y\<in>set ys. compare (the (idf y)) k < 0" "\<forall>z\<in>set zs. compare k (the (idf z)) < 0" by blast
    moreover have "\<not> LIST_ITER_CMP_FWD (compare k i)" using False by (simp add: LIST_ITER_CMP_FWD_def)
    ultimately show ?thesis using i ne lt
      by - (rule exI [of _ "x # ys"], rule exI [of _ zs], auto)
  qed
qed simp

lemma insert_walk_rev_new:
  assumes "ordered compare idf (rev xs)" "\<forall>x\<in>set xs. idf x \<noteq> Some k"
  shows "\<exists>ys zs. xs = ys @ zs \<and> insert_walk LIST_ITER_CMP_REV compare idf xs e k = Some (ys @ e # zs, e) \<and>
    (\<forall>y\<in>set ys. compare k (the (idf y)) < 0) \<and> (\<forall>z\<in>set zs. compare (the (idf z)) k < 0)"
  using assms
proof (induction xs)
  case (Cons x xs)
  then obtain i where i: "idf x = Some i" by (auto simp: ordered_def)
  have tail: "ordered compare idf (rev xs)" "\<forall>x\<in>set xs. idf x \<noteq> Some k"
    using Cons.prems by (auto simp: ordered_def sorted_wrt_append)
  have ne: "compare k i \<noteq> 0" using Cons.prems i by (auto simp: compare_eq)
  show ?case
  proof (cases "compare k i > 0")
    case True
    then have ik: "compare i k < 0" by (simp add: compare_anti)
    have "compare (the (idf z)) k < 0" if "z \<in> set xs" for z
      using Cons.prems that i compare_trans [OF _ ik] by (auto simp: ordered_def sorted_wrt_append)
    with True i ik ne show ?thesis
      by - (rule exI [of _ "[]"], rule exI [of _ "x # xs"], auto simp: LIST_ITER_CMP_REV_def)
  next
    case False
    then have lt: "compare k i < 0" using ne by linarith
    from Cons.IH [OF tail] obtain ys zs where "xs = ys @ zs"
      "insert_walk LIST_ITER_CMP_REV compare idf xs e k = Some (ys @ e # zs, e)"
      "\<forall>y\<in>set ys. compare k (the (idf y)) < 0" "\<forall>z\<in>set zs. compare (the (idf z)) k < 0" by blast
    moreover have "\<not> LIST_ITER_CMP_REV (compare k i)" using False by (simp add: LIST_ITER_CMP_REV_def)
    ultimately show ?thesis using i ne lt
      by - (rule exI [of _ "x # ys"], rule exI [of _ zs], auto)
  qed
qed simp

end


subsection \<open>The contract of a container\<close>

text \<open>
  What the rest of the program relies on, whatever the directions the two operations walk in: a find
  returns the element of that ID, an insert puts a new ID in its place and refuses a known one.
\<close>

locale container = comparator compare for compare :: "'k \<Rightarrow> 'k \<Rightarrow> int" +
  fixes find :: "('e \<Rightarrow> 'k option) \<Rightarrow> 'e list \<Rightarrow> 'k \<Rightarrow> 'e option option"
    and insert :: "('e \<Rightarrow> 'k option) \<Rightarrow> 'e list \<Rightarrow> 'e \<Rightarrow> ('e list \<times> 'e) option"
  assumes find_law: "ordered compare idf xs \<Longrightarrow> find idf xs k = Some (List.find (\<lambda>x. idf x = Some k) xs)"
    and insert_dup: "ordered compare idf xs \<Longrightarrow> idf e = Some k \<Longrightarrow> x \<in> set xs \<Longrightarrow> idf x = Some k \<Longrightarrow>
      insert idf xs e = Some (xs, x)"
    and insert_new: "ordered compare idf xs \<Longrightarrow> idf e = Some k \<Longrightarrow> \<forall>x\<in>set xs. idf x \<noteq> Some k \<Longrightarrow>
      \<exists>ys zs. xs = ys @ zs \<and> insert idf xs e = Some (ys @ e # zs, e) \<and>
        (\<forall>y\<in>set ys. compare (the (idf y)) k < 0) \<and> (\<forall>z\<in>set zs. compare k (the (idf z)) < 0)"
begin

lemma find_Some:
  assumes "ordered compare idf xs"
  shows "find idf xs k = Some (Some x) \<longleftrightarrow> x \<in> set xs \<and> idf x = Some k"
proof
  assume "find idf xs k = Some (Some x)"
  then show "x \<in> set xs \<and> idf x = Some k" by (auto simp: find_law [OF assms] find_Some_iff)
next
  assume x: "x \<in> set xs \<and> idf x = Some k"
  have "List.find (\<lambda>x. idf x = Some k) xs = Some x"
  proof (rule find_unique)
    fix y assume "y \<in> set xs" "idf y = Some k"
    then show "y = x" using ordered_unique [OF assms] x by blast
  qed (use x in auto)
  then show "find idf xs k = Some (Some x)" by (simp add: find_law [OF assms])
qed

lemma find_None:
  assumes "ordered compare idf xs"
  shows "find idf xs k = Some None \<longleftrightarrow> (\<forall>x\<in>set xs. idf x \<noteq> Some k)"
  by (auto simp: find_law [OF assms] find_None_iff)

lemma find_total:
  assumes "ordered compare idf xs"
  shows "\<exists>r. find idf xs k = Some r"
  by (simp add: find_law [OF assms])

lemma insert_cases:
  assumes ord: "ordered compare idf xs" and e: "idf e = Some k"
  obtains (dup) x where "x \<in> set xs" "idf x = Some k" "insert idf xs e = Some (xs, x)"
  | (new) ys zs where "xs = ys @ zs" "insert idf xs e = Some (ys @ e # zs, e)"
      "\<forall>x\<in>set xs. idf x \<noteq> Some k" "ordered compare idf (ys @ e # zs)"
proof (cases "\<exists>x\<in>set xs. idf x = Some k")
  case True
  then show ?thesis using dup insert_dup [OF ord e] by blast
next
  case False
  then obtain ys zs where yz: "xs = ys @ zs" "insert idf xs e = Some (ys @ e # zs, e)"
    "\<forall>y\<in>set ys. compare (the (idf y)) k < 0" "\<forall>z\<in>set zs. compare k (the (idf z)) < 0"
    using insert_new [OF ord e] by blast
  have "ordered compare idf (ys @ e # zs)"
    using ord yz e by (auto simp: ordered_def intro!: sorted_wrt_insert_mid)
  with False yz show ?thesis using new by blast
qed

lemma insert_total: "ordered compare idf xs \<Longrightarrow> idf e = Some k \<Longrightarrow> \<exists>r. insert idf xs e = Some r"
  by (erule insert_cases) auto

lemma insert_ordered:
  assumes "ordered compare idf xs" "idf e \<noteq> None" "insert idf xs e = Some (xs', r)"
  shows "ordered compare idf xs'"
proof -
  obtain k where "idf e = Some k" using assms(2) by blast
  from assms(1) this show ?thesis by (rule insert_cases) (use assms in auto)
qed

lemma insert_set:
  assumes "ordered compare idf xs" "idf e \<noteq> None" "insert idf xs e = Some (xs', r)"
  shows "r \<in> set xs' \<and> idf r = idf e \<and> set xs' = Set.insert r (set xs)"
proof -
  obtain k where k: "idf e = Some k" using assms(2) by blast
  from assms(1) this show ?thesis by (rule insert_cases) (use assms k in auto)
qed

text \<open>Lookup after insert: the new ID is found, every other ID is found where it was.\<close>

lemma find_insert:
  assumes "ordered compare idf xs" "idf e = Some k" "insert idf xs e = Some (xs', r)"
  shows "find idf xs' k' = (if k' = k then Some (Some r) else find idf xs k')"
proof -
  have ord: "ordered compare idf xs'" using insert_ordered assms by blast
  show ?thesis
  proof (cases "k' = k")
    case True
    then show ?thesis using insert_set [OF assms(1) _ assms(3)] assms(2) by (simp add: find_Some [OF ord])
  next
    case False
    from assms(1,2) have "List.find (\<lambda>x. idf x = Some k') xs' = List.find (\<lambda>x. idf x = Some k') xs"
      by (rule insert_cases) (use assms False in \<open>auto simp: find_append split: option.splits\<close>)
    then show ?thesis using False by (simp add: find_law [OF ord] find_law [OF assms(1)])
  qed
qed

lemma insert_length:
  assumes "ordered compare idf xs" "idf e = Some k" "\<forall>x\<in>set xs. idf x \<noteq> Some k"
    "insert idf xs e = Some (xs', r)"
  shows "r = e \<and> length xs' = Suc (length xs) \<and> (\<exists>ys zs. xs = ys @ zs \<and> xs' = ys @ e # zs)"
  using assms(1,2) by (rule insert_cases) (use assms in auto)

end

text \<open>The combinations of directions the source instantiates, for any comparator.\<close>

context comparator
begin

lemma container_fwd_rev:
  "container compare (LIST_FIND_FWD compare :: ('e \<Rightarrow> 'k option) \<Rightarrow> _) (LIST_INSERT_REV compare)"
proof (unfold_locales, goal_cases)
  case (1 idf xs k)
  then show ?case by (auto simp: LIST_FIND_FWD_def find_walk_fwd)
next
  case (2 idf xs e k x)
  then show ?case using insert_walk_rev_dup [of idf "rev xs" x k e] by (simp add: LIST_INSERT_REV_def)
next
  case (3 idf xs e k)
  then obtain ys zs where "rev xs = ys @ zs"
    "insert_walk LIST_ITER_CMP_REV compare idf (rev xs) e k = Some (ys @ e # zs, e)"
    "\<forall>y\<in>set ys. compare k (the (idf y)) < 0" "\<forall>z\<in>set zs. compare (the (idf z)) k < 0"
    using insert_walk_rev_new [of idf "rev xs" k e] by auto
  moreover from this(1) have "xs = rev zs @ rev ys" by (metis rev_append rev_rev_ident)
  ultimately show ?case using 3
    by - (rule exI [of _ "rev zs"], rule exI [of _ "rev ys"], auto simp: LIST_INSERT_REV_def)
qed

lemma container_rev_rev:
  "container compare (LIST_FIND_REV compare :: ('e \<Rightarrow> 'k option) \<Rightarrow> _) (LIST_INSERT_REV compare)"
proof (unfold_locales, goal_cases)
  case (1 idf xs k)
  then show ?case by (auto simp: LIST_FIND_REV_def find_walk_rev find_rev_list)
next
  case (2 idf xs e k x)
  then show ?case by (rule container.insert_dup [OF container_fwd_rev])
next
  case (3 idf xs e k)
  then show ?case by (rule container.insert_new [OF container_fwd_rev])
qed

lemma container_fwd_fwd:
  "container compare (LIST_FIND_FWD compare :: ('e \<Rightarrow> 'k option) \<Rightarrow> _) (LIST_INSERT_FWD compare)"
proof (unfold_locales, goal_cases)
  case (1 idf xs k)
  then show ?case by (auto simp: LIST_FIND_FWD_def find_walk_fwd)
next
  case (2 idf xs e k x)
  then show ?case using insert_walk_fwd_dup [of idf xs x k e] by (simp add: LIST_INSERT_FWD_def)
next
  case (3 idf xs e k)
  then show ?case using insert_walk_fwd_new [of idf xs k e] by (simp add: LIST_INSERT_FWD_def)
qed

text \<open>On an ordered list the direction does not matter, for an insert because there is one place only.\<close>

lemma place_unique:
  assumes "ys @ zs = ys' @ zs'" "\<forall>y\<in>set ys. compare (the (idf y)) k < 0" "\<forall>z\<in>set zs. compare k (the (idf z)) < 0"
    "\<forall>y\<in>set ys'. compare (the (idf y)) k < 0" "\<forall>z\<in>set zs'. compare k (the (idf z)) < 0"
  shows "ys = ys' \<and> zs = zs'"
proof -
  have split: "us = takeWhile (\<lambda>y. compare (the (idf y)) k < 0) (us @ vs)"
    if "\<forall>y\<in>set us. compare (the (idf y)) k < 0" "\<forall>z\<in>set vs. compare k (the (idf z)) < 0" for us vs
    using that compare_asym by (cases vs) (auto simp: takeWhile_append takeWhile_eq_all_conv [THEN iffD2])
  show ?thesis using split [OF assms(2,3)] split [OF assms(4,5)] assms(1) by (metis append_eq_append_conv)
qed

lemma find_fwd_rev: "ordered compare idf xs \<Longrightarrow> LIST_FIND_FWD compare idf xs k = LIST_FIND_REV compare idf xs k"
  using container.find_law [OF container_fwd_rev] container.find_law [OF container_rev_rev] by metis

lemma insert_fwd_rev:
  assumes "ordered compare idf xs" "idf e = Some k"
  shows "LIST_INSERT_FWD compare idf xs e = LIST_INSERT_REV compare idf xs e"
proof (cases "\<exists>x\<in>set xs. idf x = Some k")
  case True
  then obtain x where x: "x \<in> set xs" "idf x = Some k" by blast
  show ?thesis
    using container.insert_dup [OF container_fwd_fwd assms x] container.insert_dup [OF container_fwd_rev assms x] by simp
next
  case False
  then have n: "\<forall>x\<in>set xs. idf x \<noteq> Some k" by blast
  obtain ys zs where y: "xs = ys @ zs" "LIST_INSERT_FWD compare idf xs e = Some (ys @ e # zs, e)"
    "\<forall>y\<in>set ys. compare (the (idf y)) k < 0" "\<forall>z\<in>set zs. compare k (the (idf z)) < 0"
    using container.insert_new [OF container_fwd_fwd assms n] by blast
  obtain us vs where u: "xs = us @ vs" "LIST_INSERT_REV compare idf xs e = Some (us @ e # vs, e)"
    "\<forall>y\<in>set us. compare (the (idf y)) k < 0" "\<forall>z\<in>set vs. compare k (the (idf z)) < 0"
    using container.insert_new [OF container_fwd_rev assms n] by blast
  from place_unique [of ys zs us vs] y u have "ys = us \<and> zs = vs" by metis
  with y(2) u(2) show ?thesis by simp
qed

end

end
