(* ===== verification/Msgpack_Model.thy ===== *)
theory Msgpack_Model
  imports Prelude
begin

section \<open>Packing and the msgpack contract (paxos\_msgpack.c)\<close>

text \<open>
  A message is written as a sequence of calls of the msgpack packer, and arrives as msgpack objects.
  Both are msgpack's own types, seen as far as the program uses them.  The encoder between the two is
  msgpack's and stays abstract: the locale \<open>msgpack_unpacker\<close> states what its format promises (a
  prefix code, where an array header takes the next \<open>n\<close> objects), and everything about round trips
  is proved from that.
\<close>

datatype pcall =
    Pack_array nat          \<comment> \<open>\<open>msgpack_pack_array(pk, n)\<close>\<close>
  | Pack_uint32 u32
  | Pack_uint64 u64
  | Pack_int int
  | Pack_true
  | Pack_false
  | Pack_raw nat            \<comment> \<open>\<open>msgpack_pack_raw(pk, size)\<close>\<close>
  | Pack_raw_body bytes

datatype mobj =
    M_boolean bool
  | M_positive_integer u64
  | M_negative_integer int
  | M_raw bytes
  | M_array "mobj list"
  | M_other                 \<comment> \<open>nil, doubles and maps, which no handler accepts\<close>

text \<open>A \<open>paxos_yak\<close> is the sequence of calls made so far.\<close>

type_synonym paxos_yak = "pcall list"

definition paxos_payload_init :: "nat \<Rightarrow> paxos_yak" where
  "paxos_payload_init n = [Pack_array n]"

definition paxos_payload_begin_array :: "nat \<Rightarrow> paxos_yak" where
  "paxos_payload_begin_array n = [Pack_array n]"

text \<open>\<open>types/primitives.c\<close>, the artificial msgpack primitives and helpers.\<close>

definition msgpack_pack_paxid :: "paxid \<Rightarrow> paxos_yak" where
  "msgpack_pack_paxid paxid = [Pack_uint32 paxid]"

definition msgpack_pack_pax_uuid :: "pax_uuid \<Rightarrow> paxos_yak" where
  "msgpack_pack_pax_uuid uuid = [Pack_uint64 uuid]"

definition paxos_paxid_pack :: "paxid \<Rightarrow> paxos_yak" where
  "paxos_paxid_pack paxid = msgpack_pack_paxid paxid"

definition paxos_uuid_pack :: "pax_uuid \<Rightarrow> paxos_yak" where
  "paxos_uuid_pack uuid = msgpack_pack_pax_uuid uuid"

text \<open>
  Reading \<open>via.u64\<close> after the type assertion; the conversion to a 32-bit field drops the high half.
\<close>

fun positive_integer :: "mobj \<Rightarrow> u64 option" where
  "positive_integer (M_positive_integer n) = Some n"
| "positive_integer _ = None"

fun boolean :: "mobj \<Rightarrow> bool option" where
  "boolean (M_boolean b) = Some b"
| "boolean _ = None"

fun raw :: "mobj \<Rightarrow> bytes option" where
  "raw (M_raw b) = Some b"
| "raw _ = None"

fun array :: "mobj \<Rightarrow> mobj list option" where
  "array (M_array os) = Some os"
| "array _ = None"

definition paxos_paxid_unpack :: "mobj \<Rightarrow> paxid option" where
  "paxos_paxid_unpack p = map_option ucast (positive_integer p)"

definition paxos_uuid_unpack :: "mobj \<Rightarrow> pax_uuid option" where
  "paxos_uuid_unpack p = positive_integer p"

text \<open>An array of exactly the given size, as the \<open>_unpack\<close> functions assert.\<close>

definition array_of_size :: "nat \<Rightarrow> mobj \<Rightarrow> mobj list option" where
  "array_of_size n o1 = do {
     ps \<leftarrow> array o1;
     assert (length ps = n);
     Some ps
   }"

text \<open>Reading element \<open>i\<close> of an array: past the end there is nothing to read.\<close>

definition elem :: "mobj list \<Rightarrow> nat \<Rightarrow> mobj option" where
  "elem ps i = (if i < length ps then Some (ps ! i) else None)"

subsection \<open>What msgpack promises\<close>

locale msgpack_unpacker =
  fixes unpack :: "pcall list \<Rightarrow> mobj list option"
  assumes unpack_Nil: "unpack [] = Some []"
    and unpack_array: "unpack (Pack_array n # cs) = do {
        os \<leftarrow> unpack cs;
        if n \<le> length os then Some (M_array (take n os) # drop n os) else None }"
    and unpack_uint32: "unpack (Pack_uint32 x # cs) = map_option (Cons (M_positive_integer (ucast x))) (unpack cs)"
    and unpack_uint64: "unpack (Pack_uint64 y # cs) = map_option (Cons (M_positive_integer y)) (unpack cs)"
    and unpack_int: "unpack (Pack_int i # cs) =
        map_option (Cons (if 0 \<le> i then M_positive_integer (word_of_int i) else M_negative_integer i)) (unpack cs)"
    and unpack_true: "unpack (Pack_true # cs) = map_option (Cons (M_boolean True)) (unpack cs)"
    and unpack_false: "unpack (Pack_false # cs) = map_option (Cons (M_boolean False)) (unpack cs)"
    and unpack_raw: "unpack (Pack_raw (length b) # Pack_raw_body b # cs) = map_option (Cons (M_raw b)) (unpack cs)"
begin

lemmas unpack_simps = unpack_Nil unpack_array unpack_uint32 unpack_uint64 unpack_int unpack_true
  unpack_false unpack_raw

text \<open>\<open>cs\<close> is the encoding of the one object \<open>o1\<close>.\<close>

definition encodes :: "pcall list \<Rightarrow> mobj \<Rightarrow> bool" where
  "encodes cs o1 \<longleftrightarrow> (\<forall>ds. unpack (cs @ ds) = map_option (Cons o1) (unpack ds))"

lemma encodesD: "encodes cs o1 \<Longrightarrow> unpack (cs @ ds) = map_option (Cons o1) (unpack ds)"
  by (simp add: encodes_def)

lemma encodes_unpack: "encodes cs o1 \<Longrightarrow> unpack cs = Some [o1]"
  using encodesD [of cs o1 "[]"] by (simp add: unpack_Nil)

lemma encodes_prims:
  "encodes [Pack_uint32 x] (M_positive_integer (ucast x))"
  "encodes [Pack_uint64 y] (M_positive_integer y)"
  "0 \<le> i \<Longrightarrow> encodes [Pack_int i] (M_positive_integer (word_of_int i))"
  "encodes [Pack_true] (M_boolean True)"
  "encodes [Pack_false] (M_boolean False)"
  "encodes [Pack_raw (length b), Pack_raw_body b] (M_raw b)"
  by (simp_all add: encodes_def unpack_simps)

lemma encodes_concat:
  assumes "list_all2 encodes css os"
  shows "unpack (concat css @ ds) = map_option (append os) (unpack ds)"
  using assms by (induction css os rule: list_all2_induct) (auto simp: encodesD option.map_comp o_def option.map_ident)

lemma encodes_array:
  assumes "list_all2 encodes css os" "n = length os"
  shows "encodes (Pack_array n # concat css) (M_array os)"
  using assms by (auto simp: encodes_def unpack_array encodes_concat split: bind_splits)

lemma encodes_array2:
  assumes "encodes c1 o1" "encodes c2 o2"
  shows "encodes (Pack_array 2 # c1 @ c2) (M_array [o1, o2])"
  using encodes_array [of "[c1, c2]" "[o1, o2]" 2] assms by simp

lemma encodes_array3:
  assumes "encodes c1 o1" "encodes c2 o2" "encodes c3 o3"
  shows "encodes (Pack_array 3 # c1 @ c2 @ c3) (M_array [o1, o2, o3])"
  using encodes_array [of "[c1, c2, c3]" "[o1, o2, o3]" 3] assms by simp

lemma encodes_array1:
  "encodes c1 o1 \<Longrightarrow> encodes (Pack_array 1 # c1) (M_array [o1])"
  using encodes_array [of "[c1]" "[o1]" 1] by simp

lemma encodes_array_map:
  "(\<And>x. x \<in> set xs \<Longrightarrow> encodes (f x) (g x)) \<Longrightarrow> n = length xs \<Longrightarrow>
   encodes (Pack_array n # concat (map f xs)) (M_array (map g xs))"
  by (rule encodes_array) (auto simp: list_all2_map1 list_all2_map2 list_all2_same)

end

text \<open>
  The promise can be kept: a decoder that reads the calls from the right, keeping the objects read so
  far on a stack from which an array header takes its elements.
\<close>

fun decode :: "pcall list \<Rightarrow> mobj list option" where
  "decode [] = Some []"
| "decode (Pack_array n # cs) = do {
     os \<leftarrow> decode cs;
     if n \<le> length os then Some (M_array (take n os) # drop n os) else None }"
| "decode (Pack_uint32 x # cs) = map_option (Cons (M_positive_integer (ucast x))) (decode cs)"
| "decode (Pack_uint64 y # cs) = map_option (Cons (M_positive_integer y)) (decode cs)"
| "decode (Pack_int i # cs) =
     map_option (Cons (if 0 \<le> i then M_positive_integer (word_of_int i) else M_negative_integer i)) (decode cs)"
| "decode (Pack_true # cs) = map_option (Cons (M_boolean True)) (decode cs)"
| "decode (Pack_false # cs) = map_option (Cons (M_boolean False)) (decode cs)"
| "decode (Pack_raw n # Pack_raw_body b # cs) =
     (if length b = n then map_option (Cons (M_raw b)) (decode cs) else None)"
| "decode (Pack_raw _ # _) = None"
| "decode (Pack_raw_body _ # _) = None"

interpretation decode: msgpack_unpacker decode
  by unfold_locales simp_all

end
