(* ===== verification/Core_Types.thy ===== *)
theory Core_Types
  imports Containers Msgpack_Model
begin

section \<open>Core Paxos types (types/core.h, types/core.c)\<close>

text \<open>
  Opcodes and decree kinds are C enums.  A received enum is any 32-bit number, so each datatype has
  one constructor more for the numbers that name no enumerator.
\<close>

type_synonym ballot = ppair
type_synonym reqid = ppair

datatype paxop =
    OP_PREPARE | OP_PROMISE | OP_DECREE | OP_ACCEPT | OP_COMMIT
  | OP_WELCOME | OP_HELLO
  | OP_REQUEST | OP_RETRIEVE | OP_RESEND
  | OP_REDIRECT | OP_REFUSE | OP_REJECT
  | OP_RETRY | OP_RECOMMIT
  | OP_SYNC | OP_LAST | OP_TRUNCATE
  | OP_unknown u32

definition paxops :: "paxop list" where
  "paxops = [OP_PREPARE, OP_PROMISE, OP_DECREE, OP_ACCEPT, OP_COMMIT, OP_WELCOME, OP_HELLO,
     OP_REQUEST, OP_RETRIEVE, OP_RESEND, OP_REDIRECT, OP_REFUSE, OP_REJECT, OP_RETRY, OP_RECOMMIT,
     OP_SYNC, OP_LAST, OP_TRUNCATE]"

fun paxop_num :: "paxop \<Rightarrow> u32" where
  "paxop_num OP_PREPARE = 0"
| "paxop_num OP_PROMISE = 1"
| "paxop_num OP_DECREE = 2"
| "paxop_num OP_ACCEPT = 3"
| "paxop_num OP_COMMIT = 4"
| "paxop_num OP_WELCOME = 5"
| "paxop_num OP_HELLO = 6"
| "paxop_num OP_REQUEST = 7"
| "paxop_num OP_RETRIEVE = 8"
| "paxop_num OP_RESEND = 9"
| "paxop_num OP_REDIRECT = 10"
| "paxop_num OP_REFUSE = 11"
| "paxop_num OP_REJECT = 12"
| "paxop_num OP_RETRY = 13"
| "paxop_num OP_RECOMMIT = 14"
| "paxop_num OP_SYNC = 15"
| "paxop_num OP_LAST = 16"
| "paxop_num OP_TRUNCATE = 17"
| "paxop_num (OP_unknown n) = n"

definition paxop_of :: "u32 \<Rightarrow> paxop" where
  "paxop_of n = (if unat n < length paxops then paxops ! unat n else OP_unknown n)"

datatype dkind = DEC_NULL | DEC_CHAT | DEC_JOIN | DEC_PART | DEC_KILL | DEC_unknown u32

definition dkinds :: "dkind list" where
  "dkinds = [DEC_NULL, DEC_CHAT, DEC_JOIN, DEC_PART, DEC_KILL]"

fun dkind_num :: "dkind \<Rightarrow> u32" where
  "dkind_num DEC_NULL = 0"
| "dkind_num DEC_CHAT = 1"
| "dkind_num DEC_JOIN = 2"
| "dkind_num DEC_PART = 3"
| "dkind_num DEC_KILL = 4"
| "dkind_num (DEC_unknown n) = n"

definition dkind_of :: "u32 \<Rightarrow> dkind" where
  "dkind_of n = (if unat n < length dkinds then dkinds ! unat n else DEC_unknown n)"

record paxos_header =
  ph_session :: pax_uuid
  ph_ballot :: ballot
  ph_opcode :: paxop
  ph_inum :: paxid

record paxos_value =
  pv_dkind :: dkind
  pv_reqid :: reqid
  pv_extra :: paxid

definition ballot_compare :: "ballot \<Rightarrow> ballot \<Rightarrow> int" where
  "ballot_compare x y = ppair_compare x y"

definition reqid_compare :: "reqid \<Rightarrow> reqid \<Rightarrow> int" where
  "reqid_compare x y = ppair_compare x y"

interpretation ballot: comparator ballot_compare
  unfolding ballot_compare_def by (rule ppair.comparator_axioms)

interpretation reqid: comparator reqid_compare
  unfolding reqid_compare_def by (rule ppair.comparator_axioms)

lemma ballot_compare_simps [simp]:
  "ballot_compare x y = 0 \<longleftrightarrow> x = y" "ballot_compare x y < 0 \<longleftrightarrow> x < y" "0 < ballot_compare x y \<longleftrightarrow> y < x"
  "ballot_compare x y \<le> 0 \<longleftrightarrow> x \<le> y" "0 \<le> ballot_compare x y \<longleftrightarrow> y \<le> x"
  by (simp_all add: ballot_compare_def)

lemma reqid_compare_simps [simp]:
  "reqid_compare x y = 0 \<longleftrightarrow> x = y" "reqid_compare x y < 0 \<longleftrightarrow> x < y" "0 < reqid_compare x y \<longleftrightarrow> y < x"
  by (simp_all add: reqid_compare_def)

subsection \<open>Packing and unpacking\<close>

definition paxos_header_pack :: "paxos_header \<Rightarrow> paxos_yak" where
  "paxos_header_pack hdr =
     [Pack_array 5]
     @ paxos_uuid_pack (ph_session hdr)
     @ msgpack_pack_paxid (pid (ph_ballot hdr))
     @ msgpack_pack_paxid (gen (ph_ballot hdr))
     @ [Pack_int (sint (paxop_num (ph_opcode hdr)))]
     @ msgpack_pack_paxid (ph_inum hdr)"

definition paxos_header_unpack :: "mobj \<Rightarrow> paxos_header option" where
  "paxos_header_unpack o1 = do {
     p \<leftarrow> array_of_size 5 o1;
     session \<leftarrow> paxos_uuid_unpack (p ! 0);
     bid \<leftarrow> positive_integer (p ! 1);
     bgen \<leftarrow> positive_integer (p ! 2);
     opcode \<leftarrow> positive_integer (p ! 3);
     inum \<leftarrow> positive_integer (p ! 4);
     Some \<lparr>ph_session = session, ph_ballot = PPair (ucast bid) (ucast bgen),
       ph_opcode = paxop_of (ucast opcode), ph_inum = ucast inum\<rparr>
   }"

definition paxos_value_pack :: "paxos_value \<Rightarrow> paxos_yak" where
  "paxos_value_pack val =
     [Pack_array 4]
     @ [Pack_int (sint (dkind_num (pv_dkind val)))]
     @ msgpack_pack_paxid (pid (pv_reqid val))
     @ msgpack_pack_paxid (gen (pv_reqid val))
     @ msgpack_pack_paxid (pv_extra val)"

definition paxos_value_unpack :: "mobj \<Rightarrow> paxos_value option" where
  "paxos_value_unpack o1 = do {
     p \<leftarrow> array_of_size 4 o1;
     dkind \<leftarrow> positive_integer (p ! 0);
     rid \<leftarrow> positive_integer (p ! 1);
     rgen \<leftarrow> positive_integer (p ! 2);
     extra \<leftarrow> positive_integer (p ! 3);
     Some \<lparr>pv_dkind = dkind_of (ucast dkind), pv_reqid = PPair (ucast rid) (ucast rgen),
       pv_extra = ucast extra\<rparr>
   }"

text \<open>
  The objects a header and a value arrive as.  An opcode or a decree kind that is an enumerator is a
  small non-negative number.
\<close>

definition header_obj :: "paxos_header \<Rightarrow> mobj" where
  "header_obj hdr = M_array
     [M_positive_integer (ph_session hdr),
      M_positive_integer (ucast (pid (ph_ballot hdr))), M_positive_integer (ucast (gen (ph_ballot hdr))),
      M_positive_integer (ucast (paxop_num (ph_opcode hdr))), M_positive_integer (ucast (ph_inum hdr))]"

definition value_obj :: "paxos_value \<Rightarrow> mobj" where
  "value_obj val = M_array
     [M_positive_integer (ucast (dkind_num (pv_dkind val))),
      M_positive_integer (ucast (pid (pv_reqid val))), M_positive_integer (ucast (gen (pv_reqid val))),
      M_positive_integer (ucast (pv_extra val))]"

definition known_op :: "paxop \<Rightarrow> bool" where "known_op op \<longleftrightarrow> op \<in> set paxops"
definition known_kind :: "dkind \<Rightarrow> bool" where "known_kind k \<longleftrightarrow> k \<in> set dkinds"

lemma known_op_cases: "known_op op \<Longrightarrow> paxop_of (paxop_num op) = op \<and> 0 \<le> sint (paxop_num op)
    \<and> word_of_int (sint (paxop_num op)) = (ucast (paxop_num op) :: u64)"
  by (auto simp: known_op_def paxops_def paxop_of_def)

lemma known_kind_cases: "known_kind k \<Longrightarrow> dkind_of (dkind_num k) = k \<and> 0 \<le> sint (dkind_num k)
    \<and> word_of_int (sint (dkind_num k)) = (ucast (dkind_num k) :: u64)"
  by (auto simp: known_kind_def dkinds_def dkind_of_def)

lemma ucast_ucast_u32 [simp]: "(ucast (ucast (x :: u32) :: u64) :: u32) = x"
  by (simp add: ucast_up_ucast_id is_up)

lemma header_unpack_obj: "known_op (ph_opcode hdr) \<Longrightarrow> paxos_header_unpack (header_obj hdr) = Some hdr"
  using known_op_cases [of "ph_opcode hdr"]
  by (simp add: paxos_header_unpack_def header_obj_def array_of_size_def paxos_uuid_unpack_def)

lemma value_unpack_obj: "known_kind (pv_dkind val) \<Longrightarrow> paxos_value_unpack (value_obj val) = Some val"
  using known_kind_cases [of "pv_dkind val"]
  by (simp add: paxos_value_unpack_def value_obj_def array_of_size_def)

context msgpack_unpacker
begin

lemma encodes_header: "known_op (ph_opcode hdr) \<Longrightarrow> encodes (paxos_header_pack hdr) (header_obj hdr)"
  using known_op_cases [of "ph_opcode hdr"]
  by (auto simp: encodes_def paxos_header_pack_def header_obj_def unpack_simps
      paxos_uuid_pack_def msgpack_pack_pax_uuid_def msgpack_pack_paxid_def split: bind_splits)

lemma encodes_value: "known_kind (pv_dkind val) \<Longrightarrow> encodes (paxos_value_pack val) (value_obj val)"
  using known_kind_cases [of "pv_dkind val"]
  by (auto simp: encodes_def paxos_value_pack_def value_obj_def unpack_simps
      msgpack_pack_paxid_def split: bind_splits)

end

end
