(* ===== verification/Session_State.thy ===== *)
theory Session_State
  imports Containers Core_Types
begin

section \<open>Session state (types/session\_local.\{h,c\}, session.\{h,c\}, continuation.\{h,c\})\<close>

text \<open>
  The data of one Paxos session.  Acceptors and instances are shared by pointer in the source
  (\<open>pax->proposer\<close>, \<open>pax->istart\<close>, \<open>prep->pp_istart\<close> alias list elements), so they live in two heaps,
  \<open>aheap\<close> and \<open>iheap\<close>, from addresses to structs, where a freed address holds \<open>None\<close>; the lists hold
  addresses.  Requests are never changed once they are cached and are kept by value.  The lists are
  Isabelle lists in place of the circular lists, which theory Linked_List justifies.

  Some fields are the model's own: \<open>unlinked\<close> keeps the \<open>le_prev\<close> and \<open>le_next\<close> a removed instance
  still holds, \<open>brk\<close> is the next free address, \<open>out\<close> collects what the session does to the outside
  (messages given to peers, calls of the client's callbacks, peers created and destroyed) in order,
  and \<open>ended\<close> says that the session object has been freed.  The client's \<open>connect\<close> callback is a
  parameter: \<open>connect_ret\<close> is what it returns for a descriptor.  The callback is asynchronous here: it
  returns before it calls the continuation, which is an entry point of its own.
\<close>

type_synonym aref = nat     \<comment> \<open>\<open>struct paxos_acceptor *\<close>\<close>
type_synonym iref = nat     \<comment> \<open>\<open>struct paxos_instance *\<close>\<close>
type_synonym kref = nat     \<comment> \<open>\<open>struct paxos_continuation *\<close>\<close>
type_synonym peer = nat     \<comment> \<open>\<open>struct paxos_peer *\<close>, named by its channel\<close>

record paxos_acceptor =
  pa_paxid :: paxid
  pa_peer :: "peer option"
  pa_desc :: bytes

record paxos_instance =
  pi_hdr :: paxos_header
  pi_committed :: bool
  pi_cached :: bool
  pi_learned :: bool
  pi_votes :: u32
  pi_rejects :: u32
  pi_val :: paxos_value

record paxos_request =
  pr_val :: paxos_value
  pr_data :: bytes

datatype continuation_func =
  Continue_welcome | Continue_ack_welcome | Continue_ack_redirect | Continue_ack_refuse | Continue_ack_reject

text \<open>The union \<open>pk_data\<close>: zeroed, an instance number for ack\_reject, or a request for ack\_refuse.\<close>

datatype pk_data = PK_zero | PK_inum paxid | PK_req paxos_request

record paxos_continuation =
  pk_func :: continuation_func
  pk_session_id :: pax_uuid
  pk_paxid :: paxid
  pk_data :: pk_data

record paxos_prep =
  pp_ballot :: ballot
  pp_acks :: u32
  pp_redirects :: u32
  pp_istart :: "iref option"

record paxos_sync =
  ps_total :: u32
  ps_acks :: u32
  ps_skips :: u32
  ps_last :: paxid

text \<open>
  The client's session object is opaque; \<open>Freed_data\<close> stands for the value of that field when it is
  read after the session has been freed.
\<close>

datatype client_data = Null_data | Client_data nat | Freed_data

datatype effect =
    Send peer paxos_yak
  | Connect bytes kref               \<comment> \<open>\<open>state.connect\<close>\<close>
  | Learn_chat bytes bytes client_data
  | Learn_join bytes bytes client_data
  | Learn_part bytes bytes client_data
  | Enter                            \<comment> \<open>\<open>state.enter\<close>\<close>
  | Leave client_data                \<comment> \<open>\<open>state.leave\<close>\<close>
  | Peer_init peer
  | Peer_destroy peer
  | Add_sync_timer pax_uuid

record paxos_session =
  session_id :: pax_uuid
  client_data :: client_data
  self_id :: paxid
  req_id :: paxid
  proposer :: "aref option"
  ballot :: ballot
  gen_high :: paxid
  prep :: "paxos_prep option"
  sync_id :: paxid
  sync_prev :: paxid
  sync :: "paxos_sync option"
  live_count :: u32
  alist :: "aref list"
  adefer :: "aref list"
  clist :: "(kref \<times> paxos_continuation) list"
  ilist :: "iref list"
  idefer :: "iref list"
  rcache :: "paxos_request list"
  ibase :: paxid
  ihole :: paxid
  istart :: "iref option"
  aheap :: "aref \<Rightarrow> paxos_acceptor option"
  iheap :: "iref \<Rightarrow> paxos_instance option"
  unlinked :: "iref \<Rightarrow> iref option \<times> iref option"
  brk :: nat
  connect_ret :: "bytes \<Rightarrow> int"
  out :: "effect list"
  ended :: bool

type_synonym 'a result = "('a \<times> paxos_session) option"

definition emit :: "effect \<Rightarrow> paxos_session \<Rightarrow> paxos_session" where
  "emit e s = s\<lparr>out := out s @ [e]\<rparr>"

subsection \<open>Containers of the session\<close>

definition paxid_of :: "paxos_session \<Rightarrow> aref \<Rightarrow> paxid option" where
  "paxid_of s a = map_option pa_paxid (aheap s a)"
definition inum_of :: "paxos_session \<Rightarrow> iref \<Rightarrow> paxid option" where
  "inum_of s i = map_option (\<lambda>x. ph_inum (pi_hdr x)) (iheap s i)"
definition reqid_of :: "paxos_request \<Rightarrow> reqid option" where
  "reqid_of r = Some (pv_reqid (pr_val r))"

definition acceptor_find :: "(aref \<Rightarrow> paxid option) \<Rightarrow> aref list \<Rightarrow> paxid \<Rightarrow> aref option option" where
  "acceptor_find = LIST_FIND_FWD paxid_compare"
definition acceptor_insert :: "(aref \<Rightarrow> paxid option) \<Rightarrow> aref list \<Rightarrow> aref \<Rightarrow> (aref list \<times> aref) option" where
  "acceptor_insert = LIST_INSERT_REV paxid_compare"
definition instance_find :: "(iref \<Rightarrow> paxid option) \<Rightarrow> iref list \<Rightarrow> paxid \<Rightarrow> iref option option" where
  "instance_find = LIST_FIND_REV paxid_compare"
definition instance_insert :: "(iref \<Rightarrow> paxid option) \<Rightarrow> iref list \<Rightarrow> iref \<Rightarrow> (iref list \<times> iref) option" where
  "instance_insert = LIST_INSERT_REV paxid_compare"
definition request_find ::
  "(paxos_request \<Rightarrow> reqid option) \<Rightarrow> paxos_request list \<Rightarrow> reqid \<Rightarrow> paxos_request option option" where
  "request_find = LIST_FIND_FWD reqid_compare"
definition request_insert ::
  "(paxos_request \<Rightarrow> reqid option) \<Rightarrow> paxos_request list \<Rightarrow> paxos_request \<Rightarrow> (paxos_request list \<times> paxos_request) option" where
  "request_insert = LIST_INSERT_REV reqid_compare"

interpretation acceptors: container paxid_compare acceptor_find acceptor_insert
  unfolding acceptor_find_def acceptor_insert_def by (rule paxid.container_fwd_rev)

interpretation instances: container paxid_compare instance_find instance_insert
  unfolding instance_find_def instance_insert_def by (rule paxid.container_rev_rev)

interpretation requests: container reqid_compare request_find request_insert
  unfolding request_find_def request_insert_def by (rule reqid.container_fwd_rev)

subsection \<open>The instance list\<close>

text \<open>
  \<open>LIST_NEXT\<close> and \<open>LIST_PREV\<close> of an instance: \<open>Some None\<close> is the list head.  An instance taken off the
  list still has the links it had.
\<close>

definition ilist_next :: "paxos_session \<Rightarrow> iref \<Rightarrow> iref option option" where
  "ilist_next s i = do {
     assert (iheap s i \<noteq> None);
     Some (if i \<in> set (ilist s) then succ_in (ilist s) i else snd (unlinked s i))
   }"

definition ilist_prev :: "paxos_session \<Rightarrow> iref \<Rightarrow> iref option option" where
  "ilist_prev s i = do {
     assert (iheap s i \<noteq> None);
     Some (if i \<in> set (ilist s) then pred_in (ilist s) i else fst (unlinked s i))
   }"

definition ilist_last :: "paxos_session \<Rightarrow> iref option" where
  "ilist_last s = (if ilist s = [] then None else Some (last (ilist s)))"

fun insert_after :: "'a list \<Rightarrow> 'a \<Rightarrow> 'a \<Rightarrow> 'a list" where
  "insert_after [] a e = []"
| "insert_after (x # xs) a e = (if x = a then x # e # xs else x # insert_after xs a e)"

definition ilist_insert_after :: "iref \<Rightarrow> iref \<Rightarrow> paxos_session \<Rightarrow> paxos_session option" where
  "ilist_insert_after listelm elm s = do {
     assert (listelm \<in> set (ilist s));
     Some (s\<lparr>ilist := insert_after (ilist s) listelm elm\<rparr>)
   }"

definition ilist_remove :: "iref \<Rightarrow> paxos_session \<Rightarrow> paxos_session option" where
  "ilist_remove elm s = do {
     assert (elm \<in> set (ilist s));
     Some (s\<lparr>unlinked := (unlinked s)(elm := (pred_in (ilist s) elm, succ_in (ilist s) elm)),
             ilist := remove1 elm (ilist s)\<rparr>)
   }"

text \<open>\<open>LIST_COUNT\<close> is an unsigned counter.\<close>

definition list_count :: "'a list \<Rightarrow> u32" where
  "list_count xs = of_nat (length xs)"

lemma insert_after_mid: "a \<notin> set ys \<Longrightarrow> insert_after (ys @ a # zs) a e = ys @ a # e # zs"
  by (induction ys) auto

lemma set_insert_after: "a \<in> set xs \<Longrightarrow> set (insert_after xs a e) = insert e (set xs)"
  by (induction xs) auto

subsection \<open>Allocation, access and destruction\<close>

definition alloc_acceptor :: "paxos_acceptor \<Rightarrow> paxos_session \<Rightarrow> aref \<times> paxos_session" where
  "alloc_acceptor x s = (brk s, s\<lparr>aheap := (aheap s)(brk s \<mapsto> x), brk := Suc (brk s)\<rparr>)"

definition alloc_instance :: "paxos_instance \<Rightarrow> paxos_session \<Rightarrow> iref \<times> paxos_session" where
  "alloc_instance x s = (brk s, s\<lparr>iheap := (iheap s)(brk s \<mapsto> x), brk := Suc (brk s)\<rparr>)"

definition upd_acceptor :: "aref \<Rightarrow> (paxos_acceptor \<Rightarrow> paxos_acceptor) \<Rightarrow> paxos_session \<Rightarrow> paxos_session option" where
  "upd_acceptor a f s = do { x \<leftarrow> aheap s a; Some (s\<lparr>aheap := (aheap s)(a \<mapsto> f x)\<rparr>) }"

definition upd_instance :: "iref \<Rightarrow> (paxos_instance \<Rightarrow> paxos_instance) \<Rightarrow> paxos_session \<Rightarrow> paxos_session option" where
  "upd_instance i f s = do { x \<leftarrow> iheap s i; Some (s\<lparr>iheap := (iheap s)(i \<mapsto> f x)\<rparr>) }"

text \<open>What \<open>g_malloc0\<close> gives.\<close>

definition zero_header :: paxos_header where
  "zero_header = \<lparr>ph_session = 0, ph_ballot = PPair 0 0, ph_opcode = OP_PREPARE, ph_inum = 0\<rparr>"
definition zero_value :: paxos_value where
  "zero_value = \<lparr>pv_dkind = DEC_NULL, pv_reqid = PPair 0 0, pv_extra = 0\<rparr>"
definition zero_acceptor :: paxos_acceptor where
  "zero_acceptor = \<lparr>pa_paxid = 0, pa_peer = None, pa_desc = []\<rparr>"
definition zero_instance :: paxos_instance where
  "zero_instance = \<lparr>pi_hdr = zero_header, pi_committed = False, pi_cached = False, pi_learned = False,
     pi_votes = 0, pi_rejects = 0, pi_val = zero_value\<rparr>"
definition zero_session :: paxos_session where
  "zero_session = \<lparr>session_id = 0, client_data = Null_data, self_id = 0, req_id = 0, proposer = None,
     ballot = PPair 0 0, gen_high = 0, prep = None, sync_id = 0, sync_prev = 0, sync = None,
     live_count = 0, alist = [], adefer = [], clist = [], ilist = [], idefer = [], rcache = [],
     ibase = 0, ihole = 0, istart = None, aheap = Map.empty, iheap = Map.empty,
     unlinked = (\<lambda>_. (None, None)), brk = 1, connect_ret = (\<lambda>_. 0), out = [], ended = False\<rparr>"

text \<open>Reset the metadata fields of a Paxos instance.\<close>

definition instance_init_metadata :: "paxos_instance \<Rightarrow> paxos_instance" where
  "instance_init_metadata inst = inst\<lparr>pi_committed := False, pi_cached := False, pi_learned := False,
     pi_votes := 1, pi_rejects := 0\<rparr>"

definition paxos_peer_destroy :: "peer option \<Rightarrow> paxos_session \<Rightarrow> paxos_session" where
  "paxos_peer_destroy p s = (case p of None \<Rightarrow> s | Some p \<Rightarrow> emit (Peer_destroy p) s)"

text \<open>\<open>paxos_peer_init\<close>: no peer for a NULL channel, and one peer for each channel.\<close>

definition paxos_peer_init :: "peer option \<Rightarrow> paxos_session \<Rightarrow> peer option \<times> paxos_session" where
  "paxos_peer_init chan s = (case chan of None \<Rightarrow> (None, s) | Some c \<Rightarrow> (Some c, emit (Peer_init c) s))"

definition acceptor_destroy :: "aref \<Rightarrow> paxos_session \<Rightarrow> paxos_session option" where
  "acceptor_destroy a s = do {
     acc \<leftarrow> aheap s a;
     let s = paxos_peer_destroy (pa_peer acc) s;
     Some (s\<lparr>aheap := (aheap s)(a := None)\<rparr>)
   }"

definition instance_destroy :: "iref \<Rightarrow> paxos_session \<Rightarrow> paxos_session option" where
  "instance_destroy i s = do {
     _ \<leftarrow> iheap s i;
     Some (s\<lparr>iheap := (iheap s)(i := None)\<rparr>)
   }"

fun acceptor_container_destroy :: "aref list \<Rightarrow> paxos_session \<Rightarrow> paxos_session option" where
  "acceptor_container_destroy [] s = Some s"
| "acceptor_container_destroy (a # as) s = do {
     s \<leftarrow> acceptor_destroy a s;
     acceptor_container_destroy as s
   }"

fun instance_container_destroy :: "iref list \<Rightarrow> paxos_session \<Rightarrow> paxos_session option" where
  "instance_container_destroy [] s = Some s"
| "instance_container_destroy (i # is) s = do {
     s \<leftarrow> instance_destroy i s;
     instance_container_destroy is s
   }"

text \<open>\<open>session_new\<close>: a zeroed session, with a random UUID if asked for one, and empty lists.\<close>

definition session_new :: "(bytes \<Rightarrow> int) \<Rightarrow> bytes \<Rightarrow> client_data \<Rightarrow> bool \<Rightarrow> paxos_session" where
  "session_new conn rnd data gen_uuid =
     zero_session\<lparr>connect_ret := conn, session_id := (if gen_uuid then pax_uuid_gen rnd else 0), client_data := data\<rparr>"

definition session_destroy :: "paxos_session \<Rightarrow> paxos_session option" where
  "session_destroy s = do {
     s \<leftarrow> acceptor_container_destroy (alist s) s;
     let s = s\<lparr>alist := []\<rparr>;
     s \<leftarrow> acceptor_container_destroy (adefer s) s;
     let s = s\<lparr>adefer := []\<rparr>;
     let s = s\<lparr>clist := []\<rparr>;
     s \<leftarrow> instance_container_destroy (ilist s) s;
     let s = s\<lparr>ilist := []\<rparr>;
     s \<leftarrow> instance_container_destroy (idefer s) s;
     let s = s\<lparr>idefer := []\<rparr>;
     let s = s\<lparr>rcache := []\<rparr>;
     Some (s\<lparr>ended := True\<rparr>)
   }"

text \<open>\<open>continuation_new\<close>: remembered in \<open>clist\<close>, found again by its address.\<close>

definition continuation_new :: "continuation_func \<Rightarrow> paxid \<Rightarrow> paxos_session \<Rightarrow> kref \<times> paxos_session" where
  "continuation_new func paxid s =
     (let k = brk s in
      (k, s\<lparr>clist := clist s @ [(k, \<lparr>pk_func = func, pk_session_id = session_id s, pk_paxid = paxid,
              pk_data = PK_zero\<rparr>)],
            brk := Suc k\<rparr>))"

text \<open>A call of \<open>state.connect\<close>.\<close>

definition state_connect :: "bytes \<Rightarrow> kref \<Rightarrow> paxos_session \<Rightarrow> int \<times> paxos_session" where
  "state_connect desc k s = (connect_ret s desc, emit (Connect desc k) s)"

definition header_init :: "paxos_session \<Rightarrow> paxop \<Rightarrow> paxid \<Rightarrow> paxos_header" where
  "header_init s opcode inum =
     \<lparr>ph_session = session_id s, ph_ballot = PPair (pid (ballot s)) (gen (ballot s)),
      ph_opcode = opcode, ph_inum = inum\<rparr>"

end
