(* ===== verification/Session_Wire.thy ===== *)
theory Session_Wire
  imports Session_State
begin

section \<open>Acceptors, instances and requests on the wire (types/session\_local.c)\<close>

definition paxos_acceptor_pack :: "paxos_acceptor \<Rightarrow> paxos_yak" where
  "paxos_acceptor_pack acc =
     [Pack_array 2] @ msgpack_pack_paxid (pa_paxid acc)
     @ [Pack_raw (length (pa_desc acc)), Pack_raw_body (pa_desc acc)]"

definition paxos_acceptor_unpack :: "mobj \<Rightarrow> paxos_acceptor option" where
  "paxos_acceptor_unpack o1 = do {
     p \<leftarrow> array_of_size 2 o1;
     paxid \<leftarrow> positive_integer (p ! 0);
     desc \<leftarrow> raw (p ! 1);
     Some \<lparr>pa_paxid = ucast paxid, pa_peer = None, pa_desc = desc\<rparr>
   }"

definition paxos_instance_pack :: "paxos_instance \<Rightarrow> paxos_yak" where
  "paxos_instance_pack inst =
     [Pack_array 3] @ paxos_header_pack (pi_hdr inst)
     @ [if pi_committed inst then Pack_true else Pack_false]
     @ paxos_value_pack (pi_val inst)"

definition paxos_instance_unpack :: "mobj \<Rightarrow> paxos_instance option" where
  "paxos_instance_unpack o1 = do {
     p \<leftarrow> array_of_size 3 o1;
     hdr \<leftarrow> paxos_header_unpack (p ! 0);
     committed \<leftarrow> boolean (p ! 1);
     val \<leftarrow> paxos_value_unpack (p ! 2);
     Some \<lparr>pi_hdr = hdr, pi_committed = committed, pi_cached = False, pi_learned = False,
       pi_votes = 0, pi_rejects = 0, pi_val = val\<rparr>
   }"

definition paxos_request_pack :: "paxos_request \<Rightarrow> paxos_yak" where
  "paxos_request_pack req =
     [Pack_array 2] @ paxos_value_pack (pr_val req)
     @ [Pack_raw (length (pr_data req)), Pack_raw_body (pr_data req)]"

definition paxos_request_unpack :: "mobj \<Rightarrow> paxos_request option" where
  "paxos_request_unpack o1 = do {
     p \<leftarrow> array_of_size 2 o1;
     val \<leftarrow> paxos_value_unpack (p ! 0);
     data \<leftarrow> raw (p ! 1);
     Some \<lparr>pr_val = val, pr_data = data\<rparr>
   }"

subsection \<open>The objects they arrive as\<close>

definition acceptor_obj :: "paxos_acceptor \<Rightarrow> mobj" where
  "acceptor_obj acc = M_array [M_positive_integer (ucast (pa_paxid acc)), M_raw (pa_desc acc)]"

definition instance_obj :: "paxos_instance \<Rightarrow> mobj" where
  "instance_obj inst = M_array [header_obj (pi_hdr inst), M_boolean (pi_committed inst), value_obj (pi_val inst)]"

definition request_obj :: "paxos_request \<Rightarrow> mobj" where
  "request_obj req = M_array [value_obj (pr_val req), M_raw (pr_data req)]"

text \<open>An instance whose enums are enumerators, as every instance the program makes.\<close>

definition known_instance :: "paxos_instance \<Rightarrow> bool" where
  "known_instance inst \<longleftrightarrow> known_op (ph_opcode (pi_hdr inst)) \<and> known_kind (pv_dkind (pi_val inst))"

text \<open>What is sent of an instance, and what is not: the flags and counters marked so in the header.\<close>

definition instance_sent :: "paxos_instance \<Rightarrow> paxos_instance" where
  "instance_sent inst = inst\<lparr>pi_cached := False, pi_learned := False, pi_votes := 0, pi_rejects := 0\<rparr>"

lemma acceptor_unpack_obj: "paxos_acceptor_unpack (acceptor_obj acc) = Some (acc\<lparr>pa_peer := None\<rparr>)"
  by (simp add: paxos_acceptor_unpack_def acceptor_obj_def array_of_size_def)

lemma instance_unpack_obj:
  "known_instance inst \<Longrightarrow> paxos_instance_unpack (instance_obj inst) = Some (instance_sent inst)"
  by (simp add: paxos_instance_unpack_def instance_obj_def array_of_size_def header_unpack_obj
      value_unpack_obj known_instance_def instance_sent_def)

lemma request_unpack_obj:
  "known_kind (pv_dkind (pr_val req)) \<Longrightarrow> paxos_request_unpack (request_obj req) = Some req"
  by (simp add: paxos_request_unpack_def request_obj_def array_of_size_def value_unpack_obj)

context msgpack_unpacker
begin

lemma encodes_acceptor: "encodes (paxos_acceptor_pack acc) (acceptor_obj acc)"
  using encodes_array2 [OF encodes_prims(1) encodes_prims(6)]
  by (simp add: paxos_acceptor_pack_def acceptor_obj_def msgpack_pack_paxid_def)

lemma encodes_bool: "encodes [if b then Pack_true else Pack_false] (M_boolean b)"
  by (simp add: encodes_prims)

lemma encodes_instance: "known_instance inst \<Longrightarrow> encodes (paxos_instance_pack inst) (instance_obj inst)"
  using encodes_array3 [OF encodes_header [of "pi_hdr inst"] encodes_bool encodes_value [of "pi_val inst"]]
  by (simp add: paxos_instance_pack_def instance_obj_def known_instance_def)

lemma encodes_request:
  "known_kind (pv_dkind (pr_val req)) \<Longrightarrow> encodes (paxos_request_pack req) (request_obj req)"
  using encodes_array2 [OF encodes_value [of "pr_val req"] encodes_prims(6)]
  by (simp add: paxos_request_pack_def request_obj_def)

text \<open>A message: the header alone, or the header and one payload object.\<close>

lemma encodes_message1: "known_op (ph_opcode hdr) \<Longrightarrow>
    encodes (paxos_payload_init 1 @ paxos_header_pack hdr) (M_array [header_obj hdr])"
  using encodes_array1 [OF encodes_header [of hdr]] by (simp add: paxos_payload_init_def)

lemma encodes_message2: "known_op (ph_opcode hdr) \<Longrightarrow> encodes cs o1 \<Longrightarrow>
    encodes (paxos_payload_init 2 @ paxos_header_pack hdr @ cs) (M_array [header_obj hdr, o1])"
  using encodes_array2 [OF encodes_header [of hdr]] by (simp add: paxos_payload_init_def)

end

end
