(* ===== verification/Util.thy ===== *)
theory Util
  imports Session_Wire
begin

section \<open>Session utilities (paxos\_util.c)\<close>

text \<open>
  \<open>is_proposer\<close>, \<open>majority\<close> and the other small queries, and the wrappers that give a message to one
  peer, to the proposer or to every live acceptor.  \<open>paxos_peer_send\<close> appends to the peer's write
  buffer and returns 0; sending to a NULL peer dereferences it.
\<close>

unbundle bit_operations_syntax

definition is_proposer :: "paxos_session \<Rightarrow> bool option" where
  "is_proposer s = (case proposer s of
     None \<Rightarrow> Some False
   | Some a \<Rightarrow> do { acc \<leftarrow> aheap s a; Some (self_id s = pa_paxid acc) })"

fun reset_proposer_walk :: "aref list \<Rightarrow> paxos_session \<Rightarrow> paxos_session option" where
  "reset_proposer_walk [] s = Some s"
| "reset_proposer_walk (it # its) s = do {
     acc \<leftarrow> aheap s it;
     if pa_paxid acc = self_id s \<or> pa_peer acc \<noteq> None then Some (s\<lparr>proposer := Some it\<rparr>)
     else reset_proposer_walk its s
   }"

definition reset_proposer :: "paxos_session \<Rightarrow> paxos_session option" where
  "reset_proposer s = reset_proposer_walk (alist s) s"

definition next_instance :: "paxos_session \<Rightarrow> paxid option" where
  "next_instance s =
     (if ilist s = [] then Some 1
      else do { inst \<leftarrow> iheap s (last (ilist s)); Some (ph_inum (pi_hdr inst) + 1) })"

definition majority :: "paxos_session \<Rightarrow> u32" where
  "majority s = list_count (alist s) div 2 + 1"

definition request_needs_cached :: "dkind \<Rightarrow> bool" where
  "request_needs_cached dkind \<longleftrightarrow> dkind = DEC_CHAT \<or> dkind = DEC_JOIN"

definition instance_insert_and_upstart :: "iref \<Rightarrow> paxos_session \<Rightarrow> paxos_session option" where
  "instance_insert_and_upstart i s = do {
     (xs, _) \<leftarrow> instance_insert (inum_of s) (ilist s) i;
     let s = s\<lparr>ilist := xs\<rparr>;
     inst \<leftarrow> iheap s i;
     Some (if ph_inum (pi_hdr inst) = ihole s then s\<lparr>istart := Some i\<rparr> else s)
   }"

subsection \<open>Message delivery\<close>

definition paxos_peer_send :: "peer option \<Rightarrow> paxos_yak \<Rightarrow> paxos_session \<Rightarrow> int result" where
  "paxos_peer_send peer py s = do { p \<leftarrow> peer; Some (0, emit (Send p py) s) }"

definition paxos_send :: "aref \<Rightarrow> paxos_yak \<Rightarrow> paxos_session \<Rightarrow> int result" where
  "paxos_send acc py s = do { a \<leftarrow> aheap s acc; paxos_peer_send (pa_peer a) py s }"

definition paxos_send_to_proposer :: "paxos_yak \<Rightarrow> paxos_session \<Rightarrow> int result" where
  "paxos_send_to_proposer py s = (case proposer s of
     None \<Rightarrow> Some (1, s)
   | Some acc \<Rightarrow> paxos_send acc py s)"

fun broadcast_walk :: "aref list \<Rightarrow> paxos_yak \<Rightarrow> int \<Rightarrow> paxos_session \<Rightarrow> int result" where
  "broadcast_walk [] py r s = Some (r, s)"
| "broadcast_walk (acc # accs) py r s = do {
     a \<leftarrow> aheap s acc;
     if pa_peer a = None then broadcast_walk accs py r s
     else do {
       (c, s) \<leftarrow> paxos_send acc py s;
       broadcast_walk accs py (r OR c) s
     }
   }"

definition paxos_broadcast :: "paxos_yak \<Rightarrow> paxos_session \<Rightarrow> int result" where
  "paxos_broadcast py s = broadcast_walk (alist s) py 0 s"

definition instance_message :: "paxos_instance \<Rightarrow> paxos_yak" where
  "instance_message inst = paxos_payload_init 2 @ paxos_header_pack (pi_hdr inst) @ paxos_value_pack (pi_val inst)"

definition paxos_broadcast_instance :: "iref \<Rightarrow> paxos_session \<Rightarrow> int result" where
  "paxos_broadcast_instance i s = do {
     inst \<leftarrow> iheap s i;
     paxos_broadcast (instance_message inst) s
   }"

text \<open>
  \<open>proposer_decree_part\<close> decrees, or defers while a prepare is pending.  Decreeing commits and learns
  when we are a majority alone, and learning may prepare, which decrees parts: the source is mutually
  recursive there.  The decree is therefore an argument; \<open>Proposer.proposer_decree_part\<close> closes the
  knot, and \<open>Learn\<close> shows that the call inside a prepare never takes it.
\<close>

definition proposer_decree_part_with ::
  "(iref \<Rightarrow> paxos_session \<Rightarrow> int result) \<Rightarrow> aref \<Rightarrow> bool \<Rightarrow> paxos_session \<Rightarrow> int result" where
  "proposer_decree_part_with decree acc force s = do {
     a \<leftarrow> aheap s acc;
     let s = s\<lparr>req_id := req_id s + 1\<rparr>;
     let val = \<lparr>pv_dkind = (if force then DEC_KILL else DEC_PART),
                pv_reqid = PPair (self_id s) (req_id s), pv_extra = pa_paxid a\<rparr>;
     let (i, s) = alloc_instance (zero_instance\<lparr>pi_val := val\<rparr>) s;
     if prep s \<noteq> None then Some (0, s\<lparr>idefer := idefer s @ [i]\<rparr>)
     else decree i s
   }"

subsection \<open>What sending does\<close>

text \<open>\<open>sends_only s s'\<close>: \<open>s'\<close> is \<open>s\<close> with some messages given to peers.\<close>

definition sends_only :: "paxos_session \<Rightarrow> paxos_session \<Rightarrow> bool" where
  "sends_only s s' \<longleftrightarrow> (\<exists>ms. s' = s\<lparr>out := out s @ map (\<lambda>(p, m). Send p m) ms\<rparr>)"

lemma sends_only_refl [simp, intro]: "sends_only s s"
  unfolding sends_only_def by (rule exI [of _ "[]"]) simp

lemma sends_only_trans: "sends_only s t \<Longrightarrow> sends_only t u \<Longrightarrow> sends_only s u"
  unfolding sends_only_def by (auto simp flip: map_append)

lemma sends_only_emit: "sends_only s (emit (Send p m) s)"
  unfolding sends_only_def emit_def by (rule exI [of _ "[(p, m)]"]) simp

lemma sends_onlyD:
  assumes "sends_only s s'"
  shows "s' = s\<lparr>out := out s'\<rparr>"
  using assms by (auto simp: sends_only_def)

lemma paxos_send_effect: "paxos_send a py s = Some (r, s') \<Longrightarrow> r = 0 \<and> sends_only s s'"
  by (auto simp: paxos_send_def paxos_peer_send_def bind_Some_iff sends_only_emit)

lemma paxos_peer_send_effect: "paxos_peer_send p py s = Some (r, s') \<Longrightarrow> r = 0 \<and> sends_only s s'"
  by (auto simp: paxos_peer_send_def bind_Some_iff sends_only_emit)

lemma paxos_send_to_proposer_effect:
  "paxos_send_to_proposer py s = Some (r, s') \<Longrightarrow> sends_only s s' \<and> (proposer s \<noteq> None \<longrightarrow> r = 0)"
  by (auto simp: paxos_send_to_proposer_def dest: paxos_send_effect split: option.splits)

lemma broadcast_walk_effect: "broadcast_walk accs py r s = Some (r', s') \<Longrightarrow> r' = r \<and> sends_only s s'"
proof (induction accs arbitrary: r s)
  case (Cons acc accs)
  then obtain a where a: "aheap s acc = Some a" by (auto simp: bind_Some_iff)
  show ?case
  proof (cases "pa_peer a = None")
    case False
    with Cons.prems a obtain c t where t: "paxos_send acc py s = Some (c, t)"
      and rest: "broadcast_walk accs py (r OR c) t = Some (r', s')" by (auto simp: bind_Some_iff)
    show ?thesis
      using paxos_send_effect [OF t] Cons.IH [OF rest] by (auto intro: sends_only_trans)
  qed (use Cons a in simp)
qed simp

lemma paxos_broadcast_effect: "paxos_broadcast py s = Some (r, s') \<Longrightarrow> r = 0 \<and> sends_only s s'"
  unfolding paxos_broadcast_def by (drule broadcast_walk_effect) simp

lemma paxos_broadcast_instance_effect:
  "paxos_broadcast_instance i s = Some (r, s') \<Longrightarrow> r = 0 \<and> sends_only s s'"
  by (auto simp: paxos_broadcast_instance_def bind_Some_iff dest: paxos_broadcast_effect)

text \<open>The peers a broadcast reaches: every acceptor of the list that has one, in list order.\<close>

definition live_peers :: "paxos_session \<Rightarrow> peer list" where
  "live_peers s = List.map_filter (\<lambda>a. Option.bind (aheap s a) pa_peer) (alist s)"

lemma broadcast_walk_run:
  assumes "\<forall>a\<in>set accs. aheap s a \<noteq> None"
  shows "broadcast_walk accs py r s = Some (r, s\<lparr>out := out s @
    map (\<lambda>p. Send p py) (List.map_filter (\<lambda>a. Option.bind (aheap s a) pa_peer) accs)\<rparr>)"
  using assms
proof (induction accs arbitrary: s)
  case (Cons a as)
  then obtain x where x: "aheap s a = Some x" by auto
  show ?case
  proof (cases "pa_peer x")
    case None
    with Cons x show ?thesis by (simp add: List.map_filter_simps)
  next
    case (Some p)
    with Cons.prems Cons.IH [of "emit (Send p py) s"] x show ?thesis
      by (simp add: List.map_filter_simps paxos_send_def paxos_peer_send_def emit_def)
  qed
qed (simp add: List.map_filter_simps)

lemma paxos_broadcast_run:
  assumes "\<forall>a\<in>set (alist s). aheap s a \<noteq> None"
  shows "paxos_broadcast py s = Some (0, s\<lparr>out := out s @ map (\<lambda>p. Send p py) (live_peers s)\<rparr>)"
  using broadcast_walk_run [OF assms] by (simp add: paxos_broadcast_def live_peers_def)

end
