(* ===== verification/Outbound.thy ===== *)
theory Outbound
  imports Util
begin

section \<open>Replies and requests that only send\<close>

text \<open>
  The protocol functions whose whole effect is one message: they build a header, pack a payload and
  give it to a peer.  The \<open>hdr\<close> argument of the reply functions is the received header, whose opcode
  they overwrite.
\<close>

definition header_message :: "paxos_header \<Rightarrow> paxos_yak" where
  "header_message hdr = paxos_payload_init 1 @ paxos_header_pack hdr"

subsection \<open>paxos\_acceptor.c\<close>

definition acceptor_accept :: "paxos_header \<Rightarrow> paxos_session \<Rightarrow> int result" where
  "acceptor_accept hdr s =
     paxos_send_to_proposer (header_message (hdr\<lparr>ph_opcode := OP_ACCEPT\<rparr>)) s"

subsection \<open>paxos\_reconnect.c\<close>

definition acceptor_redirect :: "peer option \<Rightarrow> paxos_header \<Rightarrow> paxos_session \<Rightarrow> int result" where
  "acceptor_redirect source orig_hdr s = do {
     p \<leftarrow> proposer s;
     acc \<leftarrow> aheap s p;
     let hdr = header_init s OP_REDIRECT (pa_paxid acc);
     paxos_peer_send source (paxos_payload_init 2 @ paxos_header_pack hdr @ paxos_header_pack orig_hdr) s
   }"

definition acceptor_refuse :: "peer option \<Rightarrow> paxos_header \<Rightarrow> paxos_request \<Rightarrow> paxos_session \<Rightarrow> int result" where
  "acceptor_refuse source orig_hdr req s = do {
     p \<leftarrow> proposer s;
     acc \<leftarrow> aheap s p;
     let hdr = header_init s OP_REFUSE (pa_paxid acc);
     paxos_peer_send source
       (paxos_payload_init 2 @ paxos_header_pack hdr @ paxos_payload_begin_array 2
        @ paxos_header_pack orig_hdr @ paxos_value_pack (pr_val req)) s
   }"

definition acceptor_reject :: "paxos_header \<Rightarrow> paxos_session \<Rightarrow> int result" where
  "acceptor_reject hdr s =
     paxos_send_to_proposer (header_message (hdr\<lparr>ph_opcode := OP_REJECT\<rparr>)) s"

subsection \<open>paxos\_request.c\<close>

definition paxos_retrieve :: "iref \<Rightarrow> paxos_session \<Rightarrow> int result" where
  "paxos_retrieve i s = do {
     inst \<leftarrow> iheap s i;
     let hdr = header_init s OP_RETRIEVE (ph_inum (pi_hdr inst));
     let py = paxos_payload_init 2 @ paxos_header_pack hdr @ paxos_payload_begin_array 2
              @ paxos_paxid_pack (self_id s) @ paxos_value_pack (pi_val inst);
     found \<leftarrow> acceptor_find (paxid_of s) (alist s) (pid (pv_reqid (pi_val inst)));
     (case found of
        None \<Rightarrow> paxos_broadcast py s
      | Some a \<Rightarrow> do {
          acc \<leftarrow> aheap s a;
          if pa_peer acc = None then paxos_broadcast py s else paxos_send a py s })
   }"

definition paxos_resend :: "aref option \<Rightarrow> paxos_header \<Rightarrow> paxos_request \<Rightarrow> paxos_session \<Rightarrow> int result" where
  "paxos_resend acc hdr req s = do {
     let hdr = hdr\<lparr>ph_opcode := OP_RESEND\<rparr>;
     let py = paxos_payload_init 2 @ paxos_header_pack hdr @ paxos_request_pack req;
     a \<leftarrow> acc;
     paxos_send a py s
   }"

definition paxos_ack_retrieve :: "paxos_header \<Rightarrow> mobj option \<Rightarrow> paxos_session \<Rightarrow> int result" where
  "paxos_ack_retrieve hdr o1 s = do {
     o1 \<leftarrow> o1;
     p \<leftarrow> array_of_size 2 o1;
     paxid \<leftarrow> paxos_paxid_unpack (p ! 0);
     val \<leftarrow> paxos_value_unpack (p ! 1);
     assert (request_needs_cached (pv_dkind val));
     req \<leftarrow> request_find reqid_of (rcache s) (pv_reqid val);
     (case req of
        Some r \<Rightarrow> do {
          acc \<leftarrow> acceptor_find (paxid_of s) (alist s) paxid;
          paxos_resend acc hdr r s }
      | None \<Rightarrow> Some (0, s))
   }"

subsection \<open>paxos\_retry.c\<close>

definition acceptor_retry :: "paxid \<Rightarrow> paxos_session \<Rightarrow> int result" where
  "acceptor_retry hole s = paxos_send_to_proposer (header_message (header_init s OP_RETRY hole)) s"

definition proposer_recommit :: "paxos_header \<Rightarrow> iref \<Rightarrow> paxos_session \<Rightarrow> int result" where
  "proposer_recommit hdr i s = do {
     inst \<leftarrow> iheap s i;
     let hdr = hdr\<lparr>ph_opcode := OP_RECOMMIT\<rparr>;
     paxos_broadcast (paxos_payload_init 2 @ paxos_header_pack hdr @ paxos_value_pack (pi_val inst)) s
   }"

definition proposer_ack_retry :: "paxos_header \<Rightarrow> paxos_session \<Rightarrow> int result" where
  "proposer_ack_retry hdr s = do {
     found \<leftarrow> instance_find (inum_of s) (ilist s) (ph_inum hdr);
     i \<leftarrow> found;
     inst \<leftarrow> iheap s i;
     if pi_committed inst then proposer_recommit hdr i s else Some (0, s)
   }"

subsection \<open>paxos\_sync.c\<close>

definition acceptor_last :: "paxos_header \<Rightarrow> paxos_session \<Rightarrow> int result" where
  "acceptor_last hdr s =
     paxos_send_to_proposer
       (paxos_payload_init 2 @ paxos_header_pack (hdr\<lparr>ph_opcode := OP_LAST\<rparr>) @ paxos_paxid_pack (ihole s - 1)) s"

definition acceptor_ack_sync :: "paxos_header \<Rightarrow> paxos_session \<Rightarrow> int result" where
  "acceptor_ack_sync hdr s =
     (if ballot_compare (ph_ballot hdr) (ballot s) = 0 then acceptor_last hdr s else Some (0, s))"

subsection \<open>paxos\_greet.c\<close>

definition paxos_hello :: "aref \<Rightarrow> paxos_session \<Rightarrow> int result" where
  "paxos_hello acc s = paxos_send acc (header_message (header_init s OP_HELLO (self_id s))) s"

subsection \<open>None of them changes the session\<close>

lemmas sends_only_intros = sends_only_refl
lemmas send_effects = paxos_send_effect paxos_peer_send_effect paxos_send_to_proposer_effect
  paxos_broadcast_effect paxos_broadcast_instance_effect

lemma acceptor_accept_effect: "acceptor_accept hdr s = Some (r, s') \<Longrightarrow> sends_only s s'"
  by (auto simp: acceptor_accept_def dest: send_effects)

lemma acceptor_redirect_effect: "acceptor_redirect src hdr s = Some (r, s') \<Longrightarrow> sends_only s s'"
  by (auto simp: acceptor_redirect_def bind_Some_iff dest: send_effects)

lemma acceptor_refuse_effect: "acceptor_refuse src hdr req s = Some (r, s') \<Longrightarrow> sends_only s s'"
  by (auto simp: acceptor_refuse_def bind_Some_iff dest: send_effects)

lemma acceptor_reject_effect: "acceptor_reject hdr s = Some (r, s') \<Longrightarrow> sends_only s s'"
  by (auto simp: acceptor_reject_def dest: send_effects)

lemma paxos_retrieve_effect: "paxos_retrieve i s = Some (r, s') \<Longrightarrow> r = 0 \<and> sends_only s s'"
  by (auto simp: paxos_retrieve_def bind_Some_iff Let_def dest: send_effects split: option.splits if_splits)

lemma paxos_ack_retrieve_effect: "paxos_ack_retrieve hdr o1 s = Some (r, s') \<Longrightarrow> sends_only s s'"
  by (auto simp: paxos_ack_retrieve_def paxos_resend_def bind_Some_iff Let_def
      dest: send_effects split: option.splits if_splits)

lemma acceptor_retry_effect: "acceptor_retry h s = Some (r, s') \<Longrightarrow> sends_only s s' \<and> (proposer s \<noteq> None \<longrightarrow> r = 0)"
  by (auto simp: acceptor_retry_def dest: send_effects)

lemma proposer_ack_retry_effect: "proposer_ack_retry hdr s = Some (r, s') \<Longrightarrow> r = 0 \<and> sends_only s s'"
  by (auto simp: proposer_ack_retry_def proposer_recommit_def bind_Some_iff Let_def
      dest: send_effects split: if_splits)

lemma acceptor_ack_sync_effect: "acceptor_ack_sync hdr s = Some (r, s') \<Longrightarrow> sends_only s s'"
  by (auto simp: acceptor_ack_sync_def acceptor_last_def dest: send_effects split: if_splits)

lemma paxos_hello_effect: "paxos_hello a s = Some (r, s') \<Longrightarrow> r = 0 \<and> sends_only s s'"
  by (auto simp: paxos_hello_def dest: send_effects)

end
