(* ===== verification/Learn.thy ===== *)
theory Learn
  imports Outbound
begin

section \<open>Ending a session, preparing, learning and committing\<close>

text \<open>
  \<open>paxos_end\<close> (paxos.c), \<open>proposer_prepare\<close> (paxos\_proposer.c), \<open>proposer_welcome\<close> (paxos\_greet.c) and
  the commit and learn protocol of paxos\_learn.c.
\<close>

subsection \<open>paxos\_end\<close>

text \<open>
  The session object is freed by \<open>session_destroy\<close> before \<open>state.leave(pax->client_data)\<close> reads its
  field, so the callback gets whatever the freed memory holds.  The session is taken off the list of
  sessions by the caller's view of the program (theory Protocol).
\<close>

definition paxos_end :: "paxos_session \<Rightarrow> int result" where
  "paxos_end s = do {
     s \<leftarrow> session_destroy s;
     Some (1, emit (Leave Freed_data) s)
   }"

subsection \<open>proposer\_prepare\<close>

text \<open>
  While a prepare is pending, parts are deferred; the decree that \<open>proposer_decree_part_with\<close> would
  otherwise make is left undefined here and \<open>prepare_parts_any\<close> below shows that it does not matter.
\<close>

fun prepare_parts :: "(iref \<Rightarrow> paxos_session \<Rightarrow> int result) \<Rightarrow> aref list \<Rightarrow> int \<Rightarrow> paxos_session \<Rightarrow> int result" where
  "prepare_parts decree [] r s = Some (r, s)"
| "prepare_parts decree (acc # accs) r s = do {
     a \<leftarrow> aheap s acc;
     if pa_peer a \<noteq> None \<or> pa_paxid a = self_id s then prepare_parts decree accs r s
     else do {
       (c, s) \<leftarrow> proposer_decree_part_with decree acc (pa_paxid a < self_id s) s;
       prepare_parts decree accs (r OR c) s
     }
   }"

definition prepare_start :: "paxos_session \<Rightarrow> paxos_session" where
  "prepare_start s =
     (let s = s\<lparr>gen_high := gen_high s + 1\<rparr>
      in s\<lparr>prep := Some \<lparr>pp_ballot = PPair (self_id s) (gen_high s), pp_acks = 1,
                        pp_redirects = 0, pp_istart = istart s\<rparr>\<rparr>)"

definition prepare_broadcast :: "paxos_session \<Rightarrow> int result" where
  "prepare_broadcast s = do {
     p \<leftarrow> prep s;
     paxos_broadcast (header_message
       \<lparr>ph_session = session_id s, ph_ballot = PPair (pid (pp_ballot p)) (gen (pp_ballot p)),
        ph_opcode = OP_PREPARE, ph_inum = ihole s\<rparr>) s
   }"

definition proposer_prepare :: "aref option \<Rightarrow> paxos_session \<Rightarrow> int result" where
  "proposer_prepare old_proposer s = do {
     assert (prep s = None);
     if live_count s < majority s then paxos_end s
     else do {
       let s = prepare_start s;
       (r, s) \<leftarrow> (if old_proposer \<noteq> None then prepare_parts (\<lambda>_ _. None) (alist s) 0 s else Some (0, s));
       (c, s) \<leftarrow> prepare_broadcast s;
       Some (r OR c, s)
     }
   }"

subsection \<open>proposer\_welcome\<close>

definition proposer_welcome :: "aref \<Rightarrow> paxos_session \<Rightarrow> int result" where
  "proposer_welcome a s = do {
     acc \<leftarrow> aheap s a;
     let (k, s) = continuation_new Continue_welcome (pa_paxid acc) s;
     let (r, s) = state_connect (pa_desc acc) k s;
     Some (r, s)
   }"

subsection \<open>paxos\_learn\<close>

definition learn_chat :: "paxos_request option \<Rightarrow> paxos_session \<Rightarrow> int result" where
  "learn_chat req s = do {
     rq \<leftarrow> req;
     found \<leftarrow> acceptor_find (paxid_of s) (alist s) (pid (pv_reqid (pr_val rq)));
     a \<leftarrow> found;
     acc \<leftarrow> aheap s a;
     Some (0, emit (Learn_chat (pr_data rq) (pa_desc acc) (client_data s)) s)
   }"

definition join_acceptor :: "paxid \<Rightarrow> paxos_session \<Rightarrow> (aref \<times> paxos_session) option" where
  "join_acceptor inum s = do {
     found \<leftarrow> acceptor_find (paxid_of s) (adefer s) inum;
     Some (case found of
         Some a \<Rightarrow> (a, s\<lparr>adefer := remove1 a (adefer s), live_count := live_count s + 1\<rparr>)
       | None \<Rightarrow> alloc_acceptor (zero_acceptor\<lparr>pa_paxid := inum\<rparr>) s)
   }"

definition alist_insert :: "aref \<Rightarrow> paxos_session \<Rightarrow> paxos_session option" where
  "alist_insert a s = do {
     (xs, _) \<leftarrow> acceptor_insert (paxid_of s) (alist s) a;
     Some (s\<lparr>alist := xs\<rparr>)
   }"

definition learn_join :: "paxid \<Rightarrow> paxos_request option \<Rightarrow> paxos_session \<Rightarrow> int result" where
  "learn_join inum req s = do {
     (a, s) \<leftarrow> join_acceptor inum s;
     s \<leftarrow> alist_insert a s;
     rq \<leftarrow> req;
     s \<leftarrow> upd_acceptor a (\<lambda>acc. acc\<lparr>pa_desc := pr_data rq\<rparr>) s;
     p \<leftarrow> is_proposer s;
     (_, s) \<leftarrow> (if p then proposer_welcome a s else Some (0, s));
     acc \<leftarrow> aheap s a;
     Some (0, emit (Learn_join (pr_data rq) (pa_desc acc) (client_data s)) s)
   }"

text \<open>Taking the acceptor off the list, and finding the next proposer when it was the proposer.\<close>

definition part_unlink :: "aref \<Rightarrow> paxos_session \<Rightarrow> paxos_session option" where
  "part_unlink a s = do {
     acc \<leftarrow> aheap s a;
     assert (a \<in> set (alist s));
     let s = s\<lparr>alist := remove1 a (alist s)\<rparr>;
     Some (if pa_peer acc \<noteq> None then s\<lparr>live_count := live_count s - 1\<rparr> else s)
   }"

definition part_reelect :: "aref \<Rightarrow> paxos_session \<Rightarrow> int result" where
  "part_reelect a s = do {
     acc \<leftarrow> aheap s a;
     pr \<leftarrow> proposer s;
     pacc \<leftarrow> aheap s pr;
     if pa_paxid acc = pa_paxid pacc then do {
       s \<leftarrow> reset_proposer s;
       p \<leftarrow> is_proposer s;
       if p then proposer_prepare (Some a) s else Some (0, s) }
     else Some (0, s)
   }"

definition learn_part :: "paxid \<Rightarrow> paxos_session \<Rightarrow> int result" where
  "learn_part target s = do {
     found \<leftarrow> acceptor_find (paxid_of s) (alist s) target;
     (case found of
        None \<Rightarrow> Some (0, s)
      | Some a \<Rightarrow> do {
          acc \<leftarrow> aheap s a;
          let s = emit (Learn_part (pa_desc acc) (pa_desc acc) (client_data s)) s;
          if pa_paxid acc = self_id s then paxos_end s
          else do {
            s \<leftarrow> part_unlink a s;
            (r, s) \<leftarrow> part_reelect a s;
            s \<leftarrow> acceptor_destroy a s;
            Some (r, s)
          } })
   }"

definition paxos_learn :: "iref \<Rightarrow> paxos_request option \<Rightarrow> paxos_session \<Rightarrow> int result" where
  "paxos_learn i req s = do {
     s \<leftarrow> upd_instance i (\<lambda>x. x\<lparr>pi_learned := True\<rparr>) s;
     inst \<leftarrow> iheap s i;
     (case pv_dkind (pi_val inst) of
        DEC_NULL \<Rightarrow> Some (0, s)
      | DEC_CHAT \<Rightarrow> learn_chat req s
      | DEC_JOIN \<Rightarrow> learn_join (ph_inum (pi_hdr inst)) req s
      | DEC_PART \<Rightarrow> learn_part (pv_extra (pi_val inst)) s
      | DEC_KILL \<Rightarrow> learn_part (pv_extra (pi_val inst)) s
      | DEC_unknown _ \<Rightarrow> Some (0, s))
   }"

subsection \<open>paxos\_commit\<close>

text \<open>
  The learn loop: \<open>it\<close> is the iterator (\<open>None\<close> for the list head), \<open>ihole\<close> counts along.
\<close>

definition learn_request :: "paxos_instance \<Rightarrow> paxos_session \<Rightarrow> paxos_request option option" where
  "learn_request inst s =
     (if request_needs_cached (pv_dkind (pi_val inst)) then do {
        req \<leftarrow> request_find reqid_of (rcache s) (pv_reqid (pi_val inst));
        assert (req \<noteq> None);
        Some req }
      else Some None)"

partial_function (option) learn_loop :: "iref option \<Rightarrow> paxos_session \<Rightarrow> int result" where
  [code]: "learn_loop it s = (case it of
     None \<Rightarrow> Some (0, s\<lparr>istart := ilist_last s\<rparr>)
   | Some i \<Rightarrow> do {
       inst \<leftarrow> iheap s i;
       if ph_inum (pi_hdr inst) \<noteq> ihole s then do {
         p \<leftarrow> ilist_prev s i;
         Some (0, s\<lparr>istart := p\<rparr>) }
       else if \<not> pi_committed inst \<or> \<not> pi_cached inst then Some (0, s\<lparr>istart := Some i\<rparr>)
       else do {
         assert (\<not> pi_learned inst);
         req \<leftarrow> learn_request inst s;
         (r, s) \<leftarrow> paxos_learn i req s;
         if r \<noteq> 0 then Some (r, s)
         else do {
           nx \<leftarrow> ilist_next s i;
           learn_loop nx (s\<lparr>ihole := ihole s + 1\<rparr>)
         }
       }
     })"

definition commit_cached :: "iref \<Rightarrow> paxos_session \<Rightarrow> int result" where
  "commit_cached i s = do {
     s \<leftarrow> upd_instance i (\<lambda>x. x\<lparr>pi_cached := True\<rparr>) s;
     inst \<leftarrow> iheap s i;
     assert (ph_inum (pi_hdr inst) \<ge> ihole s);
     if ph_inum (pi_hdr inst) \<noteq> ihole s then do {
       p \<leftarrow> is_proposer s;
       if p then Some (0, s)
       else do {
         st \<leftarrow> istart s;
         x \<leftarrow> iheap s st;
         if ph_inum (pi_hdr x) = ihole s \<and> pi_committed x then do {
           assert (\<not> pi_cached x);
           Some (0, s) }
         else acceptor_retry (ihole s) s
       }
     }
     else do {
       st \<leftarrow> istart s;
       x \<leftarrow> iheap s st;
       s \<leftarrow> (if ph_inum (pi_hdr x) \<noteq> ihole s then do {
               nx \<leftarrow> ilist_next s st;
               Some (s\<lparr>istart := nx\<rparr>) }
             else Some s);
       st \<leftarrow> istart s;
       x \<leftarrow> iheap s st;
       assert (ph_inum (pi_hdr x) = ihole s);
       learn_loop (Some st) s
     }
   }"

definition paxos_commit :: "iref \<Rightarrow> paxos_session \<Rightarrow> int result" where
  "paxos_commit i s = do {
     s \<leftarrow> upd_instance i (\<lambda>x. x\<lparr>pi_committed := True\<rparr>) s;
     inst \<leftarrow> iheap s i;
     if request_needs_cached (pv_dkind (pi_val inst)) then do {
       req \<leftarrow> request_find reqid_of (rcache s) (pv_reqid (pi_val inst));
       if req = None then paxos_retrieve i s else commit_cached i s }
     else commit_cached i s
   }"

end
