(* ===== verification/Learn_Facts.thy ===== *)
theory Learn_Facts
  imports Learn
begin

section \<open>What learning leaves alone, and the learn loop\<close>

subsection \<open>The frame of a learn\<close>

text \<open>
  Learning a decree may change the acceptor lists, the proposer and the pending prepare, and may
  defer new instances; the log, its hole and its allocated instances stay as they are.
\<close>

text \<open>The chat messages delivered to the client, in order.\<close>

fun chat_of :: "effect \<Rightarrow> bytes option" where
  "chat_of (Learn_chat d _ _) = Some d"
| "chat_of _ = None"

definition chat_log :: "effect list \<Rightarrow> bytes list" where
  "chat_log es = List.map_filter chat_of es"

lemma chat_log_simps [simp]:
  "chat_log [] = []"
  "chat_log (es @ fs) = chat_log es @ chat_log fs"
  "chat_log [e] = (case chat_of e of None \<Rightarrow> [] | Some d \<Rightarrow> [d])"
  by (simp_all add: chat_log_def List.map_filter_def split: option.splits)

lemma chat_log_sends [simp]: "chat_log (map (\<lambda>(p, m). Send p m) ms) = []"
  by (induction ms) (auto simp: chat_log_def List.map_filter_def)

lemma chat_log_destroys [simp]: "chat_log (map Peer_destroy ps) = []"
  by (induction ps) (auto simp: chat_log_def List.map_filter_def)

text \<open>Deferred instances are added at the end, and they are newly allocated.\<close>

definition idefer_ext :: "nat \<Rightarrow> nat \<Rightarrow> iref list \<Rightarrow> iref list \<Rightarrow> bool" where
  "idefer_ext b b' xs ys \<longleftrightarrow> (\<exists>js. ys = xs @ js \<and> distinct js \<and> set js \<subseteq> {b..<b'})"

lemma idefer_ext_refl [simp]: "idefer_ext b b' xs xs"
  by (simp add: idefer_ext_def)

lemma idefer_ext_snoc [simp]: "idefer_ext b (Suc b) xs (xs @ [b])"
  by (simp add: idefer_ext_def)

lemma idefer_ext_trans:
  assumes "idefer_ext b b' xs ys" "idefer_ext b' b'' ys zs" "b \<le> b'" "b' \<le> b''"
  shows "idefer_ext b b'' xs zs"
proof -
  from assms(1,2) obtain js ks where "ys = xs @ js" "distinct js" "set js \<subseteq> {b..<b'}"
    "zs = ys @ ks" "distinct ks" "set ks \<subseteq> {b'..<b''}" by (auto simp: idefer_ext_def)
  moreover have "set js \<inter> set ks = {}" using calculation by fastforce
  ultimately show ?thesis using assms(3,4)
    unfolding idefer_ext_def by (intro exI [of _ "js @ ks"]) force
qed

definition log_frame :: "paxos_session \<Rightarrow> paxos_session \<Rightarrow> bool" where
  "log_frame s s' \<longleftrightarrow>
     ilist s' = ilist s \<and> ihole s' = ihole s \<and> istart s' = istart s \<and> ibase s' = ibase s \<and>
     rcache s' = rcache s \<and> ballot s' = ballot s \<and> unlinked s' = unlinked s \<and>
     self_id s' = self_id s \<and> session_id s' = session_id s \<and> client_data s' = client_data s \<and>
     sync s' = sync s \<and> sync_id s' = sync_id s \<and> sync_prev s' = sync_prev s \<and>
     connect_ret s' = connect_ret s \<and> ended s' = ended s \<and> chat_log (out s') = chat_log (out s) \<and>
     brk s \<le> brk s' \<and> (\<forall>j<brk s. iheap s' j = iheap s j) \<and>
     idefer_ext (brk s) (brk s') (idefer s) (idefer s')"

lemma log_frame_refl [simp, intro]: "log_frame s s"
  by (simp add: log_frame_def)

lemma log_frame_trans: "log_frame s t \<Longrightarrow> log_frame t u \<Longrightarrow> log_frame s u"
  by (auto simp: log_frame_def intro: idefer_ext_trans)

lemma sends_only_log_frame: "sends_only s s' \<Longrightarrow> log_frame s s'"
  by (auto simp: sends_only_def log_frame_def)

lemma log_frame_emit [simp]: "chat_of e = None \<Longrightarrow> log_frame s (emit e t) \<longleftrightarrow> log_frame s t"
  by (simp add: log_frame_def emit_def)

lemma decree_part_with_deferred:
  assumes "proposer_decree_part_with decree a f s = Some (r, s')" "prep s \<noteq> None"
  shows "r = 0 \<and> log_frame s s' \<and> prep s' = prep s \<and> alist s' = alist s \<and> aheap s' = aheap s"
  using assms by (auto simp: proposer_decree_part_with_def bind_Some_iff alloc_instance_def log_frame_def Let_def)

lemma prepare_parts_frame:
  assumes "prepare_parts decree accs r s = Some (r', s')" "prep s \<noteq> None"
  shows "r' = r \<and> log_frame s s' \<and> prep s' = prep s \<and> alist s' = alist s \<and> aheap s' = aheap s"
  using assms
proof (induction accs arbitrary: r s)
  case (Cons a as)
  then obtain x where x: "aheap s a = Some x" by (auto simp: bind_Some_iff)
  show ?case
  proof (cases "pa_peer x \<noteq> None \<or> pa_paxid x = self_id s")
    case False
    with Cons.prems x obtain c t where
      t: "proposer_decree_part_with decree a (pa_paxid x < self_id s) s = Some (c, t)"
      and rest: "prepare_parts decree as (r OR c) t = Some (r', s')"
      by (auto simp: bind_Some_iff)
    note * = decree_part_with_deferred [OF t Cons.prems(2)]
    with Cons.prems(2) Cons.IH [OF rest] show ?thesis by (auto intro: log_frame_trans)
  qed (use Cons x in simp)
qed simp

text \<open>The decree that a part would make is never taken while the prepare is pending.\<close>

lemma decree_part_with_any:
  "prep s \<noteq> None \<Longrightarrow> proposer_decree_part_with d1 a f s = proposer_decree_part_with d2 a f s"
  by (auto simp: proposer_decree_part_with_def alloc_instance_def Let_def)

lemma prepare_parts_any:
  "prep s \<noteq> None \<Longrightarrow> prepare_parts d1 accs r s = prepare_parts d2 accs r s"
proof (induction accs arbitrary: r s)
  case (Cons a as)
  show ?case
  proof (cases "aheap s a")
    case (Some x)
    have "proposer_decree_part_with d1 a (pa_paxid x < self_id s) s =
      proposer_decree_part_with d2 a (pa_paxid x < self_id s) s"
      using Cons.prems by (rule decree_part_with_any)
    with Cons Some show ?thesis
      by (auto split: bind_splits dest: decree_part_with_deferred)
  qed simp
qed simp

lemma paxos_end_result: "paxos_end s = Some (r, s') \<Longrightarrow> r = 1 \<and> ended s'"
  by (auto simp: paxos_end_def session_destroy_def bind_Some_iff emit_def Let_def)

lemma prepare_start_fields:
  "log_frame s (prepare_start s)" "alist (prepare_start s) = alist s" "aheap (prepare_start s) = aheap s"
  "prep (prepare_start s) = Some \<lparr>pp_ballot = PPair (self_id s) (gen_high s + 1), pp_acks = 1,
     pp_redirects = 0, pp_istart = istart s\<rparr>"
  by (simp_all add: prepare_start_def log_frame_def Let_def)

lemma prepare_broadcast_effect: "prepare_broadcast s = Some (r, s') \<Longrightarrow> r = 0 \<and> sends_only s s'"
  by (auto simp: prepare_broadcast_def bind_Some_iff dest: paxos_broadcast_effect)

lemma proposer_prepare_cases:
  assumes "proposer_prepare old s = Some (r, s')"
  shows "(r = 1 \<and> ended s' \<and> live_count s < majority s) \<or>
    (r = 0 \<and> log_frame s s' \<and> majority s \<le> live_count s \<and> alist s' = alist s \<and> aheap s' = aheap s \<and>
      prep s' = Some \<lparr>pp_ballot = PPair (self_id s) (gen_high s + 1), pp_acks = 1, pp_redirects = 0,
                     pp_istart = istart s\<rparr>)"
proof (cases "live_count s < majority s")
  case True
  with assms show ?thesis by (auto simp: proposer_prepare_def dest: paxos_end_result split: if_splits)
next
  case False
  let ?s = "prepare_start s"
  have np: "prep s = None" using assms by (auto simp: proposer_prepare_def split: if_splits)
  from False np assms obtain r1 t c where
    t: "(if old \<noteq> None then prepare_parts (\<lambda>_ _. None) (alist ?s) 0 ?s else Some (0, ?s)) = Some (r1, t)"
    and b: "prepare_broadcast t = Some (c, s')" "r = r1 OR c"
    by (simp add: proposer_prepare_def bind_Some_iff Let_def split del: if_split) blast
  have 1: "r1 = 0 \<and> log_frame ?s t \<and> prep t = prep ?s \<and> alist t = alist ?s \<and> aheap t = aheap ?s"
    using t prepare_parts_frame [of _ "alist ?s" 0 ?s r1 t] prepare_start_fields(4) [of s] by (auto split: if_splits)
  have 2: "c = 0 \<and> sends_only t s'" using b(1) by (rule prepare_broadcast_effect)
  then have "prep s' = prep t \<and> alist s' = alist t \<and> aheap s' = aheap t" by (auto simp: sends_only_def)
  moreover have "log_frame s s'"
    using prepare_start_fields(1) 1 2 sends_only_log_frame log_frame_trans by blast
  ultimately show ?thesis using 1 2 b(2) False prepare_start_fields [of s] by auto
qed

lemma proposer_welcome_frame:
  assumes "proposer_welcome a s = Some (r, s')"
  shows "log_frame s s' \<and> aheap s' = aheap s \<and> alist s' = alist s \<and> adefer s' = adefer s \<and>
    proposer s' = proposer s \<and> live_count s' = live_count s \<and> prep s' = prep s \<and> idefer s' = idefer s"
  using assms by (auto simp: proposer_welcome_def bind_Some_iff continuation_new_def state_connect_def
      Let_def emit_def log_frame_def)

lemma reset_proposer_walk_frame:
  "reset_proposer_walk its s = Some s' \<Longrightarrow> \<exists>p. s' = s\<lparr>proposer := p\<rparr> \<and> (p = proposer s \<or> p \<in> Some ` set its)"
proof (induction its)
  case Nil
  then show ?case by (intro exI [of _ "proposer s"]) simp
next
  case (Cons a as)
  then obtain x where x: "aheap s a = Some x" by (auto simp: bind_Some_iff)
  show ?case
  proof (cases "pa_paxid x = self_id s \<or> pa_peer x \<noteq> None")
    case True
    with Cons.prems x show ?thesis by auto
  next
    case False
    with Cons.prems x have "reset_proposer_walk as s = Some s'" by auto
    with Cons.IH show ?thesis by auto
  qed
qed

lemma reset_proposer_frame: "reset_proposer s = Some s' \<Longrightarrow> \<exists>p. s' = s\<lparr>proposer := p\<rparr> \<and> (p = proposer s \<or> p \<in> Some ` set (alist s))"
  unfolding reset_proposer_def by (rule reset_proposer_walk_frame)

lemma acceptor_destroy_frame:
  assumes "acceptor_destroy a s = Some s'"
  shows "\<exists>ps. s' = s\<lparr>aheap := (aheap s)(a := None), out := out s @ map Peer_destroy ps\<rparr>"
proof -
  from assms obtain x where x: "aheap s a = Some x"
    by (auto simp: acceptor_destroy_def bind_Some_iff)
  show ?thesis
  proof (cases "pa_peer x")
    case None
    with assms x show ?thesis
      by (intro exI [of _ "[]"]) (auto simp: acceptor_destroy_def paxos_peer_destroy_def)
  next
    case (Some p)
    with assms x show ?thesis
      by (intro exI [of _ "[p]"])
        (auto simp: acceptor_destroy_def paxos_peer_destroy_def emit_def Let_def)
  qed
qed

lemma learn_chat_frame:
  assumes "learn_chat req s = Some (r, s')"
  shows "r = 0 \<and> (\<exists>d c. s' = emit (Learn_chat (pr_data (the req)) d c) s)"
proof -
  from assms obtain a and rq :: paxos_request and acc :: paxos_acceptor where
    "req = Some rq" "r = 0" "s' = emit (Learn_chat (pr_data rq) (pa_desc acc) (client_data s)) s"
    by (auto simp: learn_chat_def bind_Some_iff)
  then show ?thesis by auto
qed

lemma join_acceptor_frame:
  assumes "join_acceptor n s = Some (a, s')"
  shows "log_frame s s'"
proof -
  from assms obtain f where "acceptor_find (paxid_of s) (adefer s) n = Some f"
    by (auto simp: join_acceptor_def bind_Some_iff)
  with assms show ?thesis
    by (cases f) (auto simp: join_acceptor_def alloc_acceptor_def log_frame_def)
qed

lemma alist_insert_frame: "alist_insert a s = Some s' \<Longrightarrow> log_frame s s'"
  by (auto simp: alist_insert_def bind_Some_iff log_frame_def)

lemma upd_acceptor_frame: "upd_acceptor a f s = Some s' \<Longrightarrow> log_frame s s'"
  by (auto simp: upd_acceptor_def bind_Some_iff log_frame_def)

lemma learn_join_frame:
  assumes "learn_join n req s = Some (r, s')"
  shows "r = 0 \<and> log_frame s s'"
proof -
  from assms obtain a t u v p c w and rq :: paxos_request and acc :: paxos_acceptor where
    t: "join_acceptor n s = Some (a, t)" and u: "alist_insert a t = Some u"
    and v: "upd_acceptor a (\<lambda>acc. acc\<lparr>pa_desc := pr_data rq\<rparr>) u = Some v"
    and w: "(if p then proposer_welcome a v else Some (0, v)) = Some (c, w)"
    and r: "r = 0" "emit (Learn_join (pr_data rq) (pa_desc acc) (client_data w)) w = s'"
    by (simp add: learn_join_def bind_Some_iff split del: if_split) blast
  have "log_frame v w" using w by (auto split: if_splits dest: proposer_welcome_frame)
  with join_acceptor_frame [OF t] alist_insert_frame [OF u] upd_acceptor_frame [OF v] r(1)
  show ?thesis unfolding r(2) [symmetric] by (auto intro: log_frame_trans)
qed

lemma part_unlink_frame: "part_unlink a s = Some s' \<Longrightarrow> log_frame s s'"
  by (auto simp: part_unlink_def bind_Some_iff log_frame_def Let_def split: if_splits)

lemma part_reelect_frame:
  assumes "part_reelect a s = Some (r, s')"
  shows "(r = 1 \<and> ended s') \<or> (r = 0 \<and> log_frame s s')"
proof -
  from assms obtain acc pr pacc where h: "aheap s a = Some acc" "proposer s = Some pr" "aheap s pr = Some pacc"
    by (auto simp: part_reelect_def bind_Some_iff)
  show ?thesis
  proof (cases "pa_paxid acc = pa_paxid pacc")
    case True
    with assms h obtain w p where w: "reset_proposer s = Some w"
      and p: "(if p then proposer_prepare (Some a) w else Some (0, w)) = Some (r, s')"
      by (auto simp: part_reelect_def bind_Some_iff)
    have "log_frame s w" using reset_proposer_frame [OF w] by (auto simp: log_frame_def)
    with p show ?thesis
      by (auto split: if_splits dest!: proposer_prepare_cases intro: log_frame_trans)
  qed (use assms h in \<open>auto simp: part_reelect_def\<close>)
qed

lemma learn_part_frame:
  assumes "learn_part n s = Some (r, s')"
  shows "(r = 1 \<and> ended s') \<or> (r = 0 \<and> log_frame s s')"
proof -
  from assms obtain found where found: "acceptor_find (paxid_of s) (alist s) n = Some found"
    by (auto simp: learn_part_def bind_Some_iff)
  show ?thesis
  proof (cases found)
    case None
    with assms found show ?thesis by (simp add: learn_part_def)
  next
    case (Some a)
    with assms found obtain acc where acc: "aheap s a = Some acc"
      by (auto simp: learn_part_def bind_Some_iff)
    let ?e = "emit (Learn_part (pa_desc acc) (pa_desc acc) (client_data s)) s"
    show ?thesis
    proof (cases "pa_paxid acc = self_id ?e")
      case True
      with assms found Some acc have "paxos_end ?e = Some (r, s')"
        by (simp add: learn_part_def Let_def)
      then show ?thesis by (auto dest: paxos_end_result)
    next
      case False
      with assms found Some acc obtain u v where
        u: "part_unlink a ?e = Some u" and v: "part_reelect a u = Some (r, v)" and d: "acceptor_destroy a v = Some s'"
        by (auto simp: learn_part_def Let_def bind_Some_iff)
      have "log_frame v s' \<and> ended s' = ended v"
        using acceptor_destroy_frame [OF d] by (auto simp: log_frame_def chat_log_destroys)
      moreover have "log_frame s u" using part_unlink_frame [OF u] log_frame_trans [of s ?e u] by simp
      ultimately show ?thesis using part_reelect_frame [OF v] by (auto intro: log_frame_trans)
    qed
  qed
qed

text \<open>What one learn adds to the delivered chats.\<close>

definition learned_chat :: "paxos_instance \<Rightarrow> paxos_request option \<Rightarrow> bytes list" where
  "learned_chat inst req = (if pv_dkind (pi_val inst) = DEC_CHAT then [pr_data (the req)] else [])"

lemma paxos_learn_frame:
  assumes "paxos_learn i req s = Some (r, s')" "iheap s i = Some x"
  shows "(r = 1 \<and> ended s') \<or>
    (r = 0 \<and> log_frame (s\<lparr>iheap := (iheap s)(i \<mapsto> x\<lparr>pi_learned := True\<rparr>), out := out s'\<rparr>) s' \<and>
     chat_log (out s') = chat_log (out s) @ learned_chat x req)"
proof -
  let ?s = "s\<lparr>iheap := (iheap s)(i \<mapsto> x\<lparr>pi_learned := True\<rparr>)\<rparr>"
  show ?thesis
  proof (cases "pv_dkind (pi_val x) = DEC_CHAT")
    case True
    with assms have "learn_chat req ?s = Some (r, s')" by (simp add: paxos_learn_def upd_instance_def)
    from learn_chat_frame [OF this] obtain d c where
      r: "r = 0" and s': "s' = emit (Learn_chat (pr_data (the req)) d c) ?s" by blast
    show ?thesis unfolding s' r using True by (simp add: learned_chat_def emit_def)
  next
    case False
    have "(r = 0 \<and> s' = ?s) \<or> (\<exists>n. learn_join n req ?s = Some (r, s')) \<or> (\<exists>n. learn_part n ?s = Some (r, s'))"
      using False assms
      by (cases "pv_dkind (pi_val x)") (simp_all add: paxos_learn_def upd_instance_def, blast+)
    then have "(r = 1 \<and> ended s') \<or> (r = 0 \<and> log_frame ?s s')"
      using learn_join_frame learn_part_frame log_frame_refl by metis
    moreover have "learned_chat x req = []" using False by (simp add: learned_chat_def)
    ultimately show ?thesis by (auto simp: log_frame_def)
  qed
qed

end
