(* ===== verification/Learn_Loop.thy ===== *)
theory Learn_Loop
  imports Learn_Facts
begin

section \<open>The learn loop: termination and result\<close>

text \<open>
  \<open>learn_walk\<close> is the learn loop by structural recursion over the rest of the log; on a well-formed log
  it is the loop, so the loop always ends.  \<open>ready\<close> counts the instances that can be learned: a run of
  consecutive numbers from the hole, each committed and cached.
\<close>

fun learn_walk :: "iref option \<Rightarrow> iref list \<Rightarrow> paxos_session \<Rightarrow> int result" where
  "learn_walk p [] s = Some (0, s\<lparr>istart := ilist_last s\<rparr>)"
| "learn_walk p (i # js) s = do {
     inst \<leftarrow> iheap s i;
     if ph_inum (pi_hdr inst) \<noteq> ihole s then Some (0, s\<lparr>istart := p\<rparr>)
     else if \<not> pi_committed inst \<or> \<not> pi_cached inst then Some (0, s\<lparr>istart := Some i\<rparr>)
     else do {
       assert (\<not> pi_learned inst);
       req \<leftarrow> learn_request inst s;
       (r, s) \<leftarrow> paxos_learn i req s;
       if r \<noteq> 0 then Some (r, s) else learn_walk (Some i) js (s\<lparr>ihole := ihole s + 1\<rparr>)
     }
   }"

text \<open>The log's addresses are allocated and distinct.\<close>

definition log_ok :: "paxos_session \<Rightarrow> bool" where
  "log_ok s \<longleftrightarrow> distinct (ilist s) \<and> (\<forall>i\<in>set (ilist s). i < brk s \<and> iheap s i \<noteq> None)"

definition opt_hd :: "'a list \<Rightarrow> 'a option" where
  "opt_hd xs = (case xs of [] \<Rightarrow> None | x # _ \<Rightarrow> Some x)"
definition opt_last :: "'a list \<Rightarrow> 'a option" where
  "opt_last xs = (if xs = [] then None else Some (last xs))"

lemma opt_hd_simps [simp]: "opt_hd [] = None" "opt_hd (x # xs) = Some x"
  by (simp_all add: opt_hd_def)
lemma opt_last_simps [simp]: "opt_last [] = None" "opt_last (xs @ [x]) = Some x"
  by (simp_all add: opt_last_def)

lemma ilist_next_mid:
  "ilist s = xs @ i # ys \<Longrightarrow> distinct (ilist s) \<Longrightarrow> iheap s i \<noteq> None \<Longrightarrow> ilist_next s i = Some (opt_hd ys)"
  by (cases ys) (simp_all add: ilist_next_def succ_in_mid opt_hd_def)

lemma ilist_prev_mid:
  assumes "ilist s = xs @ i # ys" "distinct (ilist s)" "iheap s i \<noteq> None"
  shows "ilist_prev s i = Some (opt_last xs)"
  using assms pred_in_mid [of xs i ys] by (simp add: ilist_prev_def opt_last_def)

text \<open>One learn keeps the log as it was, but for the learned flag.\<close>

lemma paxos_learn_log:
  assumes "paxos_learn i req s = Some (0, s')" "iheap s i = Some x" "log_ok s" "i \<in> set (ilist s)"
  shows "ilist s' = ilist s" "ihole s' = ihole s" "rcache s' = rcache s" "ended s' = ended s"
    "chat_log (out s') = chat_log (out s) @ learned_chat x req" "log_ok s'" "ilist_last s' = ilist_last s"
    "\<And>j. j \<in> set (ilist s) \<Longrightarrow> iheap s' j = (if j = i then Some (x\<lparr>pi_learned := True\<rparr>) else iheap s j)"
  using paxos_learn_frame [OF assms(1,2)] assms(2-4)
  by (auto simp: log_frame_def log_ok_def ilist_last_def)

text \<open>The loop is the structural recursion, so it ends.\<close>

lemma learn_loop_walk:
  assumes "log_ok s" "ilist s = pre @ suf"
  shows "learn_loop (opt_hd suf) s = learn_walk (opt_last pre) suf s"
  using assms
proof (induction suf arbitrary: pre s)
  case Nil
  then show ?case by (subst learn_loop.simps) simp
next
  case (Cons i js)
  then obtain x where x: "iheap s i = Some x" by (auto simp: log_ok_def)
  have mid: "ilist s = pre @ i # js" "distinct (ilist s)" "iheap s i \<noteq> None"
    using Cons.prems x by (auto simp: log_ok_def)
  show ?case
  proof (cases "ph_inum (pi_hdr x) = ihole s \<and> pi_committed x \<and> pi_cached x \<and> \<not> pi_learned x")
    case False
    with x ilist_prev_mid [OF mid] show ?thesis by (subst learn_loop.simps) auto
  next
    case True
    show ?thesis
    proof (cases "learn_request x s")
      case (Some req)
      show ?thesis
      proof (cases "paxos_learn i req s")
        case (Some rt)
        then obtain r t where t: "paxos_learn i req s = Some (r, t)" by (cases rt) auto
        show ?thesis
        proof (cases "r = 0")
          case True
          with t have "paxos_learn i req s = Some (0, t)" by simp
          note l = paxos_learn_log [OF this x Cons.prems(1)]
          have "learn_loop (opt_hd js) (t\<lparr>ihole := ihole s + 1\<rparr>) = learn_walk (Some i) js (t\<lparr>ihole := ihole s + 1\<rparr>)"
            using Cons.IH [of "t\<lparr>ihole := ihole s + 1\<rparr>" "pre @ [i]"] l mid(1) by (simp add: log_ok_def)
          moreover have "ilist_next t i = Some (opt_hd js)"
            using l mid by (intro ilist_next_mid [of t pre]) auto
          ultimately show ?thesis
            using x t True l mid(1) \<open>learn_request x s = Some req\<close>
              \<open>ph_inum (pi_hdr x) = ihole s \<and> pi_committed x \<and> pi_cached x \<and> \<not> pi_learned x\<close>
            by (subst learn_loop.simps) simp
        qed (use x t True Some \<open>learn_request x s = Some req\<close> in \<open>subst learn_loop.simps; simp\<close>)
      qed (use x True Some in \<open>subst learn_loop.simps; simp\<close>)
    qed (use x True in \<open>subst learn_loop.simps; simp\<close>)
  qed
qed

subsection \<open>The result\<close>

fun ready :: "paxid \<Rightarrow> paxos_instance list \<Rightarrow> nat" where
  "ready h [] = 0"
| "ready h (x # xs) =
     (if ph_inum (pi_hdr x) = h \<and> pi_committed x \<and> pi_cached x then Suc (ready (h + 1) xs) else 0)"

definition insts :: "paxos_session \<Rightarrow> iref list \<Rightarrow> paxos_instance list" where
  "insts s js = map (\<lambda>i. the (iheap s i)) js"

definition chat_data :: "paxos_request list \<Rightarrow> paxos_instance \<Rightarrow> bytes list" where
  "chat_data rc x =
     (if pv_dkind (pi_val x) = DEC_CHAT
      then (case request_find reqid_of rc (pv_reqid (pi_val x)) of Some (Some rq) \<Rightarrow> [pr_data rq] | _ \<Rightarrow> [])
      else [])"

text \<open>Where the loop leaves \<open>istart\<close>: at the unlearned hole, or before it when its instance is missing.\<close>

definition stop_at :: "paxos_session \<Rightarrow> iref list \<Rightarrow> iref list \<Rightarrow> paxid \<Rightarrow> iref option" where
  "stop_at s done rest h =
     (case rest of [] \<Rightarrow> opt_last done
      | i # _ \<Rightarrow> if ph_inum (pi_hdr (the (iheap s i))) \<noteq> h then opt_last done else Some i)"

lemma learn_request_chat:
  "learn_request x s = Some req \<Longrightarrow> learned_chat x req = chat_data (rcache s) x"
  by (auto simp: learn_request_def learned_chat_def chat_data_def request_needs_cached_def bind_Some_iff
      split: if_splits)

lemma ready_le: "ready h xs \<le> length xs"
  by (induction xs arbitrary: h) auto

lemma insts_simps [simp]: "insts s [] = []" "insts s (i # js) = the (iheap s i) # insts s js"
  by (simp_all add: insts_def)

lemma insts_cong: "(\<And>i. i \<in> set js \<Longrightarrow> iheap s i = iheap t i) \<Longrightarrow> insts s js = insts t js"
  by (simp add: insts_def)

text \<open>\<open>learned pre suf s s'\<close>: the first \<open>ready\<close> instances of \<open>suf\<close> have been learned, and only those.\<close>

definition learned :: "iref list \<Rightarrow> iref list \<Rightarrow> paxos_session \<Rightarrow> paxos_session \<Rightarrow> bool" where
  "learned pre suf s s' \<longleftrightarrow>
     (let n = ready (ihole s) (insts s suf) in
      ihole s' = ihole s + of_nat n \<and> ilist s' = ilist s \<and> rcache s' = rcache s \<and>
      (\<forall>j\<in>set (ilist s). iheap s' j =
         (if j \<in> set (take n suf) then map_option (pi_learned_update (\<lambda>_. True)) (iheap s j) else iheap s j)) \<and>
      chat_log (out s') = chat_log (out s) @ concat (map (chat_data (rcache s)) (take n (insts s suf))) \<and>
      istart s' = stop_at s (pre @ take n suf) (drop n suf) (ihole s'))"

lemma learned_stop:
  assumes "ready (ihole s) (insts s suf) = 0"
  shows "learned pre suf s (s\<lparr>istart := stop_at s pre suf (ihole s)\<rparr>)"
  using assms by (simp add: learned_def)

lemma learned_step:
  assumes "learned (pre @ [i]) js (t\<lparr>ihole := ihole s + 1\<rparr>) s'"
    and x: "iheap s i = Some x" "ph_inum (pi_hdr x) = ihole s" "pi_committed x" "pi_cached x"
    and t: "ilist t = ilist s" "rcache t = rcache s" "chat_log (out t) = chat_log (out s) @ chat_data (rcache s) x"
      "\<And>j. j \<in> set (ilist s) \<Longrightarrow> iheap t j = (if j = i then Some (x\<lparr>pi_learned := True\<rparr>) else iheap s j)"
    and d: "ilist s = pre @ i # js" "distinct (ilist s)"
  shows "learned pre (i # js) s s'"
proof -
  have js: "insts (t\<lparr>ihole := h\<rparr>) js = insts s js" for h
    using t(4) d by (auto simp: insts_def)
  have r: "ready (ihole s) (insts s (i # js)) = Suc (ready (ihole s + 1) (insts s js))" using x by simp
  have st: "stop_at (t\<lparr>ihole := h\<rparr>) xs (drop n js) k = stop_at s xs (drop n js) k" for h xs n k
  proof (cases "drop n js")
    case (Cons j ks)
    then have "j \<in> set js" by (metis in_set_dropD list.set_intros(1))
    then have "iheap t j = iheap s j" using t(4) d by auto
    with Cons show ?thesis by (simp add: stop_at_def)
  qed (simp add: stop_at_def)
  have "i \<notin> set (take n js)" for n using d by (auto dest: in_set_takeD)
  then show ?thesis
    using assms(1) x t js st d unfolding learned_def r Let_def by (auto simp: add.assoc)
qed

lemma learn_walk_learned:
  assumes "log_ok s" "ilist s = pre @ suf" "learn_walk (opt_last pre) suf s = Some (r, s')"
  shows "(r = 1 \<and> ended s') \<or> (r = 0 \<and> learned pre suf s s' \<and> log_ok s')"
  using assms
proof (induction suf arbitrary: pre s)
  case Nil
  have "stop_at s pre [] (ihole s) = ilist_last s" using Nil by (simp add: stop_at_def opt_last_def ilist_last_def)
  with learned_stop [of s "[]" pre] Nil show ?case by (auto simp: log_ok_def)
next
  case (Cons i js)
  then obtain x where x: "iheap s i = Some x" by (auto simp: log_ok_def)
  let ?go = "ph_inum (pi_hdr x) = ihole s \<and> pi_committed x \<and> pi_cached x"
  show ?case
  proof (cases ?go)
    case False
    then have "stop_at s pre (i # js) (ihole s) =
      (if ph_inum (pi_hdr x) \<noteq> ihole s then opt_last pre else Some i)" using x by (simp add: stop_at_def)
    with learned_stop [of s "i # js" pre] Cons.prems x False show ?thesis
      by (auto simp: log_ok_def split: if_splits)
  next
    case True
    with Cons.prems(3) x obtain req c t where req: "learn_request x s = Some req"
      and t: "paxos_learn i req s = Some (c, t)"
      and rest: "(if c \<noteq> 0 then Some (c, t) else learn_walk (Some i) js (t\<lparr>ihole := ihole t + 1\<rparr>)) = Some (r, s')"
      by (cases "pi_learned x") (simp_all add: bind_Some_iff split del: if_split, blast)
    show ?thesis
    proof (cases "c = 0")
      case False
      with rest paxos_learn_frame [OF t x] show ?thesis by auto
    next
      case True
      with t have "paxos_learn i req s = Some (0, t)" by simp
      note l = paxos_learn_log [OF this x Cons.prems(1)]
      have i: "i \<in> set (ilist s)" using Cons.prems(2) by simp
      let ?t = "t\<lparr>ihole := ihole s + 1\<rparr>"
      have "learn_walk (opt_last (pre @ [i])) js ?t = Some (r, s')" using rest True l(2) [OF i] by simp
      then have "(r = 1 \<and> ended s') \<or> (r = 0 \<and> learned (pre @ [i]) js ?t s' \<and> log_ok s')"
        using Cons.IH [of ?t "pre @ [i]"] l [OF i] Cons.prems(2) by (simp add: log_ok_def)
      moreover have "learned pre (i # js) s s'" if "learned (pre @ [i]) js ?t s'"
        using Cons.prems(1,2) \<open>?go\<close> l [OF i] learn_request_chat [OF req]
        by (intro learned_step [OF that x]) (simp_all add: log_ok_def)
      ultimately show ?thesis by blast
    qed
  qed
qed

end
