(* ===== verification/Proposer.thy ===== *)
theory Proposer
  imports Learn_Loop
begin

section \<open>The proposer (paxos\_proposer.c)\<close>

text \<open>
  Decreeing, counting votes and committing, and the second half of a prepare: merging the votes that the
  promises report into the log, and decreeing again everything that is not known to be committed.
\<close>

subsection \<open>Commit, decree and votes\<close>

definition proposer_commit :: "iref \<Rightarrow> paxos_session \<Rightarrow> int result" where
  "proposer_commit i s = do {
     s \<leftarrow> upd_instance i (\<lambda>x. x\<lparr>pi_hdr := (pi_hdr x)\<lparr>ph_opcode := OP_COMMIT\<rparr>\<rparr>) s;
     (r, s) \<leftarrow> paxos_broadcast_instance i s;
     if r \<noteq> 0 then Some (r, s) else paxos_commit i s
   }"

definition proposer_decree :: "iref \<Rightarrow> paxos_session \<Rightarrow> int result" where
  "proposer_decree i s = do {
     n \<leftarrow> next_instance s;
     let hdr = header_init s OP_DECREE n;
     s \<leftarrow> upd_instance i (\<lambda>x. instance_init_metadata (x\<lparr>pi_hdr := hdr\<rparr>)) s;
     s \<leftarrow> instance_insert_and_upstart i s;
     (r, s) \<leftarrow> paxos_broadcast_instance i s;
     if r \<noteq> 0 then Some (r, s)
     else do {
       inst \<leftarrow> iheap s i;
       if pi_votes inst \<ge> majority s then proposer_commit i s else Some (0, s)
     }
   }"

definition proposer_decree_part :: "aref \<Rightarrow> bool \<Rightarrow> paxos_session \<Rightarrow> int result" where
  "proposer_decree_part acc force s = proposer_decree_part_with proposer_decree acc force s"

definition proposer_ack_accept :: "paxos_header \<Rightarrow> paxos_session \<Rightarrow> int result" where
  "proposer_ack_accept hdr s = do {
     assert (ballot_compare (ph_ballot hdr) (ballot s) = 0);
     found \<leftarrow> instance_find (inum_of s) (ilist s) (ph_inum hdr);
     i \<leftarrow> found;
     s \<leftarrow> upd_instance i (\<lambda>x. x\<lparr>pi_votes := pi_votes x + 1\<rparr>) s;
     inst \<leftarrow> iheap s i;
     if pi_committed inst then Some (0, s)
     else if pi_votes inst \<ge> majority s then proposer_commit i s
     else Some (0, s)
   }"

subsection \<open>Promises\<close>

text \<open>
  \<open>get_instance_glb\<close>, with the iterator \<open>it\<close> (\<open>None\<close> for the list head); the result \<open>None\<close> is NULL.
\<close>

partial_function (option) glb_walk ::
  "iref option \<Rightarrow> iref option \<Rightarrow> paxid \<Rightarrow> paxos_session \<Rightarrow> iref option option" where
  [code]: "glb_walk prev it inum s = (case it of
     None \<Rightarrow> Some prev
   | Some i \<Rightarrow> do {
       x \<leftarrow> iheap s i;
       if ph_inum (pi_hdr x) > inum then Some prev
       else do { nx \<leftarrow> ilist_next s i; glb_walk it nx inum s } })"

definition get_instance_glb :: "iref option \<Rightarrow> paxid \<Rightarrow> paxos_session \<Rightarrow> iref option option" where
  "get_instance_glb it inum s = glb_walk None it inum s"

text \<open>
  The votes of one promise.  \<open>inst\<close> is the scratch allocation (\<open>None\<close> for NULL) and \<open>it\<close> the
  iterator; \<open>swap\<close> exchanges the two.  The splices are those of a list that \<open>it\<close> is in; behind an
  instance that has left the list they are a fault here, while the C goes on: theory Promise\_Links has the
  same loop over the links.
\<close>

definition swap :: "'a \<times> 'b \<Rightarrow> 'b \<times> 'a" where
  "swap p = (snd p, fst p)"

definition scratch_instance :: "iref option \<Rightarrow> paxos_session \<Rightarrow> iref \<times> paxos_session" where
  "scratch_instance inst s = (case inst of None \<Rightarrow> alloc_instance zero_instance s | Some i \<Rightarrow> (i, s))"

definition merge_vote :: "iref \<Rightarrow> iref \<Rightarrow> paxos_session \<Rightarrow> ((iref option \<times> iref) \<times> paxos_session) option" where
  "merge_vote inst it s = do {
     x \<leftarrow> iheap s inst;
     y \<leftarrow> iheap s it;
     if ph_inum (pi_hdr y) < ph_inum (pi_hdr x) then do {
       s \<leftarrow> ilist_insert_after it inst s;
       let s = (if ph_inum (pi_hdr x) = ihole s then s\<lparr>istart := Some inst\<rparr> else s);
       Some ((None, it), s) }
     else if \<not> pi_committed y \<and> ballot_compare (ph_ballot (pi_hdr x)) (ph_ballot (pi_hdr y)) > 0 then do {
       s \<leftarrow> ilist_insert_after it inst s;
       s \<leftarrow> ilist_remove it s;
       let (inst, it) = swap (inst, it);
       Some ((Some inst, it), s) }
     else Some ((Some inst, it), s)
   }"

definition promise_vote ::
  "mobj \<Rightarrow> iref option \<times> iref option \<Rightarrow> paxos_session \<Rightarrow> ((iref option \<times> iref option) \<times> paxos_session) option" where
  "promise_vote p st s = do {
     let (inst, it) = st;
     let (i, s) = scratch_instance inst s;
     v \<leftarrow> paxos_instance_unpack p;
     s \<leftarrow> upd_instance i (\<lambda>_. v\<lparr>pi_committed := False, pi_cached := False, pi_learned := False\<rparr>) s;
     it \<leftarrow> get_instance_glb it (ph_inum (pi_hdr v)) s;
     it \<leftarrow> it;
     ((inst, it), s) \<leftarrow> merge_vote i it s;
     Some ((inst, Some it), s)
   }"

fun promise_votes ::
  "mobj list \<Rightarrow> iref option \<times> iref option \<Rightarrow> paxos_session \<Rightarrow> paxos_session option" where
  "promise_votes [] st s = Some s"
| "promise_votes (p # ps) st s = do {
     (st, s) \<leftarrow> promise_vote p st s;
     promise_votes ps st s
   }"

text \<open>Decreeing again: null decrees for holes, and every instance not known to be committed.\<close>

definition redecree :: "iref \<Rightarrow> paxos_session \<Rightarrow> int result" where
  "redecree i s = do {
     s \<leftarrow> upd_instance i (\<lambda>x. instance_init_metadata
       (x\<lparr>pi_hdr := header_init s OP_DECREE (ph_inum (pi_hdr x))\<rparr>)) s;
     paxos_broadcast_instance i s
   }"

definition null_decree :: "iref \<Rightarrow> paxid \<Rightarrow> paxos_session \<Rightarrow> (iref \<times> paxos_session) option" where
  "null_decree it inum s = do {
     let s = s\<lparr>req_id := req_id s + 1\<rparr>;
     let (i, s) = alloc_instance (zero_instance\<lparr>
       pi_hdr := zero_header\<lparr>ph_inum := inum\<rparr>,
       pi_val := \<lparr>pv_dkind = DEC_NULL, pv_reqid = PPair (self_id s) (req_id s), pv_extra = 0\<rparr>\<rparr>) s;
     s \<leftarrow> ilist_insert_after it i s;
     Some (i, if inum = ihole s then s\<lparr>istart := Some i\<rparr> else s)
   }"

partial_function (option) redecree_loop :: "iref option \<Rightarrow> paxid \<Rightarrow> paxos_session \<Rightarrow> int result" where
  [code]: "redecree_loop it inum s = do {
     it \<leftarrow> get_instance_glb it inum s;
     i \<leftarrow> it;
     x \<leftarrow> iheap s i;
     if ph_inum (pi_hdr x) < inum then
       (if it = ilist_last s then Some (0, s)
        else do {
          (j, s) \<leftarrow> null_decree i inum s;
          (r, s) \<leftarrow> redecree j s;
          if r \<noteq> 0 then Some (r, s) else redecree_loop it (inum + 1) s })
     else if \<not> pi_committed x then do {
       (r, s) \<leftarrow> redecree i s;
       if r \<noteq> 0 then Some (r, s) else redecree_loop it (inum + 1) s }
     else redecree_loop it (inum + 1) s
   }"

partial_function (option) decree_deferred :: "paxos_session \<Rightarrow> int result" where
  [code]: "decree_deferred s = (case idefer s of
     [] \<Rightarrow> Some (0, s)
   | i # rest \<Rightarrow> do {
       (r, s) \<leftarrow> proposer_decree i (s\<lparr>idefer := rest\<rparr>);
       if r \<noteq> 0 then Some (r, s) else decree_deferred s })"

definition end_prepare :: "paxos_prep \<Rightarrow> paxos_session \<Rightarrow> int result" where
  "end_prepare p s = do {
     let s = s\<lparr>ballot := PPair (pid (pp_ballot p)) (gen (pp_ballot p))\<rparr>;
     (r, s) \<leftarrow> redecree_loop (pp_istart p) (ihole s) s;
     if r \<noteq> 0 then Some (r, s) else decree_deferred (s\<lparr>prep := None\<rparr>)
   }"

definition proposer_ack_promise :: "paxos_header \<Rightarrow> mobj option \<Rightarrow> paxos_session \<Rightarrow> int result" where
  "proposer_ack_promise hdr o1 s = (case prep s of
     None \<Rightarrow> Some (0, s)
   | Some p \<Rightarrow>
       if ballot_compare (pp_ballot p) (ph_ballot hdr) \<noteq> 0 then Some (0, s)
       else do {
         o1 \<leftarrow> o1;
         ps \<leftarrow> array o1;
         s \<leftarrow> promise_votes ps (None, pp_istart p) s;
         let p = p\<lparr>pp_acks := pp_acks p + 1\<rparr>;
         let s = s\<lparr>prep := Some p\<rparr>;
         if pp_acks p < majority s then Some (0, s) else end_prepare p s
       })"

end
