(* ===== verification/Acceptor.thy ===== *)
theory Acceptor
  imports Proposer
begin

section \<open>The acceptor (paxos\_acceptor.c), requests (paxos\_request.c) and retries (paxos\_retry.c)\<close>

subsection \<open>Prepare and promise\<close>

text \<open>
  How many instances a promise reports, and the first of them (\<open>None\<close> when the loop runs off the list,
  where the count is that of the whole list but nothing is packed).
\<close>

fun promise_scan :: "iref list \<Rightarrow> paxid \<Rightarrow> nat \<Rightarrow> paxos_session \<Rightarrow> (nat \<times> iref option) option" where
  "promise_scan [] inum count s = Some (count, None)"
| "promise_scan (i # rest) inum count s = do {
     x \<leftarrow> iheap s i;
     if inum \<ge> ph_inum (pi_hdr x) then Some (Suc count, Some i)
     else promise_scan rest inum (Suc count) s
   }"

fun pack_instances :: "iref list \<Rightarrow> paxos_session \<Rightarrow> paxos_yak option" where
  "pack_instances [] s = Some []"
| "pack_instances (i # rest) s = do {
     x \<leftarrow> iheap s i;
     py \<leftarrow> pack_instances rest s;
     Some (paxos_instance_pack x @ py)
   }"

definition list_from :: "'a option \<Rightarrow> 'a list \<Rightarrow> 'a list" where
  "list_from it xs = (case it of None \<Rightarrow> [] | Some i \<Rightarrow> dropWhile (\<lambda>j. j \<noteq> i) xs)"

definition acceptor_promise :: "paxos_header \<Rightarrow> paxos_session \<Rightarrow> int result" where
  "acceptor_promise hdr s = do {
     let s = s\<lparr>ballot := PPair (pid (ph_ballot hdr)) (gen (ph_ballot hdr)), gen_high := gen (ph_ballot hdr)\<rparr>;
     let hdr = hdr\<lparr>ph_opcode := OP_PROMISE\<rparr>;
     (count, it) \<leftarrow> promise_scan (rev (ilist s)) (ph_inum hdr) 0 s;
     py \<leftarrow> pack_instances (list_from it (ilist s)) s;
     paxos_send_to_proposer
       (paxos_payload_init 2 @ paxos_header_pack hdr @ paxos_payload_begin_array count @ py) s
   }"

definition acceptor_ack_prepare :: "peer option \<Rightarrow> paxos_header \<Rightarrow> paxos_session \<Rightarrow> int result" where
  "acceptor_ack_prepare source hdr s = do {
     redirect \<leftarrow> (if ballot_compare (ph_ballot hdr) (ballot s) \<le> 0 then Some True
       else do { p \<leftarrow> proposer s; acc \<leftarrow> aheap s p; Some (pa_peer acc \<noteq> source) });
     if redirect then acceptor_redirect source hdr s else acceptor_promise hdr s
   }"

subsection \<open>Decree\<close>

text \<open>Whether a decree is to be rejected: a part of somebody we are connected to.\<close>

definition decree_rejected :: "paxos_value \<Rightarrow> paxos_session \<Rightarrow> bool option" where
  "decree_rejected val s =
     (if pv_dkind val = DEC_PART then do {
        found \<leftarrow> acceptor_find (paxid_of s) (alist s) (pv_extra val);
        a \<leftarrow> found;
        acc \<leftarrow> aheap s a;
        Some (pa_peer acc \<noteq> None) }
      else Some False)"

definition decree_new :: "paxos_header \<Rightarrow> paxos_value \<Rightarrow> paxos_session \<Rightarrow> paxos_session option" where
  "decree_new hdr val s = do {
     let (i, s) = alloc_instance (zero_instance\<lparr>pi_hdr := hdr, pi_val := val\<rparr>) s;
     instance_insert_and_upstart i s
   }"

definition decree_found :: "paxos_header \<Rightarrow> paxos_value \<Rightarrow> iref \<Rightarrow> paxos_session \<Rightarrow> int result" where
  "decree_found hdr val i s = do {
     inst \<leftarrow> iheap s i;
     if pi_committed inst then do {
       assert (pv_dkind (pi_val inst) = pv_dkind val);
       assert (pid (pv_reqid (pi_val inst)) = pid (pv_reqid val));
       assert (gen (pv_reqid (pi_val inst)) = gen (pv_reqid val));
       acceptor_accept hdr s }
     else if ballot_compare (ph_ballot hdr) (ph_ballot (pi_hdr inst)) \<ge> 0 then do {
       s \<leftarrow> upd_instance i (\<lambda>x. x\<lparr>pi_hdr := hdr, pi_val := val\<rparr>) s;
       acceptor_accept hdr s }
     else Some (0, s)
   }"

definition acceptor_ack_decree :: "paxos_header \<Rightarrow> mobj option \<Rightarrow> paxos_session \<Rightarrow> int result" where
  "acceptor_ack_decree hdr o1 s =
     (if ballot_compare (ph_ballot hdr) (ballot s) \<noteq> 0 then Some (0, s)
      else do {
        p \<leftarrow> proposer s;
        pacc \<leftarrow> aheap s p;
        assert (pa_paxid pacc = pid (ballot s));
        o1 \<leftarrow> o1;
        val \<leftarrow> paxos_value_unpack o1;
        rejected \<leftarrow> decree_rejected val s;
        if rejected then acceptor_reject hdr s
        else do {
          found \<leftarrow> instance_find (inum_of s) (ilist s) (ph_inum hdr);
          (case found of
             None \<Rightarrow> do { s \<leftarrow> decree_new hdr val s; acceptor_accept hdr s }
           | Some i \<Rightarrow> decree_found hdr val i s) } })"

subsection \<open>Commit\<close>

definition commit_instance :: "paxos_header \<Rightarrow> paxos_session \<Rightarrow> (iref \<times> paxos_session) option" where
  "commit_instance hdr s = do {
     found \<leftarrow> instance_find (inum_of s) (ilist s) (ph_inum hdr);
     (case found of
        Some i \<Rightarrow> Some (i, s)
      | None \<Rightarrow> do {
          let (i, s) = alloc_instance (zero_instance\<lparr>pi_hdr := hdr\<rparr>) s;
          s \<leftarrow> instance_insert_and_upstart i s;
          Some (i, s) })
   }"

definition acceptor_ack_commit :: "paxos_header \<Rightarrow> mobj option \<Rightarrow> paxos_session \<Rightarrow> int result" where
  "acceptor_ack_commit hdr o1 s = do {
     (i, s) \<leftarrow> commit_instance hdr s;
     inst \<leftarrow> iheap s i;
     if pi_committed inst then Some (0, s)
     else do {
       o1 \<leftarrow> o1;
       val \<leftarrow> paxos_value_unpack o1;
       s \<leftarrow> upd_instance i (\<lambda>x. x\<lparr>pi_val := val\<rparr>) s;
       paxos_commit i s }
   }"

subsection \<open>Recommit\<close>

definition recommit_instance :: "paxos_header \<Rightarrow> iref option \<Rightarrow> paxos_session \<Rightarrow> (iref \<times> paxos_session) option" where
  "recommit_instance hdr found s = (case found of
     None \<Rightarrow> do {
       let (i, s) = alloc_instance (zero_instance\<lparr>pi_hdr := hdr\<rparr>) s;
       s \<leftarrow> instance_insert_and_upstart i s;
       Some (i, s) }
   | Some i \<Rightarrow> do {
       s \<leftarrow> upd_instance i (\<lambda>x. x\<lparr>pi_hdr := hdr\<rparr>) s;
       Some (i, s) })"

definition acceptor_ack_recommit :: "paxos_header \<Rightarrow> mobj option \<Rightarrow> paxos_session \<Rightarrow> int result" where
  "acceptor_ack_recommit hdr o1 s = do {
     found \<leftarrow> instance_find (inum_of s) (ilist s) (ph_inum hdr);
     done \<leftarrow> (case found of None \<Rightarrow> Some False | Some i \<Rightarrow> map_option pi_committed (iheap s i));
     if done then Some (0, s)
     else do {
       (i, s) \<leftarrow> recommit_instance hdr found s;
       o1 \<leftarrow> o1;
       val \<leftarrow> paxos_value_unpack o1;
       s \<leftarrow> upd_instance i (\<lambda>x. x\<lparr>pi_val := val\<rparr>) s;
       paxos_commit i s }
   }"

subsection \<open>Requests\<close>

definition cache_request :: "paxos_request \<Rightarrow> paxos_session \<Rightarrow> paxos_session option" where
  "cache_request req s = do {
     (xs, _) \<leftarrow> request_insert reqid_of (rcache s) req;
     Some (s\<lparr>rcache := xs\<rparr>)
   }"

definition proposer_decree_request :: "paxos_request \<Rightarrow> paxos_session \<Rightarrow> int result" where
  "proposer_decree_request req s = do {
     let (i, s) = alloc_instance (zero_instance\<lparr>pi_val := pr_val req\<rparr>) s;
     if prep s \<noteq> None then Some (0, s\<lparr>idefer := idefer s @ [i]\<rparr>)
     else proposer_decree i s
   }"

definition request_message :: "paxos_header \<Rightarrow> paxos_request \<Rightarrow> paxos_yak" where
  "request_message hdr req = paxos_payload_init 2 @ paxos_header_pack hdr @ paxos_request_pack req"

definition send_request :: "paxos_header \<Rightarrow> paxos_request \<Rightarrow> bool \<Rightarrow> paxos_session \<Rightarrow> int result" where
  "send_request hdr req needs_cached s = do {
     isp \<leftarrow> is_proposer s;
     if \<not> isp \<or> needs_cached then
       (if \<not> needs_cached then paxos_send_to_proposer (request_message hdr req) s
        else paxos_broadcast (request_message hdr req) s)
     else Some (0, s)
   }"

definition paxos_request :: "dkind \<Rightarrow> bytes \<Rightarrow> paxos_session \<Rightarrow> int result" where
  "paxos_request dkind msg s = do {
     p \<leftarrow> proposer s;
     pacc \<leftarrow> aheap s p;
     let hdr = header_init s OP_REQUEST (pa_paxid pacc);
     let s = s\<lparr>req_id := req_id s + 1\<rparr>;
     let req = \<lparr>pr_val = \<lparr>pv_dkind = dkind, pv_reqid = PPair (self_id s) (req_id s), pv_extra = 0\<rparr>, pr_data = msg\<rparr>;
     s \<leftarrow> (if request_needs_cached dkind then cache_request req s else Some s);
     (r, s) \<leftarrow> send_request hdr req (request_needs_cached dkind) s;
     if r \<noteq> 0 then Some (r, s)
     else do {
       isp \<leftarrow> is_proposer s;
       if isp then proposer_decree_request req s else Some (0, s) }
   }"

definition proposer_ack_request :: "paxos_header \<Rightarrow> mobj option \<Rightarrow> paxos_session \<Rightarrow> int result" where
  "proposer_ack_request hdr o1 s = do {
     o1 \<leftarrow> o1;
     req \<leftarrow> paxos_request_unpack o1;
     if ph_inum hdr > self_id s then do {
       found \<leftarrow> acceptor_find (paxid_of s) (alist s) (pid (pv_reqid (pr_val req)));
       acc \<leftarrow> found;
       proposer_decree_part acc True s }
     else do {
       s \<leftarrow> (if request_needs_cached (pv_dkind (pr_val req)) then cache_request req s else Some s);
       proposer_decree_request req s }
   }"

definition acceptor_ack_request :: "peer option \<Rightarrow> paxos_header \<Rightarrow> mobj option \<Rightarrow> paxos_session \<Rightarrow> int result" where
  "acceptor_ack_request source hdr o1 s = do {
     o1 \<leftarrow> o1;
     req \<leftarrow> paxos_request_unpack o1;
     s \<leftarrow> cache_request req s;
     if ph_inum hdr = self_id s then acceptor_refuse source hdr req s else Some (0, s)
   }"

definition resend_cache :: "mobj option \<Rightarrow> reqid \<Rightarrow> paxos_session \<Rightarrow> paxos_session option" where
  "resend_cache o1 rid s = do {
     req \<leftarrow> request_find reqid_of (rcache s) rid;
     (case req of
        Some _ \<Rightarrow> Some s
      | None \<Rightarrow> do { o1 \<leftarrow> o1; rq \<leftarrow> paxos_request_unpack o1; cache_request rq s })
   }"

definition paxos_ack_resend :: "paxos_header \<Rightarrow> mobj option \<Rightarrow> paxos_session \<Rightarrow> int result" where
  "paxos_ack_resend hdr o1 s = do {
     found \<leftarrow> instance_find (inum_of s) (ilist s) (ph_inum hdr);
     (case found of
        None \<Rightarrow> Some (0, s)
      | Some i \<Rightarrow> do {
          inst \<leftarrow> iheap s i;
          if pi_cached inst then Some (0, s)
          else do {
            s \<leftarrow> resend_cache o1 (pv_reqid (pi_val inst)) s;
            paxos_commit i s } })
   }"

end
