(* ===== verification/Greet.thy ===== *)
theory Greet
  imports Acceptor
begin

section \<open>Joining a session (paxos\_greet.c)\<close>

text \<open>
  The welcome a proposer sends to a new participant, the session the participant builds from it, and the
  hello by which acceptors make themselves known to one another.  \<open>chan\<close> is the channel the client
  hands to a continuation, \<open>None\<close> when the connection failed.
\<close>

subsection \<open>Welcome\<close>

fun pack_acceptors :: "aref list \<Rightarrow> paxos_session \<Rightarrow> paxos_yak option" where
  "pack_acceptors [] s = Some []"
| "pack_acceptors (a # rest) s = do {
     acc \<leftarrow> aheap s a;
     py \<leftarrow> pack_acceptors rest s;
     Some (paxos_acceptor_pack acc @ py)
   }"

definition welcome_message :: "paxid \<Rightarrow> paxos_session \<Rightarrow> paxos_yak option" where
  "welcome_message paxid s = do {
     as \<leftarrow> pack_acceptors (alist s) s;
     insts \<leftarrow> pack_instances (ilist s) s;
     Some (paxos_payload_init 2 @ paxos_header_pack (header_init s OP_WELCOME paxid)
       @ paxos_payload_begin_array 3
       @ paxos_payload_begin_array 2 @ paxos_uuid_pack (session_id s) @ paxos_paxid_pack (ibase s)
       @ paxos_payload_begin_array (length (alist s)) @ as
       @ paxos_payload_begin_array (length (ilist s)) @ insts)
   }"

definition attach_peer :: "peer option \<Rightarrow> aref \<Rightarrow> paxos_session \<Rightarrow> (peer option \<times> paxos_session) option" where
  "attach_peer chan acc s = do {
     let (p, s) = paxos_peer_init chan s;
     s \<leftarrow> upd_acceptor acc (\<lambda>x. x\<lparr>pa_peer := p\<rparr>) s;
     Some (p, s)
   }"

definition do_continue_welcome :: "peer option \<Rightarrow> aref \<Rightarrow> paxos_continuation \<Rightarrow> paxos_session \<Rightarrow> int result" where
  "do_continue_welcome chan acc k s = do {
     (p, s) \<leftarrow> attach_peer chan acc s;
     if p = None then proposer_decree_part acc False s
     else do {
       let s = s\<lparr>live_count := live_count s + 1\<rparr>;
       a \<leftarrow> aheap s acc;
       py \<leftarrow> welcome_message (pa_paxid a) s;
       paxos_send acc py s }
   }"

subsection \<open>Being welcomed\<close>

fun welcome_acceptors :: "mobj list \<Rightarrow> peer option \<Rightarrow> paxid \<Rightarrow> paxos_session \<Rightarrow> int result" where
  "welcome_acceptors [] source bid s = Some (0, s)"
| "welcome_acceptors (p # ps) source bid s = do {
     acc \<leftarrow> paxos_acceptor_unpack p;
     let (a, s) = alloc_acceptor acc s;
     let s = s\<lparr>alist := alist s @ [a]\<rparr>;
     if pa_paxid acc = bid then do {
       s \<leftarrow> upd_acceptor a (\<lambda>x. x\<lparr>pa_peer := source\<rparr>) (s\<lparr>proposer := Some a\<rparr>);
       welcome_acceptors ps source bid (s\<lparr>live_count := live_count s + 1\<rparr>) }
     else if pa_paxid acc \<noteq> self_id s then do {
       let (k, s) = continuation_new Continue_ack_welcome (pa_paxid acc) s;
       let (r, s) = state_connect (pa_desc acc) k s;
       if r \<noteq> 0 then Some (r, s) else welcome_acceptors ps source bid s }
     else welcome_acceptors ps source bid s
   }"

fun welcome_instances :: "mobj list \<Rightarrow> paxos_session \<Rightarrow> paxos_session option" where
  "welcome_instances [] s = Some s"
| "welcome_instances (p # ps) s = do {
     inst \<leftarrow> paxos_instance_unpack p;
     let (i, s) = alloc_instance inst s;
     welcome_instances ps (s\<lparr>ilist := ilist s @ [i]\<rparr>)
   }"

text \<open>The search for the hole, \<open>prev\<close> being the instance before the rest of the list.\<close>

fun find_hole :: "iref option \<Rightarrow> iref list \<Rightarrow> paxos_session \<Rightarrow> paxos_session option" where
  "find_hole prev [] s = Some (s\<lparr>istart := ilist_last s\<rparr>)"
| "find_hole prev (i # rest) s = do {
     x \<leftarrow> iheap s i;
     if ph_inum (pi_hdr x) \<noteq> ihole s then Some (s\<lparr>istart := prev\<rparr>)
     else if \<not> pi_committed x then Some (s\<lparr>istart := Some i\<rparr>)
     else do {
       s \<leftarrow> upd_instance i (\<lambda>x. x\<lparr>pi_cached := True, pi_learned := True\<rparr>) s;
       find_hole (Some i) rest (s\<lparr>ihole := ihole s + 1\<rparr>) }
   }"

definition welcome_start :: "(bytes \<Rightarrow> int) \<Rightarrow> client_data \<Rightarrow> paxos_header \<Rightarrow> paxos_session" where
  "welcome_start conn enter_data hdr =
     (let s = emit Enter (session_new conn [] Null_data False)
      in s\<lparr>client_data := enter_data, ballot := PPair (pid (ph_ballot hdr)) (gen (ph_ballot hdr)),
           self_id := ph_inum hdr, gen_high := gen (ph_ballot hdr)\<rparr>)"

definition welcome_info :: "mobj \<Rightarrow> paxos_session \<Rightarrow> paxos_session option" where
  "welcome_info o1 s = do {
     p \<leftarrow> array o1;
     u \<leftarrow> elem p 0;
     uuid \<leftarrow> paxos_uuid_unpack u;
     b \<leftarrow> elem p 1;
     base \<leftarrow> positive_integer b;
     let s = s\<lparr>session_id := uuid, ibase := ucast base\<rparr>;
     Some (emit (Add_sync_timer (session_id s)) s)
   }"

definition acceptor_ack_welcome ::
  "(bytes \<Rightarrow> int) \<Rightarrow> client_data \<Rightarrow> peer option \<Rightarrow> paxos_header \<Rightarrow> mobj option \<Rightarrow> int result" where
  "acceptor_ack_welcome conn enter_data source hdr o1 = do {
     let s = welcome_start conn enter_data hdr;
     o1 \<leftarrow> o1;
     arr \<leftarrow> array_of_size 3 o1;
     s \<leftarrow> welcome_info (arr ! 0) s;
     as \<leftarrow> array (arr ! 1);
     (r, s) \<leftarrow> welcome_acceptors as source (pid (ph_ballot hdr)) (s\<lparr>live_count := 1\<rparr>);
     if r \<noteq> 0 then Some (r, s)
     else do {
       insts \<leftarrow> array (arr ! 2);
       s \<leftarrow> welcome_instances insts s;
       s \<leftarrow> find_hole None (ilist s) (s\<lparr>ihole := ibase s\<rparr>);
       Some (0, s) }
   }"

definition do_continue_ack_welcome :: "peer option \<Rightarrow> aref \<Rightarrow> paxos_continuation \<Rightarrow> paxos_session \<Rightarrow> int result" where
  "do_continue_ack_welcome chan acc k s = do {
     (p, s) \<leftarrow> attach_peer chan acc s;
     if p \<noteq> None then paxos_hello acc (s\<lparr>live_count := live_count s + 1\<rparr>) else Some (0, s)
   }"

subsection \<open>Hello\<close>

text \<open>A hello of an acceptor we had no peer for: it may outrank our proposer.\<close>

definition hello_attach :: "peer option \<Rightarrow> aref \<Rightarrow> paxos_session \<Rightarrow> paxos_session option" where
  "hello_attach source a s = do {
     s \<leftarrow> upd_acceptor a (\<lambda>x. x\<lparr>pa_peer := source\<rparr>) s;
     let s = s\<lparr>live_count := live_count s + 1\<rparr>;
     acc \<leftarrow> aheap s a;
     p \<leftarrow> proposer s;
     pacc \<leftarrow> aheap s p;
     if pa_paxid acc < pa_paxid pacc then do {
       isp \<leftarrow> is_proposer s;
       let s = (if isp then s\<lparr>prep := None\<rparr> else s);
       Some (s\<lparr>proposer := Some a\<rparr>) }
     else Some s
   }"

definition hello_switch :: "peer option \<Rightarrow> aref \<Rightarrow> paxos_session \<Rightarrow> paxos_session option" where
  "hello_switch source a s = do {
     acc \<leftarrow> aheap s a;
     upd_acceptor a (\<lambda>x. x\<lparr>pa_peer := source\<rparr>) (paxos_peer_destroy (pa_peer acc) s)
   }"

definition hello_ballot :: "paxos_header \<Rightarrow> paxos_session \<Rightarrow> paxos_session option" where
  "hello_ballot hdr s = do {
     p \<leftarrow> proposer s;
     pacc \<leftarrow> aheap s p;
     Some (if ph_inum hdr = pa_paxid pacc
           then s\<lparr>ballot := PPair (pid (ph_ballot hdr)) (gen (ph_ballot hdr))\<rparr> else s)
   }"

definition hello_defer :: "peer option \<Rightarrow> paxid \<Rightarrow> paxos_session \<Rightarrow> int result" where
  "hello_defer source paxid s = do {
     let (a, s) = alloc_acceptor (zero_acceptor\<lparr>pa_paxid := paxid, pa_peer := source\<rparr>) s;
     (xs, _) \<leftarrow> acceptor_insert (paxid_of s) (adefer s) a;
     Some (0, s\<lparr>adefer := xs\<rparr>)
   }"

definition paxos_ack_hello :: "peer option \<Rightarrow> paxos_header \<Rightarrow> paxos_session \<Rightarrow> int result" where
  "paxos_ack_hello source hdr s = do {
     isp \<leftarrow> is_proposer s;
     if isp \<and> prep s = None \<and> ph_inum hdr < self_id s then Some (0, s)
     else do {
       found \<leftarrow> acceptor_find (paxid_of s) (alist s) (ph_inum hdr);
       (case found of
          None \<Rightarrow> hello_defer source (ph_inum hdr) s
        | Some a \<Rightarrow> do {
            acc \<leftarrow> aheap s a;
            s \<leftarrow> (if pa_peer acc = None then hello_attach source a s
                 else if ph_inum hdr < self_id s then hello_switch source a s
                 else Some s);
            s \<leftarrow> hello_ballot hdr s;
            Some (0, s) }) }
   }"

end
