(* ===== verification/Sync.thy ===== *)
theory Sync
  imports Acceptor
begin

section \<open>Log synchronization (paxos\_sync.c)\<close>

text \<open>
  The proposer asks every acceptor for its last contiguous learn, takes the minimum, and has everybody
  drop the log before it.
\<close>

definition SYNC_SKIP_THRESH :: u32 where "SYNC_SKIP_THRESH = 30"

definition start_sync :: "paxos_session \<Rightarrow> int result" where
  "start_sync s = do {
     let s = s\<lparr>sync := Some \<lparr>ps_total = list_count (alist s), ps_acks = 1, ps_skips = 0, ps_last = 0\<rparr>,
               sync_id := sync_id s + 1\<rparr>;
     paxos_broadcast (header_message (header_init s OP_SYNC (sync_id s))) s
   }"

definition proposer_sync :: "paxos_session \<Rightarrow> int result" where
  "proposer_sync s =
     (if prep s \<noteq> None then Some (1, s)
      else if live_count s \<noteq> list_count (alist s) then Some (1, s)
      else if ihole s - 1 = sync_prev s then Some (0, s)
      else (case sync s of
          Some y \<Rightarrow>
            (let y = y\<lparr>ps_skips := ps_skips y + 1\<rparr>; s = s\<lparr>sync := Some y\<rparr>
             in if ps_skips y < SYNC_SKIP_THRESH then Some (1, s) else start_sync s)
        | None \<Rightarrow> start_sync s))"

text \<open>\<open>paxos_sync\<close> on the session its timer names; it always returns TRUE, which keeps the timer.\<close>

definition sync_session :: "paxos_session \<Rightarrow> int result" where
  "sync_session s = do {
     isp \<leftarrow> is_proposer s;
     (_, s) \<leftarrow> (if isp then proposer_sync s else Some (0, s));
     Some (1, s)
   }"

definition drop_request :: "reqid \<Rightarrow> paxos_session \<Rightarrow> paxos_session option" where
  "drop_request rid s = do {
     req \<leftarrow> request_find reqid_of (rcache s) rid;
     Some (case req of None \<Rightarrow> s | Some rq \<Rightarrow> s\<lparr>rcache := remove1 rq (rcache s)\<rparr>)
   }"

text \<open>The loop always looks at the first instance of the list; \<open>is\<close> is the list it has not dropped.\<close>

fun truncate_walk :: "iref list \<Rightarrow> paxid \<Rightarrow> paxos_session \<Rightarrow> paxos_session option" where
  "truncate_walk [] inum s = Some s"
| "truncate_walk (i # rest) inum s = do {
     x \<leftarrow> iheap s i;
     if ph_inum (pi_hdr x) \<ge> inum then Some s
     else do {
       s \<leftarrow> drop_request (pv_reqid (pi_val x)) s;
       s \<leftarrow> ilist_remove i s;
       s \<leftarrow> instance_destroy i s;
       truncate_walk rest inum s }
   }"

definition ilist_truncate_prefix :: "paxid \<Rightarrow> paxos_session \<Rightarrow> paxos_session option" where
  "ilist_truncate_prefix inum s = truncate_walk (ilist s) inum s"

text \<open>Recording the sync point, which becomes the new \<open>ibase\<close>.\<close>

definition truncate_start :: "paxos_sync \<Rightarrow> paxos_session \<Rightarrow> paxos_session option" where
  "truncate_start y s = do {
     let last = (if ihole s - 1 < ps_last y then ihole s - 1 else ps_last y);
     let s = s\<lparr>sync := Some (y\<lparr>ps_last := last\<rparr>), sync_prev := last\<rparr>;
     assert (last \<ge> ibase s);
     Some (s\<lparr>ibase := last\<rparr>)
   }"

definition truncate_message :: "paxos_header \<Rightarrow> paxid \<Rightarrow> paxos_yak" where
  "truncate_message hdr base =
     paxos_payload_init 2 @ paxos_header_pack (hdr\<lparr>ph_opcode := OP_TRUNCATE\<rparr>) @ paxos_paxid_pack base"

definition proposer_truncate :: "paxos_header \<Rightarrow> paxos_session \<Rightarrow> int result" where
  "proposer_truncate hdr s = do {
     y \<leftarrow> sync s;
     s \<leftarrow> truncate_start y s;
     (r, s) \<leftarrow> paxos_broadcast (truncate_message hdr (ibase s)) s;
     if r \<noteq> 0 then Some (r, s)
     else do {
       s \<leftarrow> ilist_truncate_prefix (ibase s) s;
       Some (0, s\<lparr>sync := None\<rparr>) }
   }"

definition proposer_ack_last :: "paxos_header \<Rightarrow> mobj option \<Rightarrow> paxos_session \<Rightarrow> int result" where
  "proposer_ack_last hdr o1 s =
     (if ph_inum hdr \<noteq> sync_id s then Some (0, s)
      else do {
        o1 \<leftarrow> o1;
        last \<leftarrow> paxos_paxid_unpack o1;
        y \<leftarrow> sync s;
        let y = (if last < ps_last y \<or> ps_last y = 0 then y\<lparr>ps_last := last\<rparr> else y);
        let y = y\<lparr>ps_acks := ps_acks y + 1\<rparr>;
        let s = s\<lparr>sync := Some y\<rparr>;
        if ps_acks y = ps_total y then proposer_truncate hdr s else Some (0, s) })"

definition acceptor_ack_truncate :: "paxos_header \<Rightarrow> mobj option \<Rightarrow> paxos_session \<Rightarrow> int result" where
  "acceptor_ack_truncate hdr o1 s = do {
     o1 \<leftarrow> o1;
     inum \<leftarrow> paxos_paxid_unpack o1;
     s \<leftarrow> ilist_truncate_prefix inum (s\<lparr>ibase := inum\<rparr>);
     Some (0, s)
   }"

end
