(* ===== verification/Reconnect.thy ===== *)
theory Reconnect
  imports Greet Sync
begin

section \<open>Redirects, refusals and rejects (paxos\_reconnect.c)\<close>

definition DEATH_ADJUSTED :: "paxos_session \<Rightarrow> u32 \<Rightarrow> u32" where
  "DEATH_ADJUSTED s n = n + (list_count (alist s) - live_count s)"

text \<open>\<open>instance_container_destroy(&pax->idefer)\<close>: free the deferred instances and empty the list.\<close>

definition idefer_destroy :: "paxos_session \<Rightarrow> paxos_session option" where
  "idefer_destroy s = do {
     s \<leftarrow> instance_container_destroy (idefer s) s;
     Some (s\<lparr>idefer := []\<rparr>)
   }"

text \<open>Connect again to an acceptor that we must have lost, with \<open>data\<close> bound to the continuation.\<close>

definition continuation_bind :: "kref \<Rightarrow> pk_data \<Rightarrow> paxos_session \<Rightarrow> paxos_session" where
  "continuation_bind k data s =
     s\<lparr>clist := map (\<lambda>(k', c). (k', if k' = k then c\<lparr>pk_data := data\<rparr> else c)) (clist s)\<rparr>"

definition reconnect :: "continuation_func \<Rightarrow> pk_data \<Rightarrow> paxos_acceptor \<Rightarrow> paxos_session \<Rightarrow> int result" where
  "reconnect func data acc s =
     (let (k, s) = continuation_new func (pa_paxid acc) s
      in Some (state_connect (pa_desc acc) k (continuation_bind k data s)))"

definition lost_acceptor :: "paxid \<Rightarrow> paxos_session \<Rightarrow> paxos_acceptor option" where
  "lost_acceptor paxid s = do {
     found \<leftarrow> acceptor_find (paxid_of s) (alist s) paxid;
     a \<leftarrow> found;
     acc \<leftarrow> aheap s a;
     assert (pa_peer acc = None);
     Some acc
   }"

subsection \<open>Redirect\<close>

definition proposer_ack_redirect :: "paxos_header \<Rightarrow> mobj option \<Rightarrow> paxos_session \<Rightarrow> int result" where
  "proposer_ack_redirect hdr o1 s = do {
     assert (ph_inum hdr < self_id s);
     (case prep s of
        None \<Rightarrow> Some (0, s)
      | Some p \<Rightarrow> do {
          o1 \<leftarrow> o1;
          orig_hdr \<leftarrow> paxos_header_unpack o1;
          if ballot_compare (ph_ballot orig_hdr) (pp_ballot p) \<noteq> 0 then Some (0, s)
          else do {
            let p = p\<lparr>pp_redirects := pp_redirects p + 1\<rparr>;
            let s = s\<lparr>prep := Some p\<rparr>;
            if DEATH_ADJUSTED s (pp_redirects p) \<ge> majority s then do {
              acc \<leftarrow> lost_acceptor (ph_inum hdr) s;
              reconnect Continue_ack_redirect PK_zero acc s }
            else if pp_acks p < majority s \<and> DEATH_ADJUSTED s (pp_redirects p) < majority s
              \<and> pp_acks p + pp_redirects p = live_count s then
              proposer_prepare None (s\<lparr>prep := None\<rparr>)
            else Some (0, s) } })
   }"

text \<open>Once connected: a higher-ranked acceptor becomes the proposer, and our own prepare is given up.\<close>

definition redirect_connected :: "aref \<Rightarrow> paxos_session \<Rightarrow> int result" where
  "redirect_connected a s = do {
     let s = s\<lparr>live_count := live_count s + 1\<rparr>;
     acc \<leftarrow> aheap s a;
     pr \<leftarrow> proposer s;
     pacc \<leftarrow> aheap s pr;
     s \<leftarrow> idefer_destroy (if pa_paxid acc < pa_paxid pacc then s\<lparr>proposer := Some a\<rparr> else s);
     paxos_hello a s
   }"

definition do_continue_ack_redirect :: "peer option \<Rightarrow> aref \<Rightarrow> paxos_continuation \<Rightarrow> paxos_session \<Rightarrow> int result" where
  "do_continue_ack_redirect chan a k s = do {
     acc \<leftarrow> aheap s a;
     assert (pa_paxid acc < self_id s);
     if pa_peer acc \<noteq> None then do {
       isp \<leftarrow> is_proposer s;
       assert (\<not> isp);
       Some (0, s) }
     else do {
       (p, s) \<leftarrow> attach_peer chan a (s\<lparr>prep := None\<rparr>);
       if p \<noteq> None then redirect_connected a s else proposer_prepare None s }
   }"

subsection \<open>Refuse\<close>

definition acceptor_ack_refuse :: "paxos_header \<Rightarrow> mobj option \<Rightarrow> paxos_session \<Rightarrow> int result" where
  "acceptor_ack_refuse hdr o1 s = do {
     pr \<leftarrow> proposer s;
     pacc \<leftarrow> aheap s pr;
     if pa_paxid pacc \<le> ph_inum hdr then Some (0, s)
     else do {
       acc \<leftarrow> lost_acceptor (ph_inum hdr) s;
       o1 \<leftarrow> o1;
       ps \<leftarrow> array o1;
       p \<leftarrow> elem ps 1;
       val \<leftarrow> paxos_value_unpack p;
       reconnect Continue_ack_refuse (PK_req \<lparr>pr_val = val, pr_data = []\<rparr>) acc s }
   }"

fun pk_req :: "pk_data \<Rightarrow> paxos_request option" where
  "pk_req (PK_req r) = Some r"
| "pk_req PK_zero = Some \<lparr>pr_val = zero_value, pr_data = []\<rparr>"
| "pk_req (PK_inum _) = None"

fun pk_inum :: "pk_data \<Rightarrow> paxid option" where
  "pk_inum (PK_inum n) = Some n"
| "pk_inum PK_zero = Some 0"
| "pk_inum (PK_req _) = None"

text \<open>Following a refusal to a higher-ranked acceptor: make it the proposer and resend the request.\<close>

definition refuse_resend :: "aref \<Rightarrow> paxos_continuation \<Rightarrow> paxos_session \<Rightarrow> int result" where
  "refuse_resend a k s = do {
     let s = s\<lparr>proposer := Some a\<rparr>;
     acc \<leftarrow> aheap s a;
     let hdr = header_init s OP_REQUEST (pa_paxid acc);
     kreq \<leftarrow> pk_req (pk_data k);
     found \<leftarrow> request_find reqid_of (rcache s) (pv_reqid (pr_val kreq));
     let req = (case found of None \<Rightarrow> kreq | Some rq \<Rightarrow> rq);
     paxos_send_to_proposer (request_message hdr req) s
   }"

definition refuse_connected :: "aref \<Rightarrow> paxos_continuation \<Rightarrow> paxos_session \<Rightarrow> int result" where
  "refuse_connected a k s = do {
     s \<leftarrow> idefer_destroy (s\<lparr>live_count := live_count s + 1, prep := None\<rparr>);
     (r, s) \<leftarrow> paxos_hello a s;
     acc \<leftarrow> aheap s a;
     pr \<leftarrow> proposer s;
     pacc \<leftarrow> aheap s pr;
     if pa_paxid acc < pa_paxid pacc then do {
       (c, s) \<leftarrow> refuse_resend a k s;
       Some (r OR c, s) }
     else Some (r, s)
   }"

definition do_continue_ack_refuse :: "peer option \<Rightarrow> aref \<Rightarrow> paxos_continuation \<Rightarrow> paxos_session \<Rightarrow> int result" where
  "do_continue_ack_refuse chan a k s = do {
     isp \<leftarrow> is_proposer s;
     if isp \<and> prep s = None then Some (0, s)
     else do {
       (p, s) \<leftarrow> attach_peer chan a s;
       if p = None then Some (0, s) else refuse_connected a k s }
   }"

subsection \<open>Reject\<close>

definition reject_resolve :: "iref \<Rightarrow> paxos_session \<Rightarrow> int result" where
  "reject_resolve i s = do {
     inst \<leftarrow> iheap s i;
     assert (pv_dkind (pi_val inst) = DEC_PART);
     if DEATH_ADJUSTED s (pi_rejects inst) \<ge> majority s then do {
       acc \<leftarrow> lost_acceptor (pv_extra (pi_val inst)) s;
       reconnect Continue_ack_reject (PK_inum (ph_inum (pi_hdr inst))) acc s }
     else if pi_votes inst < majority s \<and> DEATH_ADJUSTED s (pi_rejects inst) < majority s
       \<and> pi_votes inst + pi_rejects inst = live_count s then
       paxos_broadcast_instance i s
     else Some (0, s)
   }"

definition proposer_ack_reject :: "paxos_header \<Rightarrow> paxos_session \<Rightarrow> int result" where
  "proposer_ack_reject hdr s = do {
     assert (ballot_compare (ph_ballot hdr) (ballot s) = 0);
     found \<leftarrow> instance_find (inum_of s) (ilist s) (ph_inum hdr);
     i \<leftarrow> found;
     s \<leftarrow> upd_instance i (\<lambda>x. x\<lparr>pi_rejects := pi_rejects x + 1\<rparr>) s;
     inst \<leftarrow> iheap s i;
     if pi_committed inst then Some (0, s)
     else if pv_dkind (pi_val inst) = DEC_NULL then Some (0, s)
     else reject_resolve i s
   }"

text \<open>Turning the rejected part into a null decree.\<close>

definition nullify :: "paxos_instance \<Rightarrow> paxos_instance" where
  "nullify x = x\<lparr>pi_hdr := (pi_hdr x)\<lparr>ph_opcode := OP_DECREE\<rparr>,
     pi_val := (pi_val x)\<lparr>pv_dkind := DEC_NULL, pv_extra := 0\<rparr>\<rparr>"

definition reject_retry :: "peer option \<Rightarrow> aref \<Rightarrow> iref \<Rightarrow> paxos_session \<Rightarrow> int result" where
  "reject_retry chan a i s = do {
     (p, s) \<leftarrow> attach_peer chan a s;
     (r, s) \<leftarrow> (if p = None then Some (0, s) else paxos_hello a (s\<lparr>live_count := live_count s + 1\<rparr>));
     if r \<noteq> 0 then Some (r, s)
     else do {
       s \<leftarrow> upd_instance i (\<lambda>x. instance_init_metadata (if p = None then x else nullify x)) s;
       paxos_broadcast_instance i s }
   }"

definition do_continue_ack_reject :: "peer option \<Rightarrow> aref \<Rightarrow> paxos_continuation \<Rightarrow> paxos_session \<Rightarrow> int result" where
  "do_continue_ack_reject chan a k s = do {
     inum \<leftarrow> pk_inum (pk_data k);
     found \<leftarrow> instance_find (inum_of s) (ilist s) inum;
     (case found of None \<Rightarrow> Some (0, s) | Some i \<Rightarrow> reject_retry chan a i s)
   }"

end
