(* ===== verification/Protocol.thy ===== *)
theory Protocol
  imports Reconnect
begin

section \<open>The interface and the dispatcher (paxos.c, paxos\_continue.h, motmot.c)\<close>

text \<open>
  The global state: the list of sessions and the client's callbacks.  Sessions live in a heap of their
  own, as the list holds pointers; a session that has ended is moved to \<open>departed\<close>, which keeps what it
  did.  \<open>connect_cb\<close> and \<open>enter_cb\<close> are what the client's callbacks return.
\<close>

type_synonym sref = nat   \<comment> \<open>\<open>struct paxos_session *\<close>\<close>

record paxos_state =
  sessions :: "sref list"
  sheap :: "sref \<Rightarrow> paxos_session option"
  sbrk :: nat
  connect_cb :: "bytes \<Rightarrow> int"
  enter_cb :: client_data
  departed :: "paxos_session list"

type_synonym outcome = "(int \<times> paxos_state) option"

definition uuid_of :: "paxos_state \<Rightarrow> sref \<Rightarrow> pax_uuid option" where
  "uuid_of st r = map_option session_id (sheap st r)"

definition session_find :: "(sref \<Rightarrow> pax_uuid option) \<Rightarrow> sref list \<Rightarrow> pax_uuid \<Rightarrow> sref option option" where
  "session_find = LIST_FIND_FWD pax_uuid_compare"
definition session_insert :: "(sref \<Rightarrow> pax_uuid option) \<Rightarrow> sref list \<Rightarrow> sref \<Rightarrow> (sref list \<times> sref) option" where
  "session_insert = LIST_INSERT_FWD pax_uuid_compare"

interpretation sessions: container pax_uuid_compare session_find session_insert
  unfolding session_find_def session_insert_def by (rule pax_uuid.container_fwd_fwd)

text \<open>Entering a new session, and storing one after an operation on it.\<close>

definition session_enter :: "paxos_session \<Rightarrow> paxos_state \<Rightarrow> (sref \<times> paxos_state) option" where
  "session_enter s st = do {
     let r = sbrk st;
     let st = st\<lparr>sheap := (sheap st)(r \<mapsto> s), sbrk := Suc r\<rparr>;
     (xs, _) \<leftarrow> session_insert (uuid_of st) (sessions st) r;
     Some (r, st\<lparr>sessions := xs\<rparr>)
   }"

definition session_put :: "sref \<Rightarrow> paxos_session \<Rightarrow> paxos_state \<Rightarrow> paxos_state option" where
  "session_put r s st =
     (if ended s then do {
        assert (r \<in> set (sessions st));
        Some (st\<lparr>sessions := remove1 r (sessions st), sheap := (sheap st)(r := None),
                departed := departed st @ [s]\<rparr>) }
      else Some (st\<lparr>sheap := (sheap st)(r \<mapsto> s)\<rparr>))"

definition with_session :: "sref \<Rightarrow> (paxos_session \<Rightarrow> int result) \<Rightarrow> paxos_state \<Rightarrow> outcome" where
  "with_session r f st = do {
     s \<leftarrow> sheap st r;
     (c, s) \<leftarrow> f s;
     st \<leftarrow> session_put r s st;
     Some (c, st)
   }"

subsection \<open>Starting\<close>

definition paxos_init :: "(bytes \<Rightarrow> int) \<Rightarrow> client_data \<Rightarrow> int \<times> paxos_state" where
  "paxos_init conn ent =
     (0, \<lparr>sessions = [], sheap = Map.empty, sbrk = 1, connect_cb = conn, enter_cb = ent, departed = []\<rparr>)"

definition start_session :: "(bytes \<Rightarrow> int) \<Rightarrow> bytes \<Rightarrow> bytes \<Rightarrow> client_data \<Rightarrow> paxos_session" where
  "start_session conn rnd desc data =
     (let s = session_new conn rnd data True;
          s = s\<lparr>self_id := 1\<rparr>;
          s = s\<lparr>ballot := PPair (self_id s) 1, gen_high := 1, req_id := req_id s + 1\<rparr>;
          req = \<lparr>pr_val = \<lparr>pv_dkind = DEC_JOIN, pv_reqid = PPair (self_id s) (req_id s), pv_extra = 0\<rparr>,
                 pr_data = desc\<rparr>;
          s = s\<lparr>rcache := rcache s @ [req]\<rparr>;
          (i, s) = alloc_instance \<lparr>pi_hdr = header_init s OP_DECREE 1, pi_committed = True,
                     pi_cached = True, pi_learned = True, pi_votes = 1, pi_rejects = 0, pi_val = pr_val req\<rparr> s;
          s = s\<lparr>ilist := i # ilist s, ibase := 1, ihole := 2, istart := Some i\<rparr>;
          (a, s) = alloc_acceptor \<lparr>pa_paxid = self_id s, pa_peer = None, pa_desc = desc\<rparr> s;
          s = s\<lparr>alist := a # alist s, live_count := 1, proposer := Some a\<rparr>
      in emit (Add_sync_timer (session_id s)) s)"

definition paxos_start :: "bytes \<Rightarrow> bytes \<Rightarrow> client_data \<Rightarrow> paxos_state \<Rightarrow> (sref \<times> paxos_state) option" where
  "paxos_start rnd desc data st = session_enter (start_session (connect_cb st) rnd desc data) st"

subsection \<open>Losing a connection\<close>

fun peer_acceptor :: "peer \<Rightarrow> aref list \<Rightarrow> paxos_session \<Rightarrow> aref option option" where
  "peer_acceptor source [] s = Some None"
| "peer_acceptor source (a # rest) s = do {
     acc \<leftarrow> aheap s a;
     if pa_peer acc = Some source then Some (Some a) else peer_acceptor source rest s
   }"

definition drop_session :: "peer \<Rightarrow> aref \<Rightarrow> paxos_session \<Rightarrow> int result" where
  "drop_session source a s = do {
     let s = paxos_peer_destroy (Some source) s;
     s \<leftarrow> upd_acceptor a (\<lambda>x. x\<lparr>pa_peer := None\<rparr>) s;
     let s = s\<lparr>live_count := live_count s - 1\<rparr>;
     isp \<leftarrow> is_proposer s;
     if isp then proposer_decree_part a False s else part_reelect a s
   }"

text \<open>
  One session after another.  The loop reads the list entry of a session after processing it, so a
  session that ended in between is a fault, and so is destroying the peer a second time: \<open>gone\<close> says
  that some session has destroyed it.
\<close>

fun drop_walk :: "peer \<Rightarrow> bool \<Rightarrow> sref list \<Rightarrow> int \<Rightarrow> paxos_state \<Rightarrow> outcome" where
  "drop_walk source gone [] r st = Some (r, st)"
| "drop_walk source gone (q # qs) r st = do {
     s \<leftarrow> sheap st q;
     found \<leftarrow> peer_acceptor source (alist s) s;
     (case found of
        None \<Rightarrow> drop_walk source gone qs r st
      | Some a \<Rightarrow> do {
          assert (\<not> gone);
          (c, s) \<leftarrow> drop_session source a s;
          assert (\<not> ended s);
          st \<leftarrow> session_put q s st;
          drop_walk source True qs (r OR c) st }) }"

definition paxos_drop_connection :: "peer \<Rightarrow> paxos_state \<Rightarrow> outcome" where
  "paxos_drop_connection source st = drop_walk source False (sessions st) 0 st"

subsection \<open>Dispatch\<close>

definition proposer_force_kill :: "peer \<Rightarrow> paxos_session \<Rightarrow> int result" where
  "proposer_force_kill source s = do {
     found \<leftarrow> peer_acceptor source (alist s) s;
     (case found of None \<Rightarrow> Some (1, s) | Some a \<Rightarrow> proposer_decree_part a True s)
   }"

definition proposer_dispatch :: "peer \<Rightarrow> paxos_header \<Rightarrow> mobj option \<Rightarrow> paxos_session \<Rightarrow> int result" where
  "proposer_dispatch source hdr o1 s = (case ph_opcode hdr of
     OP_PREPARE \<Rightarrow> proposer_force_kill source s
   | OP_PROMISE \<Rightarrow> proposer_ack_promise hdr o1 s
   | OP_DECREE \<Rightarrow> proposer_force_kill source s
   | OP_ACCEPT \<Rightarrow> proposer_ack_accept hdr s
   | OP_COMMIT \<Rightarrow> proposer_force_kill source s
   | OP_REQUEST \<Rightarrow> proposer_ack_request hdr o1 s
   | OP_RETRIEVE \<Rightarrow> paxos_ack_retrieve hdr o1 s
   | OP_RESEND \<Rightarrow> paxos_ack_resend hdr o1 s
   | OP_WELCOME \<Rightarrow> proposer_force_kill source s
   | OP_HELLO \<Rightarrow> paxos_ack_hello (Some source) hdr s
   | OP_REDIRECT \<Rightarrow> proposer_ack_redirect hdr o1 s
   | OP_REFUSE \<Rightarrow> do {
       (_, s) \<leftarrow> proposer_force_kill source s;
       assert (\<not> ended s);
       proposer_ack_reject hdr s }
   | OP_REJECT \<Rightarrow> proposer_ack_reject hdr s
   | OP_RETRY \<Rightarrow> proposer_ack_retry hdr s
   | OP_RECOMMIT \<Rightarrow> proposer_force_kill source s
   | OP_SYNC \<Rightarrow> proposer_force_kill source s
   | OP_LAST \<Rightarrow> proposer_ack_last hdr o1 s
   | OP_TRUNCATE \<Rightarrow> proposer_force_kill source s
   | OP_unknown _ \<Rightarrow> Some (0, s))"

definition acceptor_handle :: "peer \<Rightarrow> paxos_header \<Rightarrow> mobj option \<Rightarrow> paxos_session \<Rightarrow> int result" where
  "acceptor_handle source hdr o1 s = (case ph_opcode hdr of
     OP_PREPARE \<Rightarrow> acceptor_ack_prepare (Some source) hdr s
   | OP_PROMISE \<Rightarrow> Some (0, s)
   | OP_DECREE \<Rightarrow> acceptor_ack_decree hdr o1 s
   | OP_ACCEPT \<Rightarrow> Some (0, s)
   | OP_COMMIT \<Rightarrow> acceptor_ack_commit hdr o1 s
   | OP_REQUEST \<Rightarrow> acceptor_ack_request (Some source) hdr o1 s
   | OP_RETRIEVE \<Rightarrow> paxos_ack_retrieve hdr o1 s
   | OP_RESEND \<Rightarrow> paxos_ack_resend hdr o1 s
   | OP_WELCOME \<Rightarrow> Some (0, s)
   | OP_HELLO \<Rightarrow> paxos_ack_hello (Some source) hdr s
   | OP_REDIRECT \<Rightarrow> Some (0, s)
   | OP_REFUSE \<Rightarrow> acceptor_ack_refuse hdr o1 s
   | OP_REJECT \<Rightarrow> Some (0, s)
   | OP_RETRY \<Rightarrow> Some (0, s)
   | OP_RECOMMIT \<Rightarrow> acceptor_ack_recommit hdr o1 s
   | OP_SYNC \<Rightarrow> acceptor_ack_sync hdr s
   | OP_LAST \<Rightarrow> Some (0, s)
   | OP_TRUNCATE \<Rightarrow> acceptor_ack_truncate hdr o1 s
   | OP_unknown _ \<Rightarrow> Some (0, s))"

text \<open>The switch stores the handler's result in \<open>r\<close>, and the function returns 0.\<close>

definition acceptor_dispatch :: "peer \<Rightarrow> paxos_header \<Rightarrow> mobj option \<Rightarrow> paxos_session \<Rightarrow> int result" where
  "acceptor_dispatch source hdr o1 s = do {
     (_, s) \<leftarrow> acceptor_handle source hdr o1 s;
     Some (0, s)
   }"

definition session_dispatch :: "peer \<Rightarrow> paxos_header \<Rightarrow> mobj option \<Rightarrow> paxos_session \<Rightarrow> int result" where
  "session_dispatch source hdr o1 s = do {
     isp \<leftarrow> is_proposer s;
     if isp then proposer_dispatch source hdr o1 s else acceptor_dispatch source hdr o1 s
   }"

text \<open>
  A welcome enters a new session in the list before its UUID is known, so it is inserted as UUID 0, and
  the UUID is set where it stands.
\<close>

definition dispatch_welcome :: "peer \<Rightarrow> paxos_header \<Rightarrow> mobj option \<Rightarrow> paxos_state \<Rightarrow> outcome" where
  "dispatch_welcome source hdr o1 st = do {
     (r, st) \<leftarrow> session_enter (session_new (connect_cb st) [] Null_data False) st;
     (c, s) \<leftarrow> acceptor_ack_welcome (connect_cb st) (enter_cb st) (Some source) hdr o1;
     st \<leftarrow> session_put r s st;
     Some (c, st)
   }"

definition paxos_dispatch :: "peer \<Rightarrow> mobj \<Rightarrow> paxos_state \<Rightarrow> outcome" where
  "paxos_dispatch source o1 st = do {
     ps \<leftarrow> array o1;
     assert (0 < length ps \<and> length ps \<le> 2);
     hdr \<leftarrow> paxos_header_unpack (ps ! 0);
     found \<leftarrow> session_find (uuid_of st) (sessions st) (ph_session hdr);
     (case found of
        None \<Rightarrow>
          if ph_opcode hdr = OP_WELCOME then dispatch_welcome source hdr (elem ps 1) st
          else Some (0, st)
      | Some r \<Rightarrow> with_session r (session_dispatch source hdr (elem ps 1)) st)
   }"

subsection \<open>Continuations\<close>

definition run_continuation ::
  "continuation_func \<Rightarrow> peer option \<Rightarrow> aref \<Rightarrow> paxos_continuation \<Rightarrow> paxos_session \<Rightarrow> int result" where
  "run_continuation func = (case func of
     Continue_welcome \<Rightarrow> do_continue_welcome
   | Continue_ack_welcome \<Rightarrow> do_continue_ack_welcome
   | Continue_ack_redirect \<Rightarrow> do_continue_ack_redirect
   | Continue_ack_refuse \<Rightarrow> do_continue_ack_refuse
   | Continue_ack_reject \<Rightarrow> do_continue_ack_reject)"

definition continue_session :: "kref \<Rightarrow> peer option \<Rightarrow> paxos_session \<Rightarrow> int result" where
  "continue_session k chan s = do {
     kont \<leftarrow> map_of (clist s) k;
     found \<leftarrow> acceptor_find (paxid_of s) (alist s) (pk_paxid kont);
     (r, s) \<leftarrow> (case found of
        None \<Rightarrow> Some (0, s)
      | Some a \<Rightarrow> run_continuation (pk_func kont) chan a kont s);
     assert (\<not> ended s);
     Some (r, s\<lparr>clist := filter (\<lambda>(k', _). k' \<noteq> k) (clist s)\<rparr>)
   }"

text \<open>
  The macro: the client passes back the continuation \<open>k\<close> of the session at \<open>owner\<close>, which has been freed
  with it if that session has ended.
\<close>

definition CONNECTINUATE :: "sref \<Rightarrow> kref \<Rightarrow> peer option \<Rightarrow> paxos_state \<Rightarrow> outcome" where
  "CONNECTINUATE owner k chan st = do {
     s \<leftarrow> sheap st owner;
     kont \<leftarrow> map_of (clist s) k;
     found \<leftarrow> session_find (uuid_of st) (sessions st) (pk_session_id kont);
     (case found of None \<Rightarrow> Some (0, st) | Some r \<Rightarrow> with_session r (continue_session k chan) st)
   }"

subsection \<open>The timer, and the public interface\<close>

definition paxos_sync_timer :: "pax_uuid \<Rightarrow> paxos_state \<Rightarrow> outcome" where
  "paxos_sync_timer uuid st = do {
     found \<leftarrow> session_find (uuid_of st) (sessions st) uuid;
     r \<leftarrow> found;
     with_session r sync_session st
   }"

definition motmot_init :: "(bytes \<Rightarrow> int) \<Rightarrow> client_data \<Rightarrow> int \<times> paxos_state" where
  "motmot_init conn ent = paxos_init conn ent"

definition motmot_session :: "bytes \<Rightarrow> bytes \<Rightarrow> client_data \<Rightarrow> paxos_state \<Rightarrow> (sref \<times> paxos_state) option" where
  "motmot_session rnd desc data st = paxos_start rnd desc data st"

definition client_request :: "dkind \<Rightarrow> bytes \<Rightarrow> sref option \<Rightarrow> paxos_state \<Rightarrow> outcome" where
  "client_request dkind msg session st = (case session of
     None \<Rightarrow> Some (1, st)
   | Some r \<Rightarrow> with_session r (paxos_request dkind msg) st)"

definition motmot_invite :: "bytes \<Rightarrow> sref option \<Rightarrow> paxos_state \<Rightarrow> outcome" where
  "motmot_invite handle session st = client_request DEC_JOIN handle session st"

definition motmot_disconnect :: "sref \<Rightarrow> paxos_state \<Rightarrow> outcome" where
  "motmot_disconnect session st = with_session session paxos_end st"

definition motmot_send :: "bytes \<Rightarrow> sref option \<Rightarrow> paxos_state \<Rightarrow> outcome" where
  "motmot_send msg session st = client_request DEC_CHAT msg session st"

end
