(* ===== verification/Log_Invariant.thy ===== *)
theory Log_Invariant
  imports Protocol
begin

section \<open>The log invariant and the stability of committed values\<close>

text \<open>
  \<open>log_inv\<close>: the log is strictly ascending in instance numbers, its instances and the deferred ones are
  allocated and pairwise distinct.  \<open>log_keep\<close>: every committed instance of the log stays in it,
  committed, under its number and with its value.  Both speak of sessions that have not ended.
  \<open>log_step\<close> is what an operation guarantees: it keeps both.  Steps compose, so each handler is settled
  by its pieces.
\<close>

definition log_wf :: "paxos_session \<Rightarrow> bool" where
  "log_wf s \<longleftrightarrow> ordered paxid_compare (inum_of s) (ilist s) \<and> distinct (ilist s @ idefer s) \<and>
     (\<forall>i\<in>set (ilist s @ idefer s). i < brk s)"

definition log_inv :: "paxos_session \<Rightarrow> bool" where
  "log_inv s \<longleftrightarrow> ended s \<or> log_wf s"

definition same_decree :: "paxos_instance \<Rightarrow> paxos_instance \<Rightarrow> bool" where
  "same_decree x y \<longleftrightarrow> ph_inum (pi_hdr y) = ph_inum (pi_hdr x) \<and>
     (pi_committed x \<longrightarrow> pi_committed y \<and> pi_val y = pi_val x)"

definition log_kept :: "paxos_session \<Rightarrow> paxos_session \<Rightarrow> bool" where
  "log_kept s s' \<longleftrightarrow> (\<forall>i x. i \<in> set (ilist s) \<longrightarrow> iheap s i = Some x \<longrightarrow> pi_committed x \<longrightarrow>
     i \<in> set (ilist s') \<and> (\<exists>y. iheap s' i = Some y \<and> same_decree x y))"

definition log_keep :: "paxos_session \<Rightarrow> paxos_session \<Rightarrow> bool" where
  "log_keep s s' \<longleftrightarrow> ended s' \<or> \<not> ended s \<and> brk s \<le> brk s' \<and> log_kept s s'"

definition log_step :: "paxos_session \<Rightarrow> paxos_session \<Rightarrow> bool" where
  "log_step s s' \<longleftrightarrow> (log_inv s \<longrightarrow> log_inv s' \<and> log_keep s s')"

lemma same_decree_refl [simp, intro]: "same_decree x x"
  by (simp add: same_decree_def)

lemma same_decree_trans: "same_decree x y \<Longrightarrow> same_decree y z \<Longrightarrow> same_decree x z"
  by (auto simp: same_decree_def)

lemma log_kept_refl [simp, intro]: "log_kept s s"
  by (auto simp: log_kept_def)

lemma log_kept_trans:
  assumes "log_kept s t" "log_kept t u"
  shows "log_kept s u"
  unfolding log_kept_def
proof (intro allI impI)
  fix i x assume x: "i \<in> set (ilist s)" "iheap s i = Some x" "pi_committed x"
  with assms(1) obtain y where y: "i \<in> set (ilist t)" "iheap t i = Some y" "same_decree x y"
    by (auto simp: log_kept_def)
  then have "pi_committed y" using x by (simp add: same_decree_def)
  with assms(2) y obtain z where "i \<in> set (ilist u)" "iheap u i = Some z" "same_decree y z"
    unfolding log_kept_def by blast
  with y show "i \<in> set (ilist u) \<and> (\<exists>z. iheap u i = Some z \<and> same_decree x z)"
    by (auto intro: same_decree_trans)
qed

lemma log_step_refl [simp, intro]: "log_step s s"
  by (simp add: log_step_def log_keep_def)

lemma log_step_trans: "log_step s t \<Longrightarrow> log_step t u \<Longrightarrow> log_step s u"
  unfolding log_step_def log_keep_def by (auto intro: log_kept_trans)

lemma log_stepI: "(log_inv s \<Longrightarrow> log_step s s') \<Longrightarrow> log_step s s'"
  by (simp add: log_step_def)

lemma log_step_inv: "log_step s s' \<Longrightarrow> log_inv s \<Longrightarrow> log_inv s'"
  by (simp add: log_step_def)

text \<open>For a session that goes on, it is enough to look at the well-formed case.\<close>

lemma log_step_wfI:
  assumes "ended s' = ended s" "brk s \<le> brk s'" "log_wf s \<Longrightarrow> \<not> ended s \<Longrightarrow> log_wf s' \<and> log_kept s s'"
  shows "log_step s s'"
  using assms by (auto simp: log_step_def log_keep_def log_inv_def)

lemma log_step_ended: "ended s' \<Longrightarrow> log_step s s'"
  by (simp add: log_step_def log_keep_def log_inv_def)

subsection \<open>The elementary steps\<close>

text \<open>Steps that do not touch the log.\<close>

definition log_same :: "paxos_session \<Rightarrow> paxos_session \<Rightarrow> bool" where
  "log_same s s' \<longleftrightarrow> ilist s' = ilist s \<and> idefer s' = idefer s \<and> iheap s' = iheap s \<and>
     brk s \<le> brk s' \<and> ended s' = ended s"

lemma log_same_refl [simp, intro]: "log_same s s"
  by (simp add: log_same_def)

lemma log_same_trans: "log_same s t \<Longrightarrow> log_same t u \<Longrightarrow> log_same s u"
  by (auto simp: log_same_def)

lemma log_wf_cong:
  assumes "log_wf s" "\<And>i. i \<in> set (ilist s) \<Longrightarrow> inum_of t i = inum_of s i"
    "ilist t = ilist s" "idefer t = idefer s @ js" "distinct js" "set js \<subseteq> {brk s..<brk t}" "brk s \<le> brk t"
  shows "log_wf t"
proof -
  have "ordered paxid_compare (inum_of t) (ilist s) = ordered paxid_compare (inum_of s) (ilist s)"
    by (rule ordered_cong) (rule assms(2))
  moreover have "set js \<inter> set (ilist s @ idefer s) = {}"
  proof -
    have "i < brk s" if "i \<in> set (ilist s @ idefer s)" for i using that assms(1) by (simp add: log_wf_def)
    moreover have "brk s \<le> i" if "i \<in> set js" for i using that assms(6) by auto
    ultimately show ?thesis by (meson disjoint_iff linorder_not_less)
  qed
  moreover have "i < brk t" if "i \<in> set (ilist s @ idefer s @ js)" for i
    using that assms(1,6,7) by (auto simp: log_wf_def intro: order_less_le_trans)
  ultimately show ?thesis using assms by (auto simp: log_wf_def)
qed

lemmas log_wf_same = log_wf_cong [where js = "[]", simplified]

lemma inum_of_cong: "iheap s i = iheap t i \<Longrightarrow> inum_of s i = inum_of t i"
  by (simp add: inum_of_def)

lemma log_frame_step:
  assumes f: "log_frame s s'"
  shows "log_step s s'"
proof (rule log_step_wfI)
  assume wf: "log_wf s"
  from f obtain js where js: "idefer s' = idefer s @ js" "distinct js" "set js \<subseteq> {brk s..<brk s'}"
    by (auto simp: log_frame_def idefer_ext_def)
  have keep: "iheap s' i = iheap s i" if "i \<in> set (ilist s)" for i
    using f wf that by (simp add: log_frame_def log_wf_def)
  have "log_wf s'" using f keep js
    by (intro log_wf_cong [OF wf, of s' js] inum_of_cong) (auto simp: log_frame_def)
  then show "log_wf s' \<and> log_kept s s'" using keep f by (auto simp: log_kept_def log_frame_def)
qed (use f in \<open>simp_all add: log_frame_def\<close>)

lemma log_same_step: "log_same s s' \<Longrightarrow> log_step s s'"
  by (rule log_step_wfI) (auto simp: log_same_def log_kept_def intro!: inum_of_cong elim!: log_wf_same)

lemma sends_only_step: "sends_only s s' \<Longrightarrow> log_step s s'"
  by (rule log_frame_step) (rule sends_only_log_frame)

text \<open>Changing one instance.\<close>

lemma set_instance_step:
  assumes "iheap s i = Some x" "i \<in> set (ilist s) \<Longrightarrow> same_decree x y"
  shows "log_step s (s\<lparr>iheap := (iheap s)(i \<mapsto> y)\<rparr>)"
proof (rule log_step_wfI)
  let ?t = "s\<lparr>iheap := (iheap s)(i \<mapsto> y)\<rparr>"
  assume wf: "log_wf s"
  have "inum_of ?t j = inum_of s j" if "j \<in> set (ilist s)" for j
    using assms that by (auto simp: inum_of_def same_decree_def)
  then have "log_wf ?t" by (rule log_wf_same [OF wf]) simp_all
  with assms show "log_wf ?t \<and> log_kept s ?t" by (auto simp: log_kept_def)
qed simp_all

lemma upd_instance_step:
  assumes "upd_instance i f s = Some s'" "\<And>x. iheap s i = Some x \<Longrightarrow> i \<in> set (ilist s) \<Longrightarrow> same_decree x (f x)"
  shows "log_step s s'"
  using assms set_instance_step [of s i _ "f _"] by (auto simp: upd_instance_def bind_Some_iff)

lemma upd_instance_lists: "upd_instance i f s = Some t \<Longrightarrow>
    ilist t = ilist s \<and> idefer t = idefer s \<and> brk t = brk s \<and> ended t = ended s \<and> ihole t = ihole s"
  by (auto simp: upd_instance_def bind_Some_iff)

text \<open>An instance that is in neither list, as a new one is.\<close>

definition unlisted :: "iref \<Rightarrow> paxos_session \<Rightarrow> bool" where
  "unlisted i s \<longleftrightarrow> ended s \<or> i \<notin> set (ilist s @ idefer s) \<and> i < brk s"

lemma unlisted_cong: "unlisted i s \<Longrightarrow> ilist t = ilist s \<and> idefer t = idefer s \<and> brk t = brk s \<and> ended t = ended s \<and> x
    \<Longrightarrow> unlisted i t"
  by (simp add: unlisted_def)

lemma upd_unlisted_step:
  assumes "upd_instance i f s = Some s'" "unlisted i s"
  shows "log_step s s'" "unlisted i s'"
proof -
  show "log_step s s'"
  proof (cases "ended s")
    case True
    with upd_instance_lists [OF assms(1)] show ?thesis by (intro log_step_ended) simp
  qed (use assms in \<open>auto simp: unlisted_def intro: upd_instance_step\<close>)
  show "unlisted i s'" using assms(2) upd_instance_lists [OF assms(1)] by (rule unlisted_cong)
qed

lemma alloc_instance_step:
  assumes "alloc_instance x s = (i, s')"
  shows "log_step s s'" "log_inv s \<Longrightarrow> unlisted i s'" "iheap s' i = Some x"
proof -
  have s': "i = brk s" "s' = s\<lparr>iheap := (iheap s)(brk s \<mapsto> x), brk := Suc (brk s)\<rparr>"
    using assms by (auto simp: alloc_instance_def)
  have "log_wf s'" if "log_wf s"
    using s' that by (intro log_wf_same [OF that] inum_of_cong) (auto simp: log_wf_def)
  then show "log_step s s'" using s' by (intro log_step_wfI) (auto simp: log_kept_def log_wf_def)
  show "log_inv s \<Longrightarrow> unlisted i s'" using s' by (auto simp: unlisted_def log_inv_def log_wf_def)
  show "iheap s' i = Some x" using s' by simp
qed

lemma insert_upstart_step:
  assumes "instance_insert_and_upstart i s = Some s'" "log_inv s \<Longrightarrow> unlisted i s"
  shows "log_step s s'"
proof -
  from assms(1) obtain xs e and x :: paxos_instance where
    ins: "instance_insert (inum_of s) (ilist s) i = Some (xs, e)" and x: "iheap s i = Some x"
    and s': "(if ph_inum (pi_hdr x) = ihole s then s\<lparr>ilist := xs, istart := Some i\<rparr> else s\<lparr>ilist := xs\<rparr>) = s'"
    by (simp add: instance_insert_and_upstart_def bind_Some_iff Let_def split del: if_split) auto
  have "log_wf s' \<and> log_kept s s'" if inv: "log_wf s" "\<not> ended s"
  proof -
    have ord: "ordered paxid_compare (inum_of s) (ilist s)" using inv by (simp add: log_wf_def)
    have k: "inum_of s i = Some (ph_inum (pi_hdr x))" using x by (simp add: inum_of_def)
    from ord k have "ordered paxid_compare (inum_of s) xs \<and>
        (xs = ilist s \<or> (\<exists>ys zs. ilist s = ys @ zs \<and> xs = ys @ i # zs))"
    proof (rule instances.insert_cases)
      fix y assume "instance_insert (inum_of s) (ilist s) i = Some (ilist s, y)"
      from trans [OF ins [symmetric] this] have "xs = ilist s" by blast
      with ord show ?thesis by blast
    next
      fix ys zs assume yz: "ilist s = ys @ zs" "instance_insert (inum_of s) (ilist s) i = Some (ys @ i # zs, i)"
        "ordered paxid_compare (inum_of s) (ys @ i # zs)"
      from trans [OF ins [symmetric] yz(2)] have "xs = ys @ i # zs" by blast
      with yz(1,3) show ?thesis by blast
    qed
    then have xs: "ordered paxid_compare (inum_of s) xs" "set (ilist s) \<subseteq> set xs" "set xs \<subseteq> insert i (set (ilist s))"
      by auto
    have "inum_of s' = inum_of s" "ilist s' = xs" "idefer s' = idefer s" "iheap s' = iheap s" "brk s' = brk s"
      using s' by (auto simp: inum_of_def [abs_def] split: if_splits)
    moreover have "distinct (xs @ idefer s)" "\<forall>j\<in>set (xs @ idefer s). j < brk s"
      using inv assms(2) xs paxid.ordered_distinct [OF xs(1)] by (auto simp: log_wf_def unlisted_def log_inv_def)
    ultimately show ?thesis using xs by (auto simp: log_wf_def log_kept_def)
  qed
  then show ?thesis using s' by (intro log_step_wfI) (auto split: if_splits)
qed

subsection \<open>Learning, committing and decreeing\<close>

lemma paxos_learn_step:
  assumes "paxos_learn i req s = Some (r, s')"
  shows "log_step s s'"
proof -
  from assms obtain x where x: "iheap s i = Some x"
    by (auto simp: paxos_learn_def upd_instance_def bind_Some_iff)
  let ?t = "s\<lparr>iheap := (iheap s)(i \<mapsto> x\<lparr>pi_learned := True\<rparr>)\<rparr>"
  have "log_step s ?t" using x by (intro set_instance_step) (auto simp: same_decree_def)
  moreover have "log_step ?t (s\<lparr>iheap := (iheap s)(i \<mapsto> x\<lparr>pi_learned := True\<rparr>), out := out s'\<rparr>)"
    by (rule log_same_step) (simp add: log_same_def)
  ultimately show ?thesis
    using paxos_learn_frame [OF assms x] by (auto intro: log_step_ended log_step_trans log_frame_step)
qed

lemma learn_loop_step: "learn_loop it s = Some rs \<Longrightarrow> log_step s (snd rs)"
proof (induction it s rs rule: learn_loop.raw_induct [rotated, consumes 1, case_names step])
  case (step loop it s rs)
  have same: "log_step s (s\<lparr>istart := p\<rparr>)" "log_step s (s\<lparr>ihole := h\<rparr>)" for s p h
    by (rule log_same_step, simp add: log_same_def)+
  show ?case
  proof (cases it)
    case None
    with step(2) same show ?thesis by auto
  next
    case (Some i)
    show ?thesis
    proof (rule ccontr)
      assume no: "\<not> ?thesis"
      from Some step(2) obtain x where x: "iheap s i = Some x" by (auto simp: bind_Some_iff)
      have go: "ph_inum (pi_hdr x) = ihole s \<and> pi_committed x \<and> pi_cached x"
        using no Some step(2) x same by (auto simp: bind_Some_iff split: if_splits)
      with Some step(2) x obtain req c t where t: "paxos_learn i req s = Some (c, t)"
        and rest: "(if c \<noteq> 0 then Some (c, t)
          else ilist_next t i \<bind> (\<lambda>nx. loop nx (t\<lparr>ihole := ihole t + 1\<rparr>))) = Some rs"
        by (cases "pi_learned x") (simp_all add: bind_Some_iff split del: if_split, blast)
      note 1 = paxos_learn_step [OF t]
      show False
      proof (cases "c = 0")
        case True
        with rest obtain nx where "loop nx (t\<lparr>ihole := ihole t + 1\<rparr>) = Some rs" by (auto simp: bind_Some_iff)
        then have "log_step (t\<lparr>ihole := ihole t + 1\<rparr>) (snd rs)" by (rule step(1))
        with log_step_trans [OF 1 log_step_trans [OF same(2)]] no show False by blast
      next
        case False
        with rest no 1 show False by auto
      qed
    qed
  qed
qed

lemma commit_cached_step:
  assumes "commit_cached i s = Some (r, s')"
  shows "log_step s s'"
proof -
  from assms obtain t x where t: "upd_instance i (\<lambda>x. x\<lparr>pi_cached := True\<rparr>) s = Some t" and x: "iheap t i = Some x"
    by (auto simp: commit_cached_def bind_Some_iff)
  have 1: "log_step s t" by (rule upd_instance_step [OF t]) (auto simp: same_decree_def)
  have "log_step t s'"
  proof (cases "ph_inum (pi_hdr x) = ihole t")
    case True
    with assms t x obtain u st where u: "u = t \<or> (\<exists>nx. u = t\<lparr>istart := nx\<rparr>)" and "learn_loop (Some st) u = Some (r, s')"
      by (auto simp: commit_cached_def bind_Some_iff split: if_splits)
    moreover have "log_step t u" using u by (auto intro: log_same_step simp: log_same_def)
    ultimately show ?thesis using learn_loop_step log_step_trans by fastforce
  next
    case False
    with assms t x have "s' = t \<or> acceptor_retry (ihole t) t = Some (r, s')"
      by (auto simp: commit_cached_def bind_Some_iff split: if_splits)
    then show ?thesis by (auto dest!: acceptor_retry_effect intro: sends_only_step)
  qed
  with 1 show ?thesis by (rule log_step_trans)
qed

lemma paxos_commit_step:
  assumes "paxos_commit i s = Some (r, s')"
  shows "log_step s s'"
proof -
  from assms obtain t where t: "upd_instance i (\<lambda>x. x\<lparr>pi_committed := True\<rparr>) s = Some t"
    and "paxos_retrieve i t = Some (r, s') \<or> commit_cached i t = Some (r, s')"
    by (auto simp: paxos_commit_def bind_Some_iff split: if_splits)
  moreover have "log_step s t" by (rule upd_instance_step [OF t]) (auto simp: same_decree_def)
  ultimately show ?thesis
    by (auto dest!: paxos_retrieve_effect intro: sends_only_step commit_cached_step log_step_trans)
qed

lemma proposer_commit_step:
  assumes "proposer_commit i s = Some (r, s')"
  shows "log_step s s'"
proof -
  from assms obtain t c u where
    t: "upd_instance i (\<lambda>x. x\<lparr>pi_hdr := (pi_hdr x)\<lparr>ph_opcode := OP_COMMIT\<rparr>\<rparr>) s = Some t"
    and u: "paxos_broadcast_instance i t = Some (c, u)"
    and rest: "(if c \<noteq> 0 then Some (c, u) else paxos_commit i u) = Some (r, s')"
    by (simp add: proposer_commit_def bind_Some_iff split del: if_split) blast
  have "log_step s t" by (rule upd_instance_step [OF t]) (auto simp: same_decree_def)
  moreover have "c = 0 \<and> log_step t u" using paxos_broadcast_instance_effect [OF u] by (auto intro: sends_only_step)
  moreover have "log_step u s'" using rest calculation paxos_commit_step by auto
  ultimately show ?thesis using log_step_trans by blast
qed

lemma proposer_decree_step:
  assumes "proposer_decree i s = Some (r, s')" "log_inv s \<Longrightarrow> unlisted i s"
  shows "log_step s s'"
proof (rule log_stepI)
  assume inv: "log_inv s"
  from assms(1) obtain n t u c v where "next_instance s = Some n"
    and t: "upd_instance i (\<lambda>x. instance_init_metadata (x\<lparr>pi_hdr := header_init s OP_DECREE n\<rparr>)) s = Some t"
    and u: "instance_insert_and_upstart i t = Some u"
    and v: "paxos_broadcast_instance i u = Some (c, v)"
    and rest: "(if c \<noteq> 0 then Some (c, v) else iheap v i \<bind>
      (\<lambda>inst. if pi_votes inst \<ge> majority v then proposer_commit i v else Some (0, v))) = Some (r, s')"
    by (simp add: proposer_decree_def bind_Some_iff split del: if_split) blast
  note st = upd_unlisted_step [OF t assms(2) [OF inv]]
  have "log_step s u" by (rule log_step_trans [OF st(1) insert_upstart_step [OF u st(2)]])
  moreover have "c = 0 \<and> log_step u v" using paxos_broadcast_instance_effect [OF v] by (auto intro: sends_only_step)
  moreover have "log_step v s'" using rest calculation by (auto simp: bind_Some_iff intro: proposer_commit_step split: if_splits)
  ultimately show "log_step s s'" using log_step_trans by blast
qed

lemma proposer_ack_accept_step:
  assumes "proposer_ack_accept hdr s = Some (r, s')"
  shows "log_step s s'"
proof -
  from assms obtain i t x where t: "upd_instance i (\<lambda>x. x\<lparr>pi_votes := pi_votes x + 1\<rparr>) s = Some t"
    and "s' = t \<or> proposer_commit i t = Some (r, s')"
    by (auto simp: proposer_ack_accept_def bind_Some_iff split: if_splits)
  moreover have "log_step s t" by (rule upd_instance_step [OF t]) (auto simp: same_decree_def)
  ultimately show ?thesis by (auto intro: proposer_commit_step log_step_trans)
qed

subsection \<open>Promises\<close>

text \<open>
  \<open>glb_at n s g\<close>: \<open>g\<close> is numbered at most \<open>n\<close>, and what follows it is numbered above \<open>n\<close>.
\<close>

definition glb_at :: "paxid \<Rightarrow> paxos_session \<Rightarrow> iref \<Rightarrow> bool" where
  "glb_at n s g \<longleftrightarrow> (\<exists>y nx. iheap s g = Some y \<and> ph_inum (pi_hdr y) \<le> n \<and> ilist_next s g = Some nx \<and>
     (case nx of None \<Rightarrow> True | Some j \<Rightarrow> \<exists>z. iheap s j = Some z \<and> n < ph_inum (pi_hdr z)))"

lemma glb_walk_at:
  assumes "glb_walk prev it n s = Some (Some g)"
    "\<And>p. prev = Some p \<Longrightarrow> ilist_next s p = Some it \<and> (\<exists>y. iheap s p = Some y \<and> ph_inum (pi_hdr y) \<le> n)"
  shows "glb_at n s g"
  using assms
proof (induction prev it n s "Some g" rule: glb_walk.raw_induct [rotated, consumes 1, case_names step])
  case (step walk prev it n s)
  show ?case
  proof (cases it)
    case None
    with step(2,3) show ?thesis by (auto simp: glb_at_def)
  next
    case (Some i)
    with step(2) obtain x where x: "iheap s i = Some x" by (auto simp: bind_Some_iff)
    show ?thesis
    proof (cases "n < ph_inum (pi_hdr x)")
      case True
      with step(2,3) Some x show ?thesis by (fastforce simp: glb_at_def)
    next
      case False
      with step(2) Some x obtain nx where nx: "ilist_next s i = Some nx" and "walk it nx n s = Some (Some g)"
        by (auto simp: bind_Some_iff)
      from step(1) [OF this(2)] Some x nx False show ?thesis by auto
    qed
  qed
qed

lemma get_instance_glb_at: "get_instance_glb it n s = Some (Some g) \<Longrightarrow> glb_at n s g"
  unfolding get_instance_glb_def by (erule glb_walk_at) simp

lemma ordered_mid_insert:
  assumes "ordered paxid_compare idf (ys @ g # zs)" "idf g = Some m" "idf i = Some n" "m < n"
    "zs \<noteq> [] \<Longrightarrow> n < the (idf (hd zs))"
  shows "ordered paxid_compare idf (ys @ g # i # zs)"
proof -
  have "n < the (idf z)" if "z \<in> set zs" for z
    using assms(1,5) that by (cases zs) (auto simp: ordered_def sorted_wrt_append intro: order_less_trans)
  moreover have "the (idf y) < n" if "y \<in> set ys" for y
    using assms(1,2,4) that by (auto simp: ordered_def sorted_wrt_append intro: order_less_trans)
  ultimately show ?thesis using assms(1-4) by (auto simp: ordered_def sorted_wrt_append)
qed

lemma glb_at_hd:
  assumes "glb_at n s g" "ilist s = ys @ g # zs" "distinct (ilist s)"
  shows "zs \<noteq> [] \<Longrightarrow> n < the (inum_of s (hd zs))"
proof -
  assume "zs \<noteq> []"
  moreover have "ilist_next s g = Some (opt_hd zs)"
    using assms by (intro ilist_next_mid [of s ys]) (auto simp: glb_at_def)
  ultimately show ?thesis using assms(1) by (cases zs) (auto simp: glb_at_def inum_of_def)
qed

lemma insert_after_step:
  assumes "ilist_insert_after g i s = Some s'" "unlisted i s" "glb_at n s g"
    "inum_of s i = Some n" "\<And>y. iheap s g = Some y \<Longrightarrow> ph_inum (pi_hdr y) < n"
  shows "log_step s s'"
proof (rule log_step_wfI)
  assume wf: "log_wf s" and ne: "\<not> ended s"
  from assms(1) have g: "g \<in> set (ilist s)" and s': "s' = s\<lparr>ilist := insert_after (ilist s) g i\<rparr>"
    by (auto simp: ilist_insert_after_def split: if_splits)
  from wf have d: "distinct (ilist s)" by (simp add: log_wf_def)
  from g obtain ys zs where yz: "ilist s = ys @ g # zs" by (auto simp: in_set_conv_decomp)
  with d have ins: "insert_after (ilist s) g i = ys @ g # i # zs" by (simp add: insert_after_mid)
  from assms(3) obtain y where y: "iheap s g = Some y" by (auto simp: glb_at_def)
  have "ordered paxid_compare (inum_of s) (ys @ g # i # zs)"
    using wf yz y assms(4,5) glb_at_hd [OF assms(3) yz d]
    by (intro ordered_mid_insert [where m = "ph_inum (pi_hdr y)" and n = n]) (auto simp: log_wf_def inum_of_def)
  moreover have "inum_of s' = inum_of s" using s' by (simp add: inum_of_def [abs_def])
  ultimately show "log_wf s' \<and> log_kept s s'"
    using wf assms(2) ne yz ins s' by (auto simp: log_wf_def log_kept_def unlisted_def)
qed (use assms(1) in \<open>auto simp: ilist_insert_after_def split: if_splits\<close>)

text \<open>Replacing an uncommitted instance by another one of its number.\<close>

lemma replace_step:
  assumes ins: "ilist_insert_after g i s = Some t" and rem: "ilist_remove g t = Some s'"
    and "unlisted i s" "inum_of s i = inum_of s g" "\<And>y. iheap s g = Some y \<Longrightarrow> \<not> pi_committed y"
  shows "log_step s s'" "log_inv s \<Longrightarrow> unlisted g s'"
proof -
  from ins have g: "g \<in> set (ilist s)" and t: "t = s\<lparr>ilist := insert_after (ilist s) g i\<rparr>"
    by (auto simp: ilist_insert_after_def split: if_splits)
  from g obtain ys zs where yz: "ilist s = ys @ g # zs" "g \<notin> set ys" by (metis split_list_first)
  then have s': "ilist s' = ys @ i # zs" "idefer s' = idefer s" "iheap s' = iheap s" "brk s' = brk s" "ended s' = ended s"
    using rem by (auto simp: t ilist_remove_def insert_after_mid remove1_append split: if_splits)
  show "log_step s s'"
  proof (rule log_step_wfI)
    assume wf: "log_wf s" and ne: "\<not> ended s"
    have "inum_of s' = inum_of s" using s' by (simp add: inum_of_def [abs_def])
    moreover have "ordered paxid_compare (inum_of s) (ys @ i # zs)"
      using wf yz assms(4) by (auto simp: log_wf_def ordered_def sorted_wrt_append)
    ultimately show "log_wf s' \<and> log_kept s s'"
      using wf assms(3,5) ne yz s' by (auto simp: log_wf_def log_kept_def unlisted_def)
  qed (use s' in simp_all)
  show "unlisted g s'" if "log_inv s"
    using that assms(3) yz s' by (auto simp: log_inv_def log_wf_def unlisted_def)
qed

lemma merge_vote_step:
  assumes "merge_vote i g s = Some ((inst, it), s')" "unlisted i s" "glb_at n s g" "inum_of s i = Some n"
  shows "log_step s s' \<and> (log_inv s \<longrightarrow> (\<forall>j. inst = Some j \<longrightarrow> unlisted j s'))"
proof -
  from assms(1) obtain x y where x: "iheap s i = Some x" and y: "iheap s g = Some y"
    by (auto simp: merge_vote_def bind_Some_iff)
  then have n: "ph_inum (pi_hdr x) = n" "ph_inum (pi_hdr y) \<le> n"
    using assms(3,4) by (auto simp: inum_of_def glb_at_def)
  show ?thesis
  proof (cases "ph_inum (pi_hdr y) < ph_inum (pi_hdr x)")
    case True
    with assms(1) x y obtain t where t: "ilist_insert_after g i s = Some t"
      and s': "(if ph_inum (pi_hdr x) = ihole t then t\<lparr>istart := Some i\<rparr> else t) = s'" and "inst = None"
      by (simp add: merge_vote_def bind_Some_iff Let_def split del: if_split) blast
    have "log_step s t" using insert_after_step [OF t assms(2-4)] True n y by simp
    moreover have "log_step t s'" using s' by (auto intro: log_same_step simp: log_same_def split: if_splits)
    ultimately show ?thesis using \<open>inst = None\<close> by (auto intro: log_step_trans)
  next
    case False
    show ?thesis
    proof (cases "\<not> pi_committed y \<and> ph_ballot (pi_hdr y) < ph_ballot (pi_hdr x)")
      case True
      with False assms(1) x y obtain t where t: "ilist_insert_after g i s = Some t" "ilist_remove g t = Some s'"
        and "inst = Some g" by (auto simp: merge_vote_def bind_Some_iff swap_def)
      moreover have "inum_of s i = inum_of s g" using x y n False by (simp add: inum_of_def)
      ultimately show ?thesis using replace_step [OF t assms(2)] True y by simp
    next
      case no: False
      with False assms x y show ?thesis by (auto simp: merge_vote_def)
    qed
  qed
qed

lemma promise_vote_step:
  assumes "promise_vote p (inst, it) s = Some ((inst', it'), s')"
    "\<And>j. log_inv s \<Longrightarrow> inst = Some j \<Longrightarrow> unlisted j s"
  shows "log_step s s' \<and> (log_inv s \<longrightarrow> (\<forall>j. inst' = Some j \<longrightarrow> unlisted j s'))"
proof -
  obtain i t where it: "scratch_instance inst s = (i, t)" by (cases "scratch_instance inst s")
  from assms(1) it obtain u g it2 and v :: paxos_instance where
    u: "upd_instance i (\<lambda>_. v\<lparr>pi_committed := False, pi_cached := False, pi_learned := False\<rparr>) t = Some u"
    and g: "get_instance_glb it (ph_inum (pi_hdr v)) u = Some (Some g)"
    and m: "merge_vote i g u = Some ((inst', it2), s')"
    by (auto simp: promise_vote_def bind_Some_iff)
  have a: "log_step s t \<and> (log_inv s \<longrightarrow> unlisted i t)"
  proof (cases inst)
    case None
    with it have "alloc_instance zero_instance s = (i, t)" by (simp add: scratch_instance_def)
    from alloc_instance_step(1,2) [OF this] show ?thesis by blast
  next
    case (Some j)
    with it have "j = i" "t = s" by (simp_all add: scratch_instance_def)
    with Some assms(2) show ?thesis by blast
  qed
  show ?thesis
  proof (cases "log_inv s")
    case True
    with a have a: "log_step s t" "unlisted i t" by blast+
    note st = upd_unlisted_step [OF u a(2)]
    have "inum_of u i = Some (ph_inum (pi_hdr v))"
      using u by (auto simp: upd_instance_def bind_Some_iff inum_of_def)
    from merge_vote_step [OF m st(2) get_instance_glb_at [OF g] this] True
      log_step_trans [OF a(1) st(1)] log_step_inv show ?thesis
      by (blast intro: log_step_trans)
  qed (auto intro: log_stepI)
qed

lemma promise_votes_step:
  assumes "promise_votes ps (inst, it) s = Some s'" "\<And>j. log_inv s \<Longrightarrow> inst = Some j \<Longrightarrow> unlisted j s"
  shows "log_step s s'"
  using assms
proof (induction ps arbitrary: inst it s)
  case (Cons p ps)
  then obtain inst' it' t where t: "promise_vote p (inst, it) s = Some ((inst', it'), t)"
    and rest: "promise_votes ps (inst', it') t = Some s'"
    by (auto simp: bind_Some_iff)
  show ?case
  proof (rule log_stepI)
    assume inv: "log_inv s"
    have st: "log_step s t \<and> (\<forall>j. inst' = Some j \<longrightarrow> unlisted j t)"
      using promise_vote_step [OF t Cons.prems(2)] inv by blast
    then have "log_step t s'" by (intro Cons.IH [OF rest]) blast
    with st show "log_step s s'" by (blast intro: log_step_trans)
  qed
qed simp

lemma redecree_step:
  assumes "redecree i s = Some (r, s')" "\<And>x. iheap s i = Some x \<Longrightarrow> \<not> pi_committed x"
  shows "log_step s s' \<and> r = 0"
proof -
  from assms(1) obtain t where t: "upd_instance i (\<lambda>x. instance_init_metadata
      (x\<lparr>pi_hdr := header_init s OP_DECREE (ph_inum (pi_hdr x))\<rparr>)) s = Some t"
    and b: "paxos_broadcast_instance i t = Some (r, s')" by (auto simp: redecree_def bind_Some_iff)
  have "log_step s t"
    using assms(2) by (intro upd_instance_step [OF t]) (auto simp: same_decree_def header_init_def instance_init_metadata_def)
  with paxos_broadcast_instance_effect [OF b] show ?thesis by (auto intro: sends_only_step log_step_trans)
qed

lemma glb_at_cong:
  assumes "glb_at n s g" "g \<in> set (ilist s)" "ilist t = ilist s" "\<And>j. j \<in> set (ilist s) \<Longrightarrow> iheap t j = iheap s j"
  shows "glb_at n t g"
proof -
  from assms(1,2) obtain y where y: "iheap s g = Some y" "ph_inum (pi_hdr y) \<le> n"
    "case succ_in (ilist s) g of None \<Rightarrow> True | Some j \<Rightarrow> \<exists>z. iheap s j = Some z \<and> n < ph_inum (pi_hdr z)"
    by (auto simp: glb_at_def ilist_next_def)
  have "iheap t j = iheap s j" if "succ_in (ilist s) g = Some j" for j
    using succ_in_mem [OF that] by (rule assms(4))
  then show ?thesis using y assms(2-4) by (auto simp: glb_at_def ilist_next_def split: option.splits)
qed

lemma null_decree_step:
  assumes "null_decree g n s = Some (j, s')" "glb_at n s g" "\<And>y. iheap s g = Some y \<Longrightarrow> ph_inum (pi_hdr y) < n"
  shows "log_step s s'" "\<And>x. iheap s' j = Some x \<Longrightarrow> \<not> pi_committed x"
proof -
  let ?s = "s\<lparr>req_id := req_id s + 1\<rparr>"
  let ?x = "zero_instance\<lparr>pi_hdr := zero_header\<lparr>ph_inum := n\<rparr>,
    pi_val := \<lparr>pv_dkind = DEC_NULL, pv_reqid = PPair (self_id ?s) (req_id ?s), pv_extra = 0\<rparr>\<rparr>"
  obtain i t where it: "alloc_instance ?x ?s = (i, t)" by (cases "alloc_instance ?x ?s")
  with assms(1) obtain u where u: "ilist_insert_after g i t = Some u" and j: "j = i"
    and s': "(if n = ihole u then u\<lparr>istart := Some i\<rparr> else u) = s'"
    by (simp add: null_decree_def bind_Some_iff split del: if_split) blast
  note al = alloc_instance_step [OF it]
  have u': "ilist t = ilist s" "iheap u = iheap t" "g \<in> set (ilist s)" "i = brk s" "iheap t = (iheap s)(brk s \<mapsto> ?x)"
    using it u by (auto simp: alloc_instance_def ilist_insert_after_def split: if_splits)
  show "log_step s s'"
  proof (rule log_stepI)
    assume inv: "log_inv s"
    show "log_step s s'"
    proof (cases "ended s'")
      case False
      have "ended t = ended s" using it by (auto simp: alloc_instance_def)
      moreover have "ended u = ended t" using u by (auto simp: ilist_insert_after_def split: if_splits)
      moreover have "ended s' = ended u" using s' by (auto split: if_splits)
      ultimately have "ended s = ended s'" by simp
      with False inv have wf: "log_wf s" by (simp add: log_inv_def)
      have lt: "k \<noteq> brk s" if "k \<in> set (ilist s)" for k using wf that by (auto simp: log_wf_def)
      have inv': "log_inv ?s" using inv by (simp add: log_inv_def log_wf_def inum_of_def [abs_def])
      have "glb_at n t g" using lt u' by (intro glb_at_cong [OF assms(2)]) auto
      moreover have "inum_of t i = Some n" using u'(4,5) by (simp add: inum_of_def)
      moreover have "iheap t g = iheap s g" using lt u' by simp
      ultimately have "log_step t u"
        using al(2) [OF inv'] assms(3) by (intro insert_after_step [OF u]) auto
      moreover have "log_step s ?s" "log_step u s'"
        using s' by (auto intro!: log_same_step simp: log_same_def)
      ultimately show ?thesis using al(1) by (blast intro: log_step_trans)
    qed (rule log_step_ended)
  qed
  show "\<not> pi_committed x" if "iheap s' j = Some x" for x
    using that s' u' j by (auto simp: zero_instance_def split: if_splits)
qed

lemma redecree_loop_step: "redecree_loop it n s = Some rs \<Longrightarrow> log_step s (snd rs)"
proof (induction it n s rs rule: redecree_loop.raw_induct [rotated, consumes 1, case_names step])
  case (step loop it n s rs)
  from step(2) obtain g x where g: "get_instance_glb it n s = Some (Some g)" and x: "iheap s g = Some x"
    by (auto simp: bind_Some_iff)
  have glb: "glb_at n s g" by (rule get_instance_glb_at [OF g])
  show ?case
  proof (cases "ph_inum (pi_hdr x) < n")
    case True
    show ?thesis
    proof (cases "Some g = ilist_last s")
      case False
      with True step(2) g x obtain j t r u where t: "null_decree g n s = Some (j, t)"
        and u: "redecree j t = Some (r, u)"
        and rest: "(if r \<noteq> 0 then Some (r, u) else loop (Some g) (n + 1) u) = Some rs"
        by (simp add: bind_Some_iff split del: if_split) blast
      have 1: "log_step s t" using True x by (intro null_decree_step(1) [OF t glb]) auto
      have 2: "log_step t u \<and> r = 0"
        using True x null_decree_step(2) [OF t glb] by (intro redecree_step [OF u]) auto
      with rest have "loop (Some g) (n + 1) u = Some rs" by simp
      from step(1) [OF this] 1 2 show ?thesis by (blast intro: log_step_trans)
    qed (use True step(2) g x in \<open>auto simp: bind_Some_iff\<close>)
  next
    case False
    show ?thesis
    proof (cases "pi_committed x")
      case True
      with False step(2) g x have "loop (Some g) (n + 1) s = Some rs" by (simp add: bind_Some_iff)
      then show ?thesis by (rule step(1))
    next
      case nc: False
      with False step(2) g x obtain r u where u: "redecree g s = Some (r, u)"
        and rest: "(if r \<noteq> 0 then Some (r, u) else loop (Some g) (n + 1) u) = Some rs"
        by (simp add: bind_Some_iff split del: if_split) blast
      have 2: "log_step s u \<and> r = 0" using nc x by (intro redecree_step [OF u]) auto
      with rest have "loop (Some g) (n + 1) u = Some rs" by simp
      from step(1) [OF this] 2 show ?thesis by (blast intro: log_step_trans)
    qed
  qed
qed

lemma decree_deferred_step: "decree_deferred s = Some rs \<Longrightarrow> log_step s (snd rs)"
proof (induction s rs rule: decree_deferred.raw_induct [rotated, consumes 1, case_names step])
  case (step loop s rs)
  show ?case
  proof (cases "idefer s")
    case (Cons i rest)
    with step(2) obtain r t where t: "proposer_decree i (s\<lparr>idefer := rest\<rparr>) = Some (r, t)"
      and loop: "(if r \<noteq> 0 then Some (r, t) else loop t) = Some rs"
      by (simp add: bind_Some_iff split del: if_split) blast
    show ?thesis
    proof (rule log_stepI)
      assume inv: "log_inv s"
      have "log_step s (s\<lparr>idefer := rest\<rparr>)"
        using Cons by (intro log_step_wfI) (auto simp: log_wf_def log_kept_def inum_of_def [abs_def])
      moreover have "log_step (s\<lparr>idefer := rest\<rparr>) t"
        using inv Cons by (intro proposer_decree_step [OF t]) (auto simp: log_inv_def log_wf_def unlisted_def)
      moreover have "log_step t (snd rs)"
        using loop step(1) [of t] by (cases "r = 0") auto
      ultimately show "log_step s (snd rs)" by (blast intro: log_step_trans)
    qed
  qed (use step(2) in auto)
qed

lemma proposer_ack_promise_step:
  assumes "proposer_ack_promise hdr o1 s = Some (r, s')"
  shows "log_step s s'"
proof (cases "s' = s")
  case False
  with assms obtain p ps t where "prep s = Some p" and t: "promise_votes ps (None, pp_istart p) s = Some t"
    and rest: "(let p = p\<lparr>pp_acks := pp_acks p + 1\<rparr>; t = t\<lparr>prep := Some p\<rparr> in
      if pp_acks p < majority t then Some (0, t) else end_prepare p t) = Some (r, s')"
    by (cases "prep s") (auto simp: proposer_ack_promise_def bind_Some_iff Let_def split: if_splits)
  have 1: "log_step s t" by (rule promise_votes_step [OF t]) simp
  let ?p = "p\<lparr>pp_acks := pp_acks p + 1\<rparr>"
  let ?t = "t\<lparr>prep := Some ?p\<rparr>"
  have 2: "log_step t ?t" by (rule log_same_step) (simp add: log_same_def)
  have "log_step ?t s'"
  proof (cases "pp_acks ?p < majority ?t")
    case False
    let ?u = "?t\<lparr>ballot := PPair (pid (pp_ballot ?p)) (gen (pp_ballot ?p))\<rparr>"
    from False rest obtain c v where v: "redecree_loop (pp_istart ?p) (ihole ?u) ?u = Some (c, v)"
      and d: "(if c \<noteq> 0 then Some (c, v) else decree_deferred (v\<lparr>prep := None\<rparr>)) = Some (r, s')"
      by (simp add: end_prepare_def bind_Some_iff Let_def split del: if_split) blast
    have "log_step ?t ?u" "log_step v (v\<lparr>prep := None\<rparr>)" by (rule log_same_step, simp add: log_same_def)+
    moreover have "log_step ?u v" using redecree_loop_step [OF v] by simp
    moreover have "s' = v \<or> log_step (v\<lparr>prep := None\<rparr>) s'"
      using d decree_deferred_step [of "v\<lparr>prep := None\<rparr>"] by (auto split: if_splits)
    ultimately show ?thesis by (blast intro: log_step_trans)
  qed (use rest in simp)
  with 1 2 show ?thesis by (blast intro: log_step_trans)
qed simp

end
