(* ===== verification/Log_Safety.thy ===== *)
theory Log_Safety
  imports Log_Invariant
begin

section \<open>Every handler keeps the log\<close>

subsection \<open>Steps outside the log\<close>

lemma upd_acceptor_same: "upd_acceptor a f s = Some s' \<Longrightarrow> log_same s s'"
  by (auto simp: upd_acceptor_def bind_Some_iff log_same_def)

lemma emit_same [simp]: "log_same s (emit e t) \<longleftrightarrow> log_same s t"
  by (simp add: log_same_def emit_def)

lemma peer_destroy_same [simp]: "log_same s (paxos_peer_destroy p t) \<longleftrightarrow> log_same s t"
  by (simp add: paxos_peer_destroy_def split: option.splits)

lemma attach_peer_same: "attach_peer chan a s = Some (p, s') \<Longrightarrow> log_same s s'"
  by (auto simp: attach_peer_def paxos_peer_init_def bind_Some_iff upd_acceptor_def log_same_def emit_def
      split: option.splits)

lemma reconnect_same: "reconnect f d acc s = Some (r, s') \<Longrightarrow> log_same s s'"
  by (auto simp: reconnect_def continuation_new_def state_connect_def continuation_bind_def Let_def
      log_same_def emit_def)

lemma cache_request_same: "cache_request req s = Some s' \<Longrightarrow> log_same s s'"
  by (auto simp: cache_request_def bind_Some_iff log_same_def)

lemma hello_attach_frame:
  assumes "hello_attach src a s = Some t"
  shows "\<exists>h n p q. t = s\<lparr>aheap := h, live_count := n, prep := p, proposer := q\<rparr>"
proof -
  from assms obtain v and acc pacc :: paxos_acceptor where v: "upd_acceptor a (\<lambda>x. x\<lparr>pa_peer := src\<rparr>) s = Some v"
    and t: "(if pa_paxid acc < pa_paxid pacc then is_proposer (v\<lparr>live_count := live_count v + 1\<rparr>) \<bind>
      (\<lambda>isp. let s = (if isp then v\<lparr>live_count := live_count v + 1, prep := None\<rparr> else v\<lparr>live_count := live_count v + 1\<rparr>)
        in Some (s\<lparr>proposer := Some a\<rparr>)) else Some (v\<lparr>live_count := live_count v + 1\<rparr>)) = Some t"
    by (simp add: hello_attach_def bind_Some_iff [of "upd_acceptor _ _ _"] bind_Some_iff [of "aheap _ _"]
        bind_Some_iff [of "proposer _"] Let_def split del: if_split) blast
  from v obtain h where h: "v = s\<lparr>aheap := h\<rparr>" by (auto simp: upd_acceptor_def bind_Some_iff)
  let ?n = "live_count s + 1"
  from t h have "t = s\<lparr>aheap := h, live_count := ?n\<rparr> \<or> t = s\<lparr>aheap := h, live_count := ?n, proposer := Some a\<rparr> \<or>
      t = s\<lparr>aheap := h, live_count := ?n, prep := None, proposer := Some a\<rparr>"
    by (auto simp: bind_Some_iff Let_def split: if_splits)
  moreover have "s\<lparr>aheap := h, live_count := ?n\<rparr> = s\<lparr>aheap := h, live_count := ?n, prep := prep s, proposer := proposer s\<rparr>"
    "s\<lparr>aheap := h, live_count := ?n, proposer := Some a\<rparr> = s\<lparr>aheap := h, live_count := ?n, prep := prep s, proposer := Some a\<rparr>"
    by simp_all
  ultimately show ?thesis by blast
qed

lemma hello_attach_same: "hello_attach src a s = Some s' \<Longrightarrow> log_same s s'"
  by (auto simp: log_same_def dest!: hello_attach_frame)

lemma hello_switch_same: "hello_switch src a s = Some s' \<Longrightarrow> log_same s s'"
  by (auto simp: hello_switch_def bind_Some_iff dest!: upd_acceptor_same
      intro: log_same_trans [of s "paxos_peer_destroy p s" for p])

lemma hello_ballot_same: "hello_ballot hdr s = Some s' \<Longrightarrow> log_same s s'"
  by (auto simp: hello_ballot_def bind_Some_iff log_same_def split: if_splits)

lemma hello_defer_same: "hello_defer src n s = Some (r, s') \<Longrightarrow> log_same s s'"
  by (auto simp: hello_defer_def alloc_acceptor_def bind_Some_iff log_same_def)

lemma paxos_ack_hello_same: "paxos_ack_hello src hdr s = Some (r, s') \<Longrightarrow> log_same s s'"
proof -
  assume h: "paxos_ack_hello src hdr s = Some (r, s')"
  then obtain isp where isp: "is_proposer s = Some isp" by (auto simp: paxos_ack_hello_def bind_Some_iff)
  show ?thesis
  proof (cases "isp \<and> prep s = None \<and> ph_inum hdr < self_id s")
    case True
    with h isp show ?thesis by (simp add: paxos_ack_hello_def)
  next
    case False
    with h isp obtain found where found: "acceptor_find (paxid_of s) (alist s) (ph_inum hdr) = Some found"
      and rest: "(case found of None \<Rightarrow> hello_defer src (ph_inum hdr) s
        | Some a \<Rightarrow> aheap s a \<bind> (\<lambda>acc. (if pa_peer acc = None then hello_attach src a s
          else if ph_inum hdr < self_id s then hello_switch src a s else Some s) \<bind>
            (\<lambda>s. hello_ballot hdr s \<bind> (\<lambda>s. Some (0, s))))) = Some (r, s')"
      by (simp add: paxos_ack_hello_def bind_Some_iff split del: if_split) blast
    show ?thesis
    proof (cases found)
      case None
      with rest show ?thesis by (auto intro: hello_defer_same)
    next
      case (Some a)
      with rest obtain acc :: paxos_acceptor and t where t: "(if pa_peer acc = None then hello_attach src a s
          else if ph_inum hdr < self_id s then hello_switch src a s else Some s) = Some t"
        and b: "hello_ballot hdr t = Some s'"
        by (auto simp: bind_Some_iff split del: if_split)
      have "log_same s t" using t by (auto dest: hello_attach_same hello_switch_same split: if_splits)
      then show ?thesis using hello_ballot_same [OF b] by (rule log_same_trans)
    qed
  qed
qed

subsection \<open>Deferring and decreeing\<close>

lemma defer_step: "unlisted i s \<Longrightarrow> log_step s (s\<lparr>idefer := idefer s @ [i]\<rparr>)"
  by (rule log_step_wfI) (auto simp: unlisted_def log_wf_def log_kept_def inum_of_def [abs_def])

lemma decree_or_defer_step:
  assumes "(if prep s \<noteq> None then Some (0, s\<lparr>idefer := idefer s @ [i]\<rparr>) else proposer_decree i s) = Some (r, s')"
    "unlisted i s"
  shows "log_step s s'"
  using assms defer_step proposer_decree_step by (auto split: if_splits)

lemma proposer_decree_part_step:
  assumes "proposer_decree_part a f s = Some (r, s')"
  shows "log_step s s'"
proof (rule log_stepI)
  assume inv: "log_inv s"
  let ?s = "s\<lparr>req_id := req_id s + 1\<rparr>"
  from assms obtain x where rest: "(let (i, s) = alloc_instance x ?s in
      if prep s \<noteq> None then Some (0, s\<lparr>idefer := idefer s @ [i]\<rparr>) else proposer_decree i s) = Some (r, s')"
    by (auto simp: proposer_decree_part_def proposer_decree_part_with_def bind_Some_iff Let_def)
  obtain i t where it: "alloc_instance x ?s = (i, t)" by (cases "alloc_instance x ?s")
  have inv': "log_inv ?s" and 1: "log_step s ?s"
    using inv by (auto simp: log_inv_def log_wf_def inum_of_def [abs_def] log_same_def intro!: log_same_step)
  note al = alloc_instance_step [OF it]
  have "log_step t s'" using rest it al(2) [OF inv'] by (auto intro: decree_or_defer_step)
  with 1 al(1) show "log_step s s'" by (blast intro: log_step_trans)
qed

lemma proposer_decree_request_step:
  assumes "proposer_decree_request req s = Some (r, s')"
  shows "log_step s s'"
proof (rule log_stepI)
  assume inv: "log_inv s"
  obtain i t where it: "alloc_instance (zero_instance\<lparr>pi_val := pr_val req\<rparr>) s = (i, t)"
    by (cases "alloc_instance (zero_instance\<lparr>pi_val := pr_val req\<rparr>) s")
  note al = alloc_instance_step [OF it]
  have "log_step t s'" using assms it al(2) [OF inv]
    by (intro decree_or_defer_step [of t i r]) (auto simp: proposer_decree_request_def)
  with al(1) show "log_step s s'" by (rule log_step_trans)
qed

subsection \<open>Acceptor handlers\<close>

lemma acceptor_ack_prepare_step:
  assumes "acceptor_ack_prepare src hdr s = Some (r, s')"
  shows "log_step s s'"
proof -
  from assms consider "acceptor_redirect src hdr s = Some (r, s')" | "acceptor_promise hdr s = Some (r, s')"
    by (auto simp: acceptor_ack_prepare_def bind_Some_iff split: if_splits)
  then show ?thesis
  proof cases
    case 1
    then show ?thesis by (auto dest: acceptor_redirect_effect intro: sends_only_step)
  next
    case 2
    let ?s = "s\<lparr>ballot := PPair (pid (ph_ballot hdr)) (gen (ph_ballot hdr)), gen_high := gen (ph_ballot hdr)\<rparr>"
    have "log_step s ?s" by (rule log_same_step) (simp add: log_same_def)
    moreover from 2 have "log_step ?s s'"
      by (auto simp: acceptor_promise_def bind_Some_iff Let_def dest!: paxos_send_to_proposer_effect intro: sends_only_step)
    ultimately show ?thesis by (rule log_step_trans)
  qed
qed

lemma decree_new_step: "decree_new hdr val s = Some s' \<Longrightarrow> log_step s s'"
proof (rule log_stepI)
  assume h: "decree_new hdr val s = Some s'" and inv: "log_inv s"
  obtain i t where it: "alloc_instance (zero_instance\<lparr>pi_hdr := hdr, pi_val := val\<rparr>) s = (i, t)"
    by (cases "alloc_instance (zero_instance\<lparr>pi_hdr := hdr, pi_val := val\<rparr>) s")
  note al = alloc_instance_step [OF it]
  have "log_step t s'" using h it al(2) [OF inv] by (intro insert_upstart_step) (auto simp: decree_new_def)
  with al(1) show "log_step s s'" by (rule log_step_trans)
qed

lemma find_inum:
  assumes "instance_find (inum_of s) (ilist s) n = Some (Some i)" "log_wf s"
  shows "i \<in> set (ilist s) \<and> inum_of s i = Some n"
  using assms instances.find_Some [of "inum_of s" "ilist s" n i] by (simp add: log_wf_def)

lemma decree_found_step:
  assumes "decree_found hdr val i s = Some (r, s')" "instance_find (inum_of s) (ilist s) (ph_inum hdr) = Some (Some i)"
  shows "log_step s s'"
proof -
  from assms(1) obtain x where x: "iheap s i = Some x" by (auto simp: decree_found_def bind_Some_iff)
  show ?thesis
  proof (cases "pi_committed x \<or> ph_ballot hdr < ph_ballot (pi_hdr x)")
    case True
    with assms(1) x have "s' = s \<or> acceptor_accept hdr s = Some (r, s')"
      by (auto simp: decree_found_def bind_Some_iff split: if_splits)
    then show ?thesis by (auto dest: acceptor_accept_effect intro: sends_only_step)
  next
    case False
    with assms(1) x obtain t where t: "upd_instance i (\<lambda>x. x\<lparr>pi_hdr := hdr, pi_val := val\<rparr>) s = Some t"
      and a: "acceptor_accept hdr t = Some (r, s')" by (auto simp: decree_found_def bind_Some_iff split: if_splits)
    have "log_step s t"
    proof (rule log_stepI)
      assume inv: "log_inv s"
      show "log_step s t"
      proof (cases "ended s")
        case True
        then show ?thesis using upd_instance_lists [OF t] by (intro log_step_ended) simp
      next
        case ne: False
        with inv find_inum [OF assms(2)] x have "ph_inum (pi_hdr x) = ph_inum hdr"
          by (auto simp: log_inv_def inum_of_def)
        with False x show ?thesis by (intro upd_instance_step [OF t]) (auto simp: same_decree_def)
      qed
    qed
    with acceptor_accept_effect [OF a] show ?thesis by (auto intro: sends_only_step log_step_trans)
  qed
qed

lemma acceptor_ack_decree_step:
  assumes "acceptor_ack_decree hdr o1 s = Some (r, s')"
  shows "log_step s s'"
proof (cases "s' = s")
  case False
  with assms have "ballot_compare (ph_ballot hdr) (ballot s) = 0"
    by (auto simp: acceptor_ack_decree_def split: if_splits)
  with assms obtain val rejected where
    c: "(if rejected then acceptor_reject hdr s else instance_find (inum_of s) (ilist s) (ph_inum hdr) \<bind>
      (\<lambda>found. case found of None \<Rightarrow> decree_new hdr val s \<bind> (\<lambda>s. acceptor_accept hdr s)
        | Some i \<Rightarrow> decree_found hdr val i s)) = Some (r, s')"
    by (simp add: acceptor_ack_decree_def bind_Some_iff if_None_iff split del: if_split) blast
  show ?thesis
  proof (cases rejected)
    case True
    with c show ?thesis by (auto dest: acceptor_reject_effect intro: sends_only_step)
  next
    case False
    with c obtain found where f: "instance_find (inum_of s) (ilist s) (ph_inum hdr) = Some found"
      and rest: "(case found of None \<Rightarrow> decree_new hdr val s \<bind> (\<lambda>s. acceptor_accept hdr s)
        | Some i \<Rightarrow> decree_found hdr val i s) = Some (r, s')" by (auto simp: bind_Some_iff)
    show ?thesis
    proof (cases found)
      case None
      with rest obtain t where "decree_new hdr val s = Some t" "acceptor_accept hdr t = Some (r, s')"
        by (auto simp: bind_Some_iff)
      then show ?thesis
        by (auto dest!: acceptor_accept_effect decree_new_step intro: sends_only_step log_step_trans)
    next
      case (Some i)
      with rest f show ?thesis by (auto intro: decree_found_step)
    qed
  qed
qed simp

lemma new_instance_step:
  assumes "alloc_instance x s = (i, t)" "instance_insert_and_upstart i t = Some s'"
  shows "log_step s s'"
proof (rule log_stepI)
  assume "log_inv s"
  note al = alloc_instance_step [OF assms(1)]
  with \<open>log_inv s\<close> have "log_step t s'" by (intro insert_upstart_step [OF assms(2)])
  with al(1) show "log_step s s'" by (rule log_step_trans)
qed

text \<open>The end of a commit: the value is set unless the instance is committed already.\<close>

lemma commit_value_step:
  assumes "iheap s i = Some x" "\<not> pi_committed x" "upd_instance i (\<lambda>x. x\<lparr>pi_val := val\<rparr>) s = Some t"
    "paxos_commit i t = Some (r, s')"
  shows "log_step s s'"
proof -
  have "log_step s t" using assms(1,2) by (intro upd_instance_step [OF assms(3)]) (auto simp: same_decree_def)
  with paxos_commit_step [OF assms(4)] show ?thesis by (blast intro: log_step_trans)
qed

lemma commit_instance_step:
  assumes "commit_instance hdr s = Some (i, s')"
  shows "log_step s s'"
proof -
  from assms obtain found where f: "instance_find (inum_of s) (ilist s) (ph_inum hdr) = Some found"
    by (auto simp: commit_instance_def bind_Some_iff)
  show ?thesis
  proof (cases found)
    case None
    obtain j t where al: "alloc_instance (zero_instance\<lparr>pi_hdr := hdr\<rparr>) s = (j, t)"
      by (cases "alloc_instance (zero_instance\<lparr>pi_hdr := hdr\<rparr>) s")
    with None f assms have "instance_insert_and_upstart j t = Some s'"
      by (auto simp: commit_instance_def bind_Some_iff)
    with al show ?thesis by (rule new_instance_step)
  qed (use assms f in \<open>simp add: commit_instance_def\<close>)
qed

lemma acceptor_ack_commit_step:
  assumes "acceptor_ack_commit hdr o1 s = Some (r, s')"
  shows "log_step s s'"
proof -
  from assms obtain i t and x :: paxos_instance where t: "commit_instance hdr s = Some (i, t)" and x: "iheap t i = Some x"
    and rest: "(if pi_committed x then Some (0, t) else o1 \<bind> (\<lambda>o1. paxos_value_unpack o1 \<bind>
      (\<lambda>val. upd_instance i (\<lambda>x. x\<lparr>pi_val := val\<rparr>) t \<bind> (\<lambda>s. paxos_commit i s)))) = Some (r, s')"
    by (simp add: acceptor_ack_commit_def bind_Some_iff split del: if_split) blast
  have "log_step t s'"
    using rest commit_value_step [OF x] by (auto simp: bind_Some_iff split: if_splits)
  with commit_instance_step [OF t] show ?thesis by (rule log_step_trans)
qed

lemma recommit_instance_step:
  assumes "recommit_instance hdr found s = Some (i, s')"
    "instance_find (inum_of s) (ilist s) (ph_inum hdr) = Some found"
    "\<And>j x. found = Some j \<Longrightarrow> iheap s j = Some x \<Longrightarrow> \<not> pi_committed x"
  shows "log_step s s'"
proof (cases found)
  case None
  obtain j t where al: "alloc_instance (zero_instance\<lparr>pi_hdr := hdr\<rparr>) s = (j, t)"
    by (cases "alloc_instance (zero_instance\<lparr>pi_hdr := hdr\<rparr>) s")
  with None assms(1) have "instance_insert_and_upstart j t = Some s'"
    by (auto simp: recommit_instance_def bind_Some_iff)
  with al show ?thesis by (rule new_instance_step)
next
  case (Some j)
  with assms(1) have t: "upd_instance j (\<lambda>x. x\<lparr>pi_hdr := hdr\<rparr>) s = Some s'"
    by (auto simp: recommit_instance_def bind_Some_iff)
  show ?thesis
  proof (rule log_stepI)
    assume inv: "log_inv s"
    show "log_step s s'"
    proof (cases "ended s")
      case True
      then show ?thesis using upd_instance_lists [OF t] by (intro log_step_ended) simp
    next
      case False
      with inv assms(2) Some have "inum_of s j = Some (ph_inum hdr)"
        using find_inum by (auto simp: log_inv_def)
      with assms(3) Some show ?thesis
        by (intro upd_instance_step [OF t]) (auto simp: same_decree_def inum_of_def)
    qed
  qed
qed

lemma recommit_instance_uncommitted:
  assumes "recommit_instance hdr found s = Some (i, s')" "iheap s' i = Some x"
    "\<And>j x. found = Some j \<Longrightarrow> iheap s j = Some x \<Longrightarrow> \<not> pi_committed x"
  shows "\<not> pi_committed x"
  using assms
  by (auto simp: recommit_instance_def upd_instance_def alloc_instance_def zero_instance_def bind_Some_iff
      instance_insert_and_upstart_def Let_def split: option.splits if_splits)

lemma acceptor_ack_recommit_step:
  assumes "acceptor_ack_recommit hdr o1 s = Some (r, s')"
  shows "log_step s s'"
proof (cases "s' = s")
  case False
  from assms obtain found finished where f: "instance_find (inum_of s) (ilist s) (ph_inum hdr) = Some found"
    and d: "(case found of None \<Rightarrow> Some False | Some i \<Rightarrow> map_option pi_committed (iheap s i)) = Some finished"
    and rest: "(if finished then Some (0, s) else recommit_instance hdr found s \<bind> (\<lambda>(i, s). o1 \<bind> (\<lambda>o1.
      paxos_value_unpack o1 \<bind> (\<lambda>val. upd_instance i (\<lambda>x. x\<lparr>pi_val := val\<rparr>) s \<bind> (\<lambda>s. paxos_commit i s)))))
      = Some (r, s')"
    by (simp add: acceptor_ack_recommit_def bind_Some_iff split del: if_split) blast
  with False obtain i t val u where t: "recommit_instance hdr found s = Some (i, t)"
    and u: "upd_instance i (\<lambda>x. x\<lparr>pi_val := val\<rparr>) t = Some u" "paxos_commit i u = Some (r, s')" and "\<not> finished"
    by (auto simp: bind_Some_iff split: if_splits)
  then have nc: "\<not> pi_committed x" if "found = Some j" "iheap s j = Some x" for j x
    using that d by auto
  have "log_step s t" by (rule recommit_instance_step [OF t f nc])
  moreover from u obtain x where x: "iheap t i = Some x" by (auto simp: upd_instance_def bind_Some_iff)
  have "log_step t s'"
    by (rule commit_value_step [OF x _ u]) (rule recommit_instance_uncommitted [OF t x nc])
  ultimately show ?thesis by (rule log_step_trans)
qed simp

subsection \<open>Requests\<close>

lemma log_same_then: "log_same s t \<Longrightarrow> log_step t u \<Longrightarrow> log_step s u"
  by (rule log_step_trans [OF log_same_step])

lemma proposer_ack_request_step:
  assumes "proposer_ack_request hdr o1 s = Some (r, s')"
  shows "log_step s s'"
proof -
  from assms obtain req a t where
    "proposer_decree_part a True s = Some (r, s') \<or>
     (t = s \<or> cache_request req s = Some t) \<and> proposer_decree_request req t = Some (r, s')"
    by (auto simp: proposer_ack_request_def bind_Some_iff split: if_splits)
  then show ?thesis
    by (auto dest: cache_request_same intro: proposer_decree_part_step proposer_decree_request_step log_same_then)
qed

lemma acceptor_ack_request_step:
  assumes "acceptor_ack_request src hdr o1 s = Some (r, s')"
  shows "log_step s s'"
proof -
  from assms obtain req t where "cache_request req s = Some t"
    and "s' = t \<or> acceptor_refuse src hdr req t = Some (r, s')"
    by (auto simp: acceptor_ack_request_def bind_Some_iff split: if_splits)
  then show ?thesis
    by (auto dest!: cache_request_same acceptor_refuse_effect intro: log_same_step sends_only_step log_same_then)
qed

lemma send_request_effect: "send_request hdr req b s = Some (r, s') \<Longrightarrow> sends_only s s'"
  by (auto simp: send_request_def bind_Some_iff dest: send_effects split: if_splits)

lemma paxos_request_step:
  assumes "paxos_request k msg s = Some (r, s')"
  shows "log_step s s'"
proof -
  from assms obtain hdr req t c u isp where
    t: "(if request_needs_cached k then cache_request req (s\<lparr>req_id := req_id s + 1\<rparr>)
      else Some (s\<lparr>req_id := req_id s + 1\<rparr>)) = Some t"
    and u: "send_request hdr req (request_needs_cached k) t = Some (c, u)"
    and rest: "s' = u \<or> proposer_decree_request req u = Some (r, s')"
    by (auto simp: paxos_request_def bind_Some_iff Let_def split: if_splits)
  have "log_same s (s\<lparr>req_id := req_id s + 1\<rparr>)" by (simp add: log_same_def)
  with t have "log_same s t" by (auto dest: cache_request_same intro: log_same_trans split: if_splits)
  moreover have "log_step t u" using send_request_effect [OF u] by (rule sends_only_step)
  moreover have "log_step u s'" using rest by (auto intro: proposer_decree_request_step)
  ultimately show ?thesis by (blast intro: log_same_then log_step_trans)
qed

lemma paxos_ack_resend_step:
  assumes "paxos_ack_resend hdr o1 s = Some (r, s')"
  shows "log_step s s'"
proof -
  from assms have "s' = s \<or> (\<exists>i rid t. resend_cache o1 rid s = Some t \<and> paxos_commit i t = Some (r, s'))"
    by (fastforce simp: paxos_ack_resend_def bind_Some_iff split: if_splits option.splits)
  moreover have "log_same s t" if "resend_cache o1 rid s = Some t" for t rid
    using that by (auto simp: resend_cache_def bind_Some_iff dest: cache_request_same split: option.splits)
  ultimately show ?thesis by (metis log_step_refl log_same_then paxos_commit_step)
qed

subsection \<open>Reconnecting\<close>

lemma proposer_prepare_step: "proposer_prepare old s = Some (r, s') \<Longrightarrow> log_step s s'"
  using proposer_prepare_cases log_frame_step log_step_ended by metis

lemma proposer_ack_redirect_step:
  assumes "proposer_ack_redirect hdr o1 s = Some (r, s')"
  shows "log_step s s'"
proof -
  from assms obtain p acc where "s' = s \<or> s' = s\<lparr>prep := Some p\<rparr> \<or>
    reconnect Continue_ack_redirect PK_zero acc (s\<lparr>prep := Some p\<rparr>) = Some (r, s') \<or>
    proposer_prepare None (s\<lparr>prep := None\<rparr>) = Some (r, s')"
    by (auto simp: proposer_ack_redirect_def bind_Some_iff Let_def split: if_splits option.splits)
  moreover have q: "log_same s (s\<lparr>prep := q\<rparr>)" for q by (simp add: log_same_def)
  ultimately show ?thesis
    by (auto dest!: reconnect_same proposer_prepare_step intro: log_same_step log_same_trans [OF q] log_same_then [OF q])
qed

lemma acceptor_ack_refuse_step:
  assumes "acceptor_ack_refuse hdr o1 s = Some (r, s')"
  shows "log_step s s'"
proof -
  from assms obtain d acc where "s' = s \<or> reconnect Continue_ack_refuse d acc s = Some (r, s')"
    by (auto simp: acceptor_ack_refuse_def bind_Some_iff split: if_splits)
  then show ?thesis by (auto dest: reconnect_same intro: log_same_step)
qed

lemma proposer_ack_reject_step:
  assumes "proposer_ack_reject hdr s = Some (r, s')"
  shows "log_step s s'"
proof -
  from assms obtain i t where t: "upd_instance i (\<lambda>x. x\<lparr>pi_rejects := pi_rejects x + 1\<rparr>) s = Some t"
    and "s' = t \<or> reject_resolve i t = Some (r, s')"
    by (auto simp: proposer_ack_reject_def bind_Some_iff split: if_splits)
  moreover have "log_step t s'" if "reject_resolve i t = Some (r, s')"
    using that by (auto simp: reject_resolve_def bind_Some_iff split: if_splits
      dest!: reconnect_same paxos_broadcast_instance_effect intro: log_same_step sends_only_step)
  moreover have "log_step s t" by (rule upd_instance_step [OF t]) (auto simp: same_decree_def)
  ultimately show ?thesis by (auto intro: log_step_trans)
qed

subsection \<open>Dispatch\<close>

lemma proposer_force_kill_step: "proposer_force_kill src s = Some (r, s') \<Longrightarrow> log_step s s'"
  by (auto simp: proposer_force_kill_def bind_Some_iff intro: proposer_decree_part_step split: option.splits)

lemma refuse_fallthrough_step:
  assumes "proposer_force_kill src s \<bind> (\<lambda>(_, s). assert (\<not> ended s) \<bind> (\<lambda>_. proposer_ack_reject hdr s)) = Some (r, s')"
  shows "log_step s s'"
  using assms by (auto simp: bind_Some_iff split: if_splits
      dest!: proposer_force_kill_step proposer_ack_reject_step intro: log_step_trans)

lemma proposer_ack_retry_step: "proposer_ack_retry hdr s = Some (r, s') \<Longrightarrow> log_step s s'"
  by (auto dest: proposer_ack_retry_effect intro: sends_only_step)

lemma paxos_ack_retrieve_step: "paxos_ack_retrieve hdr o1 s = Some (r, s') \<Longrightarrow> log_step s s'"
  by (auto dest: paxos_ack_retrieve_effect intro: sends_only_step)

lemma paxos_ack_hello_step: "paxos_ack_hello src hdr s = Some (r, s') \<Longrightarrow> log_step s s'"
  by (auto dest: paxos_ack_hello_same intro: log_same_step)

lemma acceptor_ack_sync_step: "acceptor_ack_sync hdr s = Some (r, s') \<Longrightarrow> log_step s s'"
  by (auto dest: acceptor_ack_sync_effect intro: sends_only_step)

lemmas handler_steps = proposer_force_kill_step proposer_ack_promise_step proposer_ack_accept_step
  proposer_ack_request_step paxos_ack_retrieve_step paxos_ack_resend_step paxos_ack_hello_step
  proposer_ack_redirect_step proposer_ack_reject_step proposer_ack_retry_step acceptor_ack_prepare_step
  acceptor_ack_decree_step acceptor_ack_commit_step acceptor_ack_request_step acceptor_ack_refuse_step
  acceptor_ack_recommit_step acceptor_ack_sync_step

lemma proposer_dispatch_step:
  assumes "proposer_dispatch src hdr o1 s = Some (r, s')" "ph_opcode hdr \<noteq> OP_LAST"
  shows "log_step s s'"
proof (cases "ph_opcode hdr")
  case OP_REFUSE
  with assms refuse_fallthrough_step [of src s hdr r s'] show ?thesis by (simp add: proposer_dispatch_def)
qed (use assms in \<open>auto simp: proposer_dispatch_def dest: handler_steps\<close>)

lemma acceptor_handle_step:
  assumes "acceptor_handle src hdr o1 s = Some (r, s')" "ph_opcode hdr \<noteq> OP_TRUNCATE"
  shows "log_step s s'"
  using assms by (cases "ph_opcode hdr") (auto simp: acceptor_handle_def dest: handler_steps)

subsection \<open>Truncation\<close>

lemma drop_request_frame: "drop_request rid s = Some t \<Longrightarrow> \<exists>rc. t = s\<lparr>rcache := rc\<rparr>"
  by (auto simp: drop_request_def bind_Some_iff split: option.splits intro: exI [of _ "rcache s"])

text \<open>Truncating drops exactly the instances below \<open>n\<close> at the front of the log.\<close>

lemma truncate_walk_result:
  assumes "truncate_walk xs n s = Some s'" "ilist s = xs" "distinct xs"
  shows "ilist s' = dropWhile (\<lambda>i. the (inum_of s i) < n) xs \<and> (\<forall>j\<in>set (ilist s'). iheap s' j = iheap s j) \<and>
    idefer s' = idefer s \<and> brk s' = brk s \<and> ended s' = ended s \<and> ihole s' = ihole s \<and> istart s' = istart s \<and>
    ibase s' = ibase s \<and> out s' = out s"
  using assms
proof (induction xs arbitrary: s)
  case (Cons i xs)
  then obtain x where x: "iheap s i = Some x" by (auto simp: bind_Some_iff)
  then have k: "the (inum_of s i) = ph_inum (pi_hdr x)" by (simp add: inum_of_def)
  show ?case
  proof (cases "n \<le> ph_inum (pi_hdr x)")
    case True
    with Cons.prems x k show ?thesis by auto
  next
    case False
    with Cons.prems(1) x obtain t u v where t: "drop_request (pv_reqid (pi_val x)) s = Some t"
      and u: "ilist_remove i t = Some u" and v: "instance_destroy i u = Some v"
      and rest: "truncate_walk xs n v = Some s'" by (auto simp: bind_Some_iff)
    from drop_request_frame [OF t] obtain rc where "t = s\<lparr>rcache := rc\<rparr>" by blast
    with u v Cons.prems(2) have f: "ilist v = xs" "iheap v = (iheap s)(i := None)" "idefer v = idefer s"
      "brk v = brk s" "ended v = ended s" "ihole v = ihole s" "istart v = istart s" "ibase v = ibase s" "out v = out s"
      by (auto simp: ilist_remove_def instance_destroy_def bind_Some_iff split: if_splits)
    have "dropWhile (\<lambda>i. the (inum_of v i) < n) xs = dropWhile (\<lambda>i. the (inum_of s i) < n) xs"
      using f Cons.prems(3) by (intro dropWhile_cong) (auto simp: inum_of_def)
    moreover have "iheap v j = iheap s j" if "j \<in> set xs" for j using that f Cons.prems(3) by auto
    moreover have "set (dropWhile P xs) \<subseteq> set xs" for P by (auto dest: set_dropWhileD)
    ultimately show ?thesis using Cons.IH [OF rest f(1)] Cons.prems(3) f False k by auto
  qed
qed simp

lemma truncate_walk_ended: "truncate_walk xs n s = Some s' \<Longrightarrow> ended s' = ended s"
proof (induction xs arbitrary: s)
  case (Cons i xs)
  then obtain x where x: "iheap s i = Some x" by (auto simp: bind_Some_iff)
  show ?case
  proof (cases "n \<le> ph_inum (pi_hdr x)")
    case False
    with Cons.prems(1) x obtain t u v where t: "drop_request (pv_reqid (pi_val x)) s = Some t"
      and u: "ilist_remove i t = Some u" and v: "instance_destroy i u = Some v"
      and rest: "truncate_walk xs n v = Some s'" by (auto simp: bind_Some_iff)
    have "ended v = ended s" using u v drop_request_frame [OF t]
      by (auto simp: ilist_remove_def instance_destroy_def bind_Some_iff split: if_splits)
    with Cons.IH [OF rest] show ?thesis by simp
  qed (use Cons.prems x in auto)
qed simp

lemma truncate_inv:
  assumes "ilist_truncate_prefix n s = Some s'" "log_inv s"
  shows "log_inv s'"
proof (cases "ended s")
  case False
  with assms(2) have wf: "log_wf s" by (simp add: log_inv_def)
  note r = truncate_walk_result [OF assms(1) [unfolded ilist_truncate_prefix_def] refl]
  have d: "distinct (ilist s)" using wf by (simp add: log_wf_def)
  let ?P = "\<lambda>i. the (inum_of s i) < n"
  obtain ys where ys: "ilist s = ys @ ilist s'"
    using r [OF d] takeWhile_dropWhile_id [of ?P "ilist s"] by metis
  have "ordered paxid_compare (inum_of s') (ilist s') = ordered paxid_compare (inum_of s) (ilist s')"
    using r [OF d] by (intro ordered_cong inum_of_cong) auto
  moreover have "ordered paxid_compare (inum_of s) (ilist s')"
    using wf ys ordered_appendD [of paxid_compare "inum_of s" ys "ilist s'"] by (simp add: log_wf_def)
  moreover have "distinct (ilist s' @ idefer s)" "\<forall>i\<in>set (ilist s' @ idefer s). i < brk s"
    using wf ys by (auto simp: log_wf_def)
  ultimately have "log_wf s'" using r [OF d] unfolding log_wf_def by simp
  then show ?thesis by (simp add: log_inv_def)
qed (use assms truncate_walk_ended in \<open>auto simp: ilist_truncate_prefix_def log_inv_def\<close>)

text \<open>The two handlers that truncate.\<close>

lemma log_inv_same: "log_same s t \<Longrightarrow> log_inv s \<Longrightarrow> log_inv t"
  by (rule log_step_inv [OF log_same_step])

lemma acceptor_ack_truncate_inv:
  assumes "acceptor_ack_truncate hdr o1 s = Some (r, s')" "log_inv s"
  shows "log_inv s'"
proof -
  from assms(1) obtain n where "ilist_truncate_prefix n (s\<lparr>ibase := n\<rparr>) = Some s'"
    by (auto simp: acceptor_ack_truncate_def bind_Some_iff)
  moreover have "log_inv (s\<lparr>ibase := n\<rparr>)" by (rule log_inv_same [OF _ assms(2)]) (simp add: log_same_def)
  ultimately show ?thesis by (rule truncate_inv)
qed

lemma proposer_truncate_inv:
  assumes "proposer_truncate hdr s = Some (r, s')" "log_inv s"
  shows "log_inv s'"
proof -
  from assms(1) obtain y t c u where t: "truncate_start y s = Some t"
    and u: "paxos_broadcast (truncate_message hdr (ibase t)) t = Some (c, u)"
    and rest: "(if c \<noteq> 0 then Some (c, u) else ilist_truncate_prefix (ibase u) u \<bind>
      (\<lambda>s. Some (0, s\<lparr>sync := None\<rparr>))) = Some (r, s')"
    by (simp add: proposer_truncate_def bind_Some_iff split del: if_split) blast
  from t have t: "log_same s t" by (auto simp: truncate_start_def Let_def log_same_def split: if_splits)
  have "c = 0 \<and> log_inv u"
    using paxos_broadcast_effect [OF u] log_inv_same [OF t assms(2)] by (auto intro: log_step_inv sends_only_step)
  with rest obtain v where "ilist_truncate_prefix (ibase u) u = Some v" "s' = v\<lparr>sync := None\<rparr>"
    by (auto simp: bind_Some_iff)
  with truncate_inv [OF this(1)] \<open>c = 0 \<and> log_inv u\<close> show ?thesis
    by (auto intro: log_inv_same simp: log_same_def)
qed

lemma proposer_ack_last_inv:
  assumes "proposer_ack_last hdr o1 s = Some (r, s')" "log_inv s"
  shows "log_inv s'"
proof -
  from assms(1) obtain y where "s' = s \<or> s' = s\<lparr>sync := Some y\<rparr> \<or>
    proposer_truncate hdr (s\<lparr>sync := Some y\<rparr>) = Some (r, s')"
    by (auto simp: proposer_ack_last_def bind_Some_iff Let_def split: if_splits)
  moreover have "log_inv (s\<lparr>sync := Some y\<rparr>)" by (rule log_inv_same [OF _ assms(2)]) (simp add: log_same_def)
  ultimately show ?thesis using assms(2) by (auto intro: proposer_truncate_inv)
qed

text \<open>Every message keeps the log well-formed.\<close>

lemma session_dispatch_inv:
  assumes "session_dispatch src hdr o1 s = Some (r, s')" "log_inv s"
  shows "log_inv s'"
proof -
  from assms(1) obtain c where "proposer_dispatch src hdr o1 s = Some (r, s') \<or> acceptor_handle src hdr o1 s = Some (c, s')"
    by (auto simp: session_dispatch_def acceptor_dispatch_def bind_Some_iff split: if_splits)
  then show ?thesis
  proof
    assume p: "proposer_dispatch src hdr o1 s = Some (r, s')"
    show ?thesis
    proof (cases "ph_opcode hdr = OP_LAST")
      case True
      with p assms(2) show ?thesis by (auto simp: proposer_dispatch_def intro: proposer_ack_last_inv)
    next
      case False
      with p assms(2) show ?thesis by (blast intro: log_step_inv proposer_dispatch_step)
    qed
  next
    assume a: "acceptor_handle src hdr o1 s = Some (c, s')"
    show ?thesis
    proof (cases "ph_opcode hdr = OP_TRUNCATE")
      case True
      with a assms(2) show ?thesis by (auto simp: acceptor_handle_def intro: acceptor_ack_truncate_inv)
    next
      case False
      with a assms(2) show ?thesis by (blast intro: log_step_inv acceptor_handle_step)
    qed
  qed
qed

lemma session_dispatch_step:
  assumes "session_dispatch src hdr o1 s = Some (r, s')" "ph_opcode hdr \<notin> {OP_LAST, OP_TRUNCATE}"
  shows "log_step s s'"
proof -
  from assms(1) obtain c where "proposer_dispatch src hdr o1 s = Some (r, s') \<or> acceptor_handle src hdr o1 s = Some (c, s')"
    by (auto simp: session_dispatch_def acceptor_dispatch_def bind_Some_iff split: if_splits)
  with assms(2) show ?thesis by (auto intro: proposer_dispatch_step acceptor_handle_step)
qed

subsection \<open>Continuations\<close>

lemma container_destroy_frame:
  "instance_container_destroy js s = Some s' \<Longrightarrow>
   s' = s\<lparr>iheap := (\<lambda>i. if i \<in> set js then None else iheap s i)\<rparr>"
proof (induction js arbitrary: s)
  case (Cons j js)
  then obtain t where t: "instance_destroy j s = Some t" and rest: "instance_container_destroy js t = Some s'"
    by (auto simp: bind_Some_iff)
  from t have "t = s\<lparr>iheap := (iheap s)(j := None)\<rparr>" by (auto simp: instance_destroy_def bind_Some_iff)
  with Cons.IH [OF rest] show ?case by (auto simp: fun_upd_def fun_eq_iff intro!: paxos_session.equality)
qed simp

lemma idefer_destroy_step:
  assumes "idefer_destroy s = Some s'"
  shows "log_step s s'"
proof -
  from assms have s': "s' = s\<lparr>iheap := (\<lambda>i. if i \<in> set (idefer s) then None else iheap s i), idefer := []\<rparr>"
    by (auto simp: idefer_destroy_def bind_Some_iff dest!: container_destroy_frame)
  show ?thesis
  proof (rule log_step_wfI)
    assume wf: "log_wf s"
    then have keep: "iheap s' i = iheap s i" if "i \<in> set (ilist s)" for i
      using that s' by (auto simp: log_wf_def)
    have "ordered paxid_compare (inum_of s') (ilist s) = ordered paxid_compare (inum_of s) (ilist s)"
      using keep by (intro ordered_cong inum_of_cong)
    with wf keep s' show "log_wf s' \<and> log_kept s s'" by (auto simp: log_wf_def log_kept_def)
  qed (use s' in simp_all)
qed

lemma live_inc_same: "log_same s (s\<lparr>live_count := n\<rparr>)"
  by (simp add: log_same_def)

lemma paxos_hello_step: "paxos_hello a s = Some (r, s') \<Longrightarrow> log_step s s'"
  by (auto dest: paxos_hello_effect intro: sends_only_step)

lemma do_continue_welcome_step:
  assumes "do_continue_welcome chan a k s = Some (r, s')"
  shows "log_step s s'"
proof -
  from assms obtain p t where t: "attach_peer chan a s = Some (p, t)"
    and rest: "proposer_decree_part a False t = Some (r, s') \<or>
      (\<exists>py. paxos_send a py (t\<lparr>live_count := live_count t + 1\<rparr>) = Some (r, s'))"
    by (auto simp: do_continue_welcome_def bind_Some_iff Let_def split: if_splits)
  have "log_step t s'" using rest
    by (auto intro: proposer_decree_part_step log_same_then [OF live_inc_same] sends_only_step dest!: paxos_send_effect)
  then show ?thesis by (rule log_same_then [OF attach_peer_same [OF t]])
qed

lemma do_continue_ack_welcome_step:
  assumes "do_continue_ack_welcome chan a k s = Some (r, s')"
  shows "log_step s s'"
proof -
  from assms obtain p t where t: "attach_peer chan a s = Some (p, t)"
    and rest: "s' = t \<or> paxos_hello a (t\<lparr>live_count := live_count t + 1\<rparr>) = Some (r, s')"
    by (auto simp: do_continue_ack_welcome_def bind_Some_iff split: if_splits)
  have "log_step t s'" using rest by (auto intro: log_same_then [OF live_inc_same] paxos_hello_step)
  then show ?thesis by (rule log_same_then [OF attach_peer_same [OF t]])
qed

lemma redirect_connected_step:
  assumes "redirect_connected a s = Some (r, s')"
  shows "log_step s s'"
proof -
  let ?s = "s\<lparr>live_count := live_count s + 1\<rparr>"
  from assms obtain b t where t: "idefer_destroy (if b then ?s\<lparr>proposer := Some a\<rparr> else ?s) = Some t"
    and h: "paxos_hello a t = Some (r, s')"
    by (simp add: redirect_connected_def bind_Some_iff Let_def split del: if_split) blast
  have "log_same s (if b then ?s\<lparr>proposer := Some a\<rparr> else ?s)" by (simp add: log_same_def)
  then have "log_step s t" using idefer_destroy_step [OF t] by (rule log_same_then)
  then show ?thesis using paxos_hello_step [OF h] by (rule log_step_trans)
qed

lemma do_continue_ack_redirect_step:
  assumes "do_continue_ack_redirect chan a k s = Some (r, s')"
  shows "log_step s s'"
proof (cases "s' = s")
  case False
  with assms obtain p t where t: "attach_peer chan a (s\<lparr>prep := None\<rparr>) = Some (p, t)"
    and rest: "proposer_prepare None t = Some (r, s') \<or> redirect_connected a t = Some (r, s')"
    by (auto simp: do_continue_ack_redirect_def bind_Some_iff split: if_splits)
  have "log_same s (s\<lparr>prep := None\<rparr>)" by (simp add: log_same_def)
  then have "log_same s t" using attach_peer_same [OF t] by (rule log_same_trans)
  moreover have "log_step t s'" using rest by (auto intro: proposer_prepare_step redirect_connected_step)
  ultimately show ?thesis by (rule log_same_then)
qed simp

lemma refuse_resend_step: "refuse_resend a k s = Some (r, s') \<Longrightarrow> log_step s s'"
  by (auto simp: refuse_resend_def bind_Some_iff Let_def dest!: paxos_send_to_proposer_effect
      intro: log_same_then [of s "s\<lparr>proposer := Some a\<rparr>"] sends_only_step simp: log_same_def)

lemma refuse_connected_step:
  assumes "refuse_connected a k s = Some (r, s')"
  shows "log_step s s'"
proof -
  from assms obtain c t u where t: "idefer_destroy (s\<lparr>live_count := live_count s + 1, prep := None\<rparr>) = Some t"
    and u: "paxos_hello a t = Some (c, u)" and rest: "s' = u \<or> (\<exists>d. refuse_resend a k u = Some (d, s'))"
    by (auto simp: refuse_connected_def bind_Some_iff split: if_splits)
  have "log_same s (s\<lparr>live_count := live_count s + 1, prep := None\<rparr>)" by (simp add: log_same_def)
  then have "log_step s t" using idefer_destroy_step [OF t] by (rule log_same_then)
  moreover have "log_step u s'" using rest by (auto intro: refuse_resend_step)
  ultimately show ?thesis using paxos_hello_step [OF u] by (blast intro: log_step_trans)
qed

lemma do_continue_ack_refuse_step:
  assumes "do_continue_ack_refuse chan a k s = Some (r, s')"
  shows "log_step s s'"
proof (cases "s' = s")
  case False
  with assms obtain p t where t: "attach_peer chan a s = Some (p, t)"
    and rest: "s' = t \<or> refuse_connected a k t = Some (r, s')"
    by (auto simp: do_continue_ack_refuse_def bind_Some_iff split: if_splits)
  have "log_step t s'" using rest by (auto intro: refuse_connected_step)
  then show ?thesis by (rule log_same_then [OF attach_peer_same [OF t]])
qed simp

text \<open>
  The continuation of a reject resets its instance whatever has become of it, so it keeps the log
  well-formed but need not keep a committed value.
\<close>

lemma set_instance_inv:
  assumes "iheap s i = Some x" "ph_inum (pi_hdr y) = ph_inum (pi_hdr x)" "log_inv s"
  shows "log_inv (s\<lparr>iheap := (iheap s)(i \<mapsto> y)\<rparr>)"
proof -
  have "inum_of (s\<lparr>iheap := (iheap s)(i \<mapsto> y)\<rparr>) = inum_of s"
    using assms(1,2) by (auto simp: inum_of_def)
  with assms(3) show ?thesis by (simp add: log_inv_def log_wf_def)
qed

lemma reject_retry_inv:
  assumes "reject_retry chan a i s = Some (r, s')" "log_inv s"
  shows "log_inv s'"
proof -
  from assms(1) obtain p t c u where t: "attach_peer chan a s = Some (p, t)"
    and u: "(if p = None then Some (0, t) else paxos_hello a (t\<lparr>live_count := live_count t + 1\<rparr>)) = Some (c, u)"
    and rest: "(if c \<noteq> 0 then Some (c, u) else
      upd_instance i (\<lambda>x. instance_init_metadata (if p = None then x else nullify x)) u \<bind>
        (\<lambda>s. paxos_broadcast_instance i s)) = Some (r, s')"
    by (simp add: reject_retry_def bind_Some_iff split del: if_split) blast
  have "log_inv t" by (rule log_inv_same [OF attach_peer_same [OF t] assms(2)])
  moreover have "log_step t u"
    using u by (auto intro: paxos_hello_step log_same_then [OF live_inc_same] split: if_splits)
  ultimately have inv: "log_inv u" by (blast intro: log_step_inv)
  show ?thesis
  proof (cases "c = 0")
    case True
    with rest obtain v where v: "upd_instance i (\<lambda>x. instance_init_metadata (if p = None then x else nullify x)) u = Some v"
      and b: "paxos_broadcast_instance i v = Some (r, s')" by (auto simp: bind_Some_iff)
    have "log_inv v" using v inv
      by (auto simp: upd_instance_def bind_Some_iff nullify_def instance_init_metadata_def intro!: set_instance_inv)
    with paxos_broadcast_instance_effect [OF b] show ?thesis by (blast intro: log_step_inv sends_only_step)
  qed (use rest inv in simp)
qed

lemma do_continue_ack_reject_inv:
  assumes "do_continue_ack_reject chan a k s = Some (r, s')" "log_inv s"
  shows "log_inv s'"
  using assms by (auto simp: do_continue_ack_reject_def bind_Some_iff split: option.splits intro: reject_retry_inv)

lemma run_continuation_step:
  assumes "run_continuation f chan a k s = Some (r, s')" "f \<noteq> Continue_ack_reject"
  shows "log_step s s'"
  using assms
  by (cases f) (auto simp: run_continuation_def intro: do_continue_welcome_step do_continue_ack_welcome_step
    do_continue_ack_redirect_step do_continue_ack_refuse_step)

lemma continue_session_inv:
  assumes "continue_session k chan s = Some (r, s')" "log_inv s"
  shows "log_inv s'"
proof -
  from assms(1) obtain kont :: paxos_continuation and found t where
    c: "(case found of None \<Rightarrow> Some (0, s) | Some a \<Rightarrow> run_continuation (pk_func kont) chan a kont s) = Some (r, t)"
    and s': "t\<lparr>clist := filter (\<lambda>(k', _). k' \<noteq> k) (clist t)\<rparr> = s'"
    by (simp add: continue_session_def bind_Some_iff if_None_iff) blast
  then have t: "t = s \<or> (\<exists>a. run_continuation (pk_func kont) chan a kont s = Some (r, t))"
    by (auto split: option.splits)
  have "log_inv t"
  proof (cases "pk_func kont = Continue_ack_reject")
    case True
    with t assms(2) show ?thesis by (auto simp: run_continuation_def intro: do_continue_ack_reject_inv)
  next
    case False
    with t assms(2) show ?thesis by (auto intro: run_continuation_step log_step_inv)
  qed
  then show ?thesis unfolding s' [symmetric] by (rule log_inv_same [rotated]) (simp add: log_same_def)
qed

end
