(* ===== verification/Delivery.thy ===== *)
theory Delivery
  imports Log_Safety "HOL-Library.Sublist"
begin

section \<open>Total order of delivery, quorums, and the single participant\<close>

subsection \<open>Agreeing logs deliver the same chats\<close>

text \<open>
  Two logs agree when instances of the same number that are committed in both have the same value, and
  both caches hold the same request for it.
\<close>

definition logs_agree :: "paxos_session \<Rightarrow> iref list \<Rightarrow> paxos_session \<Rightarrow> iref list \<Rightarrow> bool" where
  "logs_agree s xs t ys \<longleftrightarrow> (\<forall>x\<in>set (insts s xs). \<forall>y\<in>set (insts t ys).
     pi_committed x \<longrightarrow> pi_committed y \<longrightarrow> ph_inum (pi_hdr x) = ph_inum (pi_hdr y) \<longrightarrow>
     pi_val x = pi_val y \<and>
     request_find reqid_of (rcache s) (pv_reqid (pi_val x)) = request_find reqid_of (rcache t) (pv_reqid (pi_val y)))"

lemma ready_agree:
  assumes "\<forall>x\<in>set xs. \<forall>y\<in>set ys. pi_committed x \<longrightarrow> pi_committed y \<longrightarrow>
      ph_inum (pi_hdr x) = ph_inum (pi_hdr y) \<longrightarrow> f x = g y"
    "ready h xs \<le> ready h ys"
  shows "map f (take (ready h xs) xs) = take (ready h xs) (map g (take (ready h ys) ys))"
  using assms
proof (induction xs arbitrary: ys h)
  case (Cons x xs)
  show ?case
  proof (cases "ph_inum (pi_hdr x) = h \<and> pi_committed x \<and> pi_cached x")
    case x: True
    with Cons.prems(2) obtain y zs where ys: "ys = y # zs"
      and y: "ph_inum (pi_hdr y) = h \<and> pi_committed y \<and> pi_cached y"
      by (cases ys) (simp_all split: if_split_asm)
    have "map f (take (ready (h + 1) xs) xs) = take (ready (h + 1) xs) (map g (take (ready (h + 1) zs) zs))"
      using Cons.prems x y ys by (intro Cons.IH) simp_all
    moreover have "f x = g y" using Cons.prems(1) x y ys by simp
    ultimately show ?thesis using x y ys by simp
  next
    case False
    then have "ready h (x # xs) = 0" by simp
    then show ?thesis by (simp only: take_0 list.map)
  qed
qed simp

lemma ready_prefix:
  assumes "\<forall>x\<in>set xs. \<forall>y\<in>set ys. pi_committed x \<longrightarrow> pi_committed y \<longrightarrow>
      ph_inum (pi_hdr x) = ph_inum (pi_hdr y) \<longrightarrow> f x = (g y :: 'a list)"
    "ready h xs \<le> ready h ys"
  shows "prefix (concat (map f (take (ready h xs) xs))) (concat (map g (take (ready h ys) ys)))"
proof -
  let ?n = "ready h xs"
  let ?ys = "map g (take (ready h ys) ys)"
  have "concat ?ys = concat (take ?n ?ys @ drop ?n ?ys)" by simp
  also have "\<dots> = concat (map f (take ?n xs)) @ concat (drop ?n ?ys)"
    using ready_agree [OF assms] by (simp only: concat_append)
  finally show ?thesis by simp
qed

lemma chat_data_agree:
  assumes "logs_agree s xs t ys" "x \<in> set (insts s xs)" "y \<in> set (insts t ys)"
    "pi_committed x" "pi_committed y" "ph_inum (pi_hdr x) = ph_inum (pi_hdr y)"
  shows "chat_data (rcache s) x = chat_data (rcache t) y"
proof -
  have "pi_val x = pi_val y \<and>
      request_find reqid_of (rcache s) (pv_reqid (pi_val x)) = request_find reqid_of (rcache t) (pv_reqid (pi_val y))"
    using assms unfolding logs_agree_def by blast
  then show ?thesis by (elim conjE) (simp add: chat_data_def)
qed

lemma logs_agree_sym: "logs_agree s xs t ys \<Longrightarrow> logs_agree t ys s xs"
  unfolding logs_agree_def by (intro ballI impI) (drule (1) bspec, drule (1) bspec, elim impE conjE; simp)

lemma learned_prefix:
  assumes "learned p xs s s'" "learned q ys t t'" "ihole s = ihole t" "chat_log (out s) = chat_log (out t)"
    "logs_agree s xs t ys" "ready (ihole s) (insts s xs) \<le> ready (ihole t) (insts t ys)"
  shows "prefix (chat_log (out s')) (chat_log (out t'))"
proof -
  have "prefix (concat (map (chat_data (rcache s)) (take (ready (ihole s) (insts s xs)) (insts s xs))))
     (concat (map (chat_data (rcache t)) (take (ready (ihole s) (insts t ys)) (insts t ys))))"
    using assms(3,5,6) by (intro ready_prefix) (auto intro: chat_data_agree)
  then show ?thesis using assms(1-4) by (simp add: learned_def Let_def)
qed

subsection \<open>Quorums\<close>

lemma unat_list_count: "length xs < 2 ^ 32 \<Longrightarrow> unat (list_count xs) = length xs"
  by (simp add: list_count_def unat_of_nat)

lemma unat_majority:
  assumes "length (alist s) < 2 ^ 32"
  shows "unat (majority s) = length (alist s) div 2 + 1"
proof -
  have d: "unat (list_count (alist s) div 2) = length (alist s) div 2"
    using unat_list_count [OF assms] by (simp add: unat_div)
  have "unat (list_count (alist s) div 2) + unat (1 :: u32) < 2 ^ LENGTH(32)"
    using d assms by simp
  then have "unat (list_count (alist s) div 2 + 1) = unat (list_count (alist s) div 2) + unat (1 :: u32)"
    using unat_add_lem [of "list_count (alist s) div 2" "1 :: u32"] by simp
  with d show ?thesis by (simp add: majority_def)
qed

end
