(* ===== verification/Promise_Merge.thy ===== *)
theory Promise_Merge
  imports Delivery
begin

section \<open>Merging the votes of a promise\<close>

text \<open>
  The log as a map from instance numbers, seen through the program's own lookup, and what one reported
  vote does to it: a missing instance is added, an uncommitted one is replaced if the vote has the
  higher ballot, and everything else stays.
\<close>

definition instance_at :: "paxos_session \<Rightarrow> paxid \<Rightarrow> paxos_instance option" where
  "instance_at s n = do { r \<leftarrow> instance_find (inum_of s) (ilist s) n; i \<leftarrow> r; iheap s i }"

definition cleared :: "paxos_instance \<Rightarrow> paxos_instance" where
  "cleared v = v\<lparr>pi_committed := False, pi_cached := False, pi_learned := False\<rparr>"

fun merged :: "paxos_instance option \<Rightarrow> paxos_instance \<Rightarrow> paxos_instance option" where
  "merged None v = Some (cleared v)"
| "merged (Some y) v =
     (if \<not> pi_committed y \<and> ph_ballot (pi_hdr y) < ph_ballot (pi_hdr v) then Some (cleared v) else Some y)"

lemma cleared_fields [simp]: "pi_hdr (cleared v) = pi_hdr v" "pi_val (cleared v) = pi_val v"
  "\<not> pi_committed (cleared v)"
  by (simp_all add: cleared_def)

lemma instance_at_iff:
  assumes "log_wf s"
  shows "instance_at s n = Some x \<longleftrightarrow> (\<exists>i\<in>set (ilist s). iheap s i = Some x \<and> ph_inum (pi_hdr x) = n)"
proof -
  have ord: "ordered paxid_compare (inum_of s) (ilist s)" using assms by (simp add: log_wf_def)
  have "instance_at s n = Some x \<longleftrightarrow>
      (\<exists>i. instance_find (inum_of s) (ilist s) n = Some (Some i) \<and> iheap s i = Some x)"
    by (auto simp: instance_at_def bind_Some_iff)
  then show ?thesis by (auto simp: instances.find_Some [OF ord] inum_of_def)
qed

lemma instance_at_None:
  assumes "log_wf s"
  shows "instance_at s n = None \<longleftrightarrow> (\<forall>i\<in>set (ilist s). \<forall>x. iheap s i = Some x \<longrightarrow> ph_inum (pi_hdr x) \<noteq> n)"
proof -
  have "instance_at s n = None \<longleftrightarrow> (\<forall>x. instance_at s n \<noteq> Some x)" by auto
  then show ?thesis by (auto simp: instance_at_iff [OF assms])
qed

lemma instance_at_cong:
  assumes "log_wf s" "log_wf t" "ilist t = ilist s" "\<And>i. i \<in> set (ilist s) \<Longrightarrow> iheap t i = iheap s i"
  shows "instance_at t = instance_at s"
proof
  fix n
  have "instance_at t n = Some x \<longleftrightarrow> instance_at s n = Some x" for x
    using assms(3,4) by (auto simp: instance_at_iff [OF assms(1)] instance_at_iff [OF assms(2)])
  then show "instance_at t n = instance_at s n" by (rule option_eqI)
qed

lemma instance_at_update:
  assumes wf: "log_wf s" "log_wf t" and i: "i \<in> set (ilist t)" "iheap t i = Some x" "ph_inum (pi_hdr x) = n"
    and others: "\<And>j. j \<noteq> i \<Longrightarrow> j \<in> set (ilist t) \<longleftrightarrow> j \<in> set (ilist s) \<and> inum_of s j \<noteq> Some n"
    and i_new: "i \<in> set (ilist s) \<Longrightarrow> inum_of s i = Some n"
    and heap: "\<And>j. j \<in> set (ilist s) \<Longrightarrow> j \<noteq> i \<Longrightarrow> iheap t j = iheap s j"
  shows "instance_at t = (instance_at s)(n \<mapsto> x)"
proof
  fix m
  show "instance_at t m = ((instance_at s)(n \<mapsto> x)) m"
  proof (cases "m = n")
    case True
    have "instance_at t n = Some x" unfolding instance_at_iff [OF wf(2)] using i by blast
    with True show ?thesis by simp
  next
    case False
    have "instance_at t m = Some z \<longleftrightarrow> instance_at s m = Some z" for z
    proof
      assume "instance_at t m = Some z"
      then obtain j where j: "j \<in> set (ilist t)" "iheap t j = Some z" "ph_inum (pi_hdr z) = m"
        by (auto simp: instance_at_iff [OF wf(2)])
      with False i have "j \<noteq> i" by auto
      with j others heap show "instance_at s m = Some z" by (auto simp: instance_at_iff [OF wf(1)])
    next
      assume "instance_at s m = Some z"
      then obtain j where j: "j \<in> set (ilist s)" "iheap s j = Some z" "ph_inum (pi_hdr z) = m"
        by (auto simp: instance_at_iff [OF wf(1)])
      then have "inum_of s j = Some m" by (simp add: inum_of_def)
      with False i_new j have ne: "j \<noteq> i" "inum_of s j \<noteq> Some n" by auto
      with j others have "j \<in> set (ilist t)" by blast
      moreover have "iheap t j = Some z" using heap j ne by simp
      ultimately show "instance_at t m = Some z" unfolding instance_at_iff [OF wf(2)] using j by blast
    qed
    then have "instance_at t m = instance_at s m" by (rule option_eqI)
    with False show ?thesis by simp
  qed
qed

subsection \<open>The search for the place of a vote\<close>

lemma log_wf_alloc: "log_wf s \<Longrightarrow> i \<in> set (ilist s) \<Longrightarrow> \<exists>x. iheap s i = Some x"
  by (auto simp: log_wf_def ordered_def inum_of_def)

text \<open>On a well-formed log the walk always ends, at a member of the log.\<close>

lemma glb_walk_run:
  assumes "log_wf s" "ilist s = pre @ g # post" "the (inum_of s g) \<le> n"
  shows "\<exists>h\<in>set (g # post). glb_walk prev (Some g) n s = Some (Some h)"
  using assms
proof (induction post arbitrary: pre g prev)
  case Nil
  then obtain x where x: "iheap s g = Some x" using log_wf_alloc by fastforce
  have "ilist_next s g = Some None"
    using Nil x ilist_next_mid [of s pre g "[]"] by (simp add: log_wf_def)
  with Nil x show ?case by (subst glb_walk.simps) (auto simp: inum_of_def glb_walk.simps [of "Some g" None])
next
  case (Cons h post)
  then obtain x y where x: "iheap s g = Some x" and y: "iheap s h = Some y"
    using log_wf_alloc [of s g] log_wf_alloc [of s h] by auto
  have nx: "ilist_next s g = Some (Some h)"
    using Cons.prems(1) x ilist_next_mid [OF Cons.prems(2)] unfolding log_wf_def by simp
  show ?case
  proof (cases "ph_inum (pi_hdr y) \<le> n")
    case True
    with Cons.prems y have "\<exists>k\<in>set (h # post). glb_walk (Some g) (Some h) n s = Some (Some k)"
      by (intro Cons.IH [of "pre @ [g]"]) (simp_all add: inum_of_def)
    with Cons.prems(3) x nx show ?thesis by (subst glb_walk.simps) (auto simp: inum_of_def)
  next
    case False
    then have "glb_walk (Some g) (Some h) n s = Some (Some g)"
      using y by (subst glb_walk.simps) (simp add: not_le)
    with Cons.prems(3) x nx show ?thesis by (subst glb_walk.simps) (auto simp: inum_of_def)
  qed
qed

lemma get_instance_glb_run:
  assumes "log_wf s" "g \<in> set (ilist s)" "the (inum_of s g) \<le> n"
  obtains h where "get_instance_glb (Some g) n s = Some (Some h)" "h \<in> set (ilist s)" "glb_at n s h"
proof -
  from assms(2) obtain pre post where "ilist s = pre @ g # post" by (auto simp: in_set_conv_decomp)
  with glb_walk_run [OF assms(1) this assms(3), of None] obtain h where
    h: "get_instance_glb (Some g) n s = Some (Some h)" "h \<in> set (ilist s)"
    by (auto simp: get_instance_glb_def)
  show thesis using that [OF h get_instance_glb_at [OF h(1)]] .
qed

text \<open>The instance found is the one of that number, if there is one.\<close>

lemma glb_at_instance:
  assumes wf: "log_wf s" and h: "h \<in> set (ilist s)" "glb_at n s h" "iheap s h = Some y"
  shows "instance_at s n = (if ph_inum (pi_hdr y) = n then Some y else None)"
proof (cases "ph_inum (pi_hdr y) = n")
  case True
  with h have "instance_at s n = Some y" unfolding instance_at_iff [OF wf] by blast
  with True show ?thesis by simp
next
  case False
  with h have lt: "ph_inum (pi_hdr y) < n" by (auto simp: glb_at_def)
  from h(1) obtain ys zs where yz: "ilist s = ys @ h # zs" by (auto simp: in_set_conv_decomp)
  have d: "distinct (ilist s)" and ord: "ordered paxid_compare (inum_of s) (ilist s)" using wf by (simp_all add: log_wf_def)
  have "the (inum_of s j) \<noteq> n" if "j \<in> set (ilist s)" for j
  proof -
    consider "j \<in> set ys" | "j = h" | "j \<in> set zs" using \<open>j \<in> set (ilist s)\<close> yz by auto
    then show ?thesis
    proof cases
      case 1
      with ord yz h(3) lt show ?thesis
        by (auto simp: ordered_def sorted_wrt_append inum_of_def intro: order_less_trans)
    next
      case 2
      with h(3) False show ?thesis by (simp add: inum_of_def)
    next
      case 3
      then have "n < the (inum_of s (hd zs))" by (intro glb_at_hd [OF h(2) yz d]) auto
      with 3 ord yz show ?thesis
        by (cases zs) (auto simp: ordered_def sorted_wrt_append dest: order_less_trans)
    qed
  qed
  then have "instance_at s n = None" unfolding instance_at_None [OF wf] by (force simp: inum_of_def)
  with False show ?thesis by simp
qed

subsection \<open>One vote\<close>

text \<open>A scratch allocation is in neither list.\<close>

definition scratch_ok :: "iref option \<Rightarrow> paxos_session \<Rightarrow> bool" where
  "scratch_ok inst s \<longleftrightarrow> (\<forall>j. inst = Some j \<longrightarrow> j \<notin> set (ilist s @ idefer s) \<and> j < brk s \<and> iheap s j \<noteq> None)"

text \<open>The scratch instance with the vote in it.\<close>

lemma scratch_run:
  assumes "log_wf s" "scratch_ok inst s"
  obtains i t where "scratch_instance inst s = (i, t)" "log_wf t" "i \<notin> set (ilist s @ idefer s)" "i < brk t"
    "iheap t i \<noteq> None" "ilist t = ilist s" "idefer t = idefer s" "\<forall>j\<in>set (ilist s @ idefer s). iheap t j = iheap s j"
    "ended t = ended s" "ihole t = ihole s"
proof (cases inst)
  case None
  have lt: "j < brk s" if "j \<in> set (ilist s @ idefer s)" for j using assms(1) that by (simp add: log_wf_def)
  let ?t = "s\<lparr>iheap := (iheap s)(brk s \<mapsto> zero_instance), brk := Suc (brk s)\<rparr>"
  have "log_wf ?t" using lt by (intro log_wf_same [OF assms(1)] inum_of_cong) force+
  with None lt show ?thesis
    by (intro that [of "brk s" ?t]) (force simp: scratch_instance_def alloc_instance_def)+
next
  case (Some i)
  with assms show ?thesis
    by (intro that [of i s]) (auto simp: scratch_instance_def scratch_ok_def)
qed

lemma set_scratch:
  assumes "log_wf s" "i \<notin> set (ilist s @ idefer s)" "iheap s i \<noteq> None"
  obtains t where "upd_instance i (\<lambda>_. x) s = Some t" "log_wf t" "iheap t i = Some x" "ilist t = ilist s"
    "idefer t = idefer s" "brk t = brk s" "\<forall>j\<in>set (ilist s @ idefer s). iheap t j = iheap s j" "ended t = ended s" "ihole t = ihole s"
proof -
  from assms(3) obtain y where y: "iheap s i = Some y" by blast
  let ?t = "s\<lparr>iheap := (iheap s)(i \<mapsto> x)\<rparr>"
  have "log_wf ?t" using assms(2) by (intro log_wf_same [OF assms(1)] inum_of_cong) auto
  with y assms(2) show thesis by (intro that [of ?t]) (auto simp: upd_instance_def)
qed

lemma scratch_unlisted: "i \<notin> set (ilist s @ idefer s) \<Longrightarrow> i < brk s \<Longrightarrow> unlisted i s"
  by (simp add: unlisted_def)

text \<open>
  What a merge leaves: a well-formed log with the vote merged in, and a member to search on from.  Only
  the instance that the vote outvotes, if it is in the log, leaves it.
\<close>

definition outvoted :: "paxos_instance \<Rightarrow> paxos_instance \<Rightarrow> bool" where
  "outvoted v y \<longleftrightarrow> ph_inum (pi_hdr y) = ph_inum (pi_hdr v) \<and> \<not> pi_committed y \<and> ph_ballot (pi_hdr y) < ph_ballot (pi_hdr v)"

definition vote_merged ::
  "paxid \<Rightarrow> paxos_instance \<Rightarrow> paxos_session \<Rightarrow> iref option \<Rightarrow> iref \<Rightarrow> paxos_session \<Rightarrow> bool" where
  "vote_merged n v s inst g t \<longleftrightarrow> log_wf t \<and> \<not> ended t \<and> g \<in> set (ilist t) \<and> the (inum_of t g) \<le> n \<and> scratch_ok inst t \<and>
     instance_at t = (instance_at s)(n := merged (instance_at s n) v) \<and> idefer t = idefer s \<and> ihole t = ihole s \<and>
     iheap t = iheap s \<and> (\<forall>j\<in>set (ilist s). j \<in> set (ilist t) \<or> outvoted v (the (iheap s j)))"

lemma merge_vote_wf:
  assumes "log_wf s" "\<not> ended s" "i \<notin> set (ilist s @ idefer s)" "i < brk s" "inum_of s i = Some n" "glb_at n s h"
    "merge_vote i h s = Some (z, t)" "ended t = ended s"
  shows "log_wf t"
proof -
  have "unlisted i s" using assms(3,4) by (rule scratch_unlisted)
  moreover have "log_inv s" using assms(1,2) by (simp add: log_inv_def)
  moreover obtain a b where "z = (a, b)" by (cases z)
  ultimately show ?thesis using merge_vote_step [of i h s "fst z" "snd z" t n] assms
    by (auto simp: log_step_def log_inv_def)
qed

lemma merge_vote_new:
  assumes wf: "log_wf s" "\<not> ended s" and i: "i \<notin> set (ilist s @ idefer s)" "i < brk s" "iheap s i = Some x"
    and h: "h \<in> set (ilist s)" "glb_at n s h" "iheap s h = Some y" "ph_inum (pi_hdr y) < n"
    and n: "ph_inum (pi_hdr x) = n" and cl: "x = cleared v"
  shows "\<exists>t. merge_vote i h s = Some ((None, h), t) \<and> vote_merged n v s None h t"
proof -
  have ki: "inum_of s i = Some n" using i(3) n by (simp add: inum_of_def)
  have none: "instance_at s n = None" using glb_at_instance [OF wf(1) h(1-3)] h(4) by simp
  let ?t = "s\<lparr>ilist := insert_after (ilist s) h i\<rparr>"
  let ?s = "if n = ihole s then ?t\<lparr>istart := Some i\<rparr> else ?t"
  have m: "merge_vote i h s = Some ((None, h), ?s)"
    using h(1,3,4) i(3) n by (simp add: merge_vote_def ilist_insert_after_def)
  have wf': "log_wf ?s" by (rule merge_vote_wf [OF wf i(1,2) ki h(2) m]) simp
  have set: "set (insert_after (ilist s) h i) = insert i (set (ilist s))" by (rule set_insert_after [OF h(1)])
  have "instance_at ?s = (instance_at s)(n \<mapsto> x)"
  proof (rule instance_at_update [OF wf(1) wf', of i])
    fix j assume "j \<noteq> i"
    have "inum_of s j \<noteq> Some n" if j: "j \<in> set (ilist s)"
    proof -
      from log_wf_alloc [OF wf(1) j] obtain z where "iheap s j = Some z" by blast
      then show ?thesis using none j unfolding instance_at_None [OF wf(1)] by (auto simp: inum_of_def)
    qed
    with \<open>j \<noteq> i\<close> set show "j \<in> set (ilist ?s) \<longleftrightarrow> j \<in> set (ilist s) \<and> inum_of s j \<noteq> Some n" by auto
  qed (use i n set in auto)
  with none cl have "instance_at ?s = (instance_at s)(n := merged (instance_at s n) v)" by simp
  then have "vote_merged n v s None h ?s" using wf' set h wf(2) by (auto simp: vote_merged_def scratch_ok_def inum_of_def)
  with m show ?thesis by blast
qed

lemma merge_vote_switch:
  assumes wf: "log_wf s" "\<not> ended s" and i: "i \<notin> set (ilist s @ idefer s)" "i < brk s" "iheap s i = Some x"
    and h: "h \<in> set (ilist s)" "glb_at n s h" "iheap s h = Some y" "ph_inum (pi_hdr y) = n"
    and b: "\<not> pi_committed y" "ph_ballot (pi_hdr y) < ph_ballot (pi_hdr x)"
    and n: "ph_inum (pi_hdr x) = n" and cl: "x = cleared v"
  shows "\<exists>t. merge_vote i h s = Some ((Some h, i), t) \<and> vote_merged n v s (Some h) i t"
proof -
  have ki: "inum_of s i = Some n" using i(3) n by (simp add: inum_of_def)
  have kh: "inum_of s h = Some n" using h(3,4) by (simp add: inum_of_def)
  have hi: "h \<noteq> i" using h(1) i(1) by auto
  obtain ys zs where yz: "ilist s = ys @ h # zs" "h \<notin> set ys" using h(1) by (metis split_list_first)
  have d: "distinct (ilist s)" using wf(1) by (simp add: log_wf_def)
  let ?t = "s\<lparr>ilist := ys @ h # i # zs\<rparr>"
  let ?u = "(unlinked s)(h := (pred_in (ilist ?t) h, succ_in (ilist ?t) h))"
  let ?s = "s\<lparr>unlinked := ?u, ilist := ys @ i # zs\<rparr>"
  have m: "merge_vote i h s = Some ((Some h, i), ?s)"
    using b i(3) h(3,4) n yz
    by (simp add: merge_vote_def ilist_insert_after_def ilist_remove_def insert_after_mid remove1_append swap_def)
  have wf': "log_wf ?s" by (rule merge_vote_wf [OF wf i(1,2) ki h(2) m]) simp
  have "instance_at ?s = (instance_at s)(n \<mapsto> x)"
  proof (rule instance_at_update [OF wf(1) wf', of i])
    fix j assume ji: "j \<noteq> i"
    have other: "inum_of s j \<noteq> Some n" if j: "j \<in> set (ilist s)" "j \<noteq> h"
      using paxid.ordered_unique [of "inum_of s" "ilist s" j h n] wf(1) j h(1) kh by (auto simp: log_wf_def)
    have hn: "h \<notin> set (ys @ i # zs)" using hi d yz by auto
    have s: "set (ilist s) = insert h (set (ys @ zs))" using yz by auto
    show "j \<in> set (ilist ?s) \<longleftrightarrow> j \<in> set (ilist s) \<and> inum_of s j \<noteq> Some n"
    proof (cases "j = h")
      case False
      with ji s have "j \<in> set (ilist ?s) \<longleftrightarrow> j \<in> set (ilist s)" by simp
      with other False show ?thesis by blast
    qed (use hn kh in simp)
  qed (use i n in auto)
  moreover have "merged (instance_at s n) v = Some x"
    using glb_at_instance [OF wf(1) h(1-3)] h(4) b cl by simp
  ultimately have "instance_at ?s = (instance_at s)(n := merged (instance_at s n) v)" by simp
  moreover have "scratch_ok (Some h) ?s" using wf(1) yz hi h(3) d by (auto simp: scratch_ok_def log_wf_def)
  moreover have "\<forall>j\<in>set (ilist s). j \<in> set (ilist ?s) \<or> outvoted v (the (iheap s j))"
    using yz h(3,4) b n cl by (auto simp: outvoted_def)
  ultimately have "vote_merged n v s (Some h) i ?s" using wf' wf(2) i(3) n by (simp add: vote_merged_def inum_of_def)
  with m show ?thesis by blast
qed

lemma merge_vote_run:
  assumes wf: "log_wf s" "\<not> ended s" and i: "i \<notin> set (ilist s @ idefer s)" "i < brk s" "iheap s i = Some x"
    and h: "h \<in> set (ilist s)" "glb_at n s h" and n: "ph_inum (pi_hdr x) = n" and cl: "x = cleared v"
  obtains inst' g' s' where "merge_vote i h s = Some ((inst', g'), s')" "vote_merged n v s inst' g' s'"
proof -
  from h(2) obtain y where y: "iheap s h = Some y" "ph_inum (pi_hdr y) \<le> n" by (auto simp: glb_at_def)
  consider (new) "ph_inum (pi_hdr y) < n"
    | (switch) "ph_inum (pi_hdr y) = n" "\<not> pi_committed y" "ph_ballot (pi_hdr y) < ph_ballot (pi_hdr x)"
    | (keep) "ph_inum (pi_hdr y) = n" "pi_committed y \<or> \<not> ph_ballot (pi_hdr y) < ph_ballot (pi_hdr x)"
    using y(2) by force
  then show thesis
  proof cases
    case new
    with merge_vote_new [OF wf i h y(1) _ n cl] show thesis using that by blast
  next
    case switch
    with merge_vote_switch [OF wf i h y(1) _ _ _ n cl] show thesis using that by blast
  next
    case keep
    have m: "merge_vote i h s = Some ((Some i, h), s)" using keep i(3) y n by (auto simp: merge_vote_def)
    have "instance_at s = (instance_at s)(n := merged (instance_at s n) v)"
      using glb_at_instance [OF wf(1) h y(1)] keep cl by (auto simp: fun_eq_iff)
    then have "vote_merged n v s (Some i) h s" using wf h(1) y i by (simp add: vote_merged_def scratch_ok_def inum_of_def)
    with m show thesis by (rule that)
  qed
qed

lemma promise_vote_run:
  assumes wf: "log_wf s" "\<not> ended s" and sc: "scratch_ok inst s"
    and g: "g \<in> set (ilist s)" "the (inum_of s g) \<le> n"
    and v: "paxos_instance_unpack p = Some v" "ph_inum (pi_hdr v) = n"
  obtains inst' g' s' where "promise_vote p (inst, Some g) s = Some ((inst', Some g'), s')" "log_wf s'" "\<not> ended s'"
    "g' \<in> set (ilist s')" "the (inum_of s' g') \<le> n" "scratch_ok inst' s'"
    "instance_at s' = (instance_at s)(n := merged (instance_at s n) v)" "idefer s' = idefer s" "ihole s' = ihole s"
    "\<forall>j\<in>set (ilist s @ idefer s). iheap s' j = iheap s j" "\<forall>j\<in>set (ilist s). j \<in> set (ilist s') \<or> outvoted v (the (iheap s j))"
proof -
  obtain i t where t: "scratch_instance inst s = (i, t)" "log_wf t" "i \<notin> set (ilist s @ idefer s)" "i < brk t"
    "iheap t i \<noteq> None" "ilist t = ilist s" "idefer t = idefer s" "\<forall>j\<in>set (ilist s @ idefer s). iheap t j = iheap s j"
    "ended t = ended s" "ihole t = ihole s" by (rule scratch_run [OF wf(1) sc])
  have it: "i \<notin> set (ilist t @ idefer t)" using t by simp
  obtain u where u: "upd_instance i (\<lambda>_. cleared v) t = Some u" "log_wf u" "iheap u i = Some (cleared v)" "ilist u = ilist t"
    "idefer u = idefer t" "brk u = brk t" "\<forall>j\<in>set (ilist t @ idefer t). iheap u j = iheap t j" "ended u = ended t" "ihole u = ihole t"
    by (rule set_scratch [OF t(2) it t(5)])
  have same: "ilist u = ilist s" "idefer u = idefer s" "\<forall>j\<in>set (ilist s @ idefer s). iheap u j = iheap s j" using t u by auto
  have at: "instance_at u = instance_at s" using same by (intro instance_at_cong [OF wf(1) u(2)]) auto
  have gu: "g \<in> set (ilist u)" "the (inum_of u g) \<le> n" using g same by (simp_all add: inum_of_def)
  obtain h where h: "get_instance_glb (Some g) n u = Some (Some h)" "h \<in> set (ilist u)" "glb_at n u h"
    by (rule get_instance_glb_run [OF u(2) gu])
  have pre: "\<not> ended u" "i \<notin> set (ilist u @ idefer u)" "i < brk u" "ph_inum (pi_hdr (cleared v)) = n"
    using wf t u v by simp_all
  obtain inst' g' s' where mv: "merge_vote i h u = Some ((inst', g'), s')" "vote_merged n v u inst' g' s'"
    by (rule merge_vote_run [OF u(2) pre(1) pre(2) pre(3) u(3) h(2,3) pre(4) refl])
  show thesis
  proof (rule that)
    show "promise_vote p (inst, Some g) s = Some ((inst', Some g'), s')"
      using t(1) u(1) h(1) mv(1) v unfolding promise_vote_def cleared_def by simp
  qed (use mv(2) at t u same in \<open>simp_all add: vote_merged_def\<close>)
qed

lemma merge_vote_frame:
  assumes "merge_vote i it s = Some (z, s')"
  shows "(alist s', aheap s', prep s', ballot s', session_id s', self_id s') = (alist s, aheap s, prep s, ballot s, session_id s, self_id s)"
  using assms by (auto simp: merge_vote_def bind_Some_iff ilist_insert_after_def ilist_remove_def Let_def swap_def split: if_splits)

lemma promise_vote_frame:
  assumes "promise_vote p st s = Some (st', s')"
  shows "(alist s', aheap s', prep s', ballot s', session_id s', self_id s') = (alist s, aheap s, prep s, ballot s, session_id s, self_id s)"
proof -
  obtain inst it where st: "st = (inst, it)" by (cases st)
  obtain i t where t: "scratch_instance inst s = (i, t)" by (cases "scratch_instance inst s")
  from assms obtain v u g z where u: "upd_instance i (\<lambda>_. v\<lparr>pi_committed := False, pi_cached := False, pi_learned := False\<rparr>) t = Some u"
    and m: "merge_vote i g u = Some (z, s')"
    unfolding promise_vote_def st by (simp add: t bind_Some_iff split_beta) blast
  show ?thesis
    using merge_vote_frame [OF m] u t
    by (auto simp: upd_instance_def bind_Some_iff scratch_instance_def alloc_instance_def split: option.splits)
qed

subsection \<open>All votes of a promise\<close>

fun merge_all :: "paxos_instance list \<Rightarrow> (paxid \<Rightarrow> paxos_instance option) \<Rightarrow> paxid \<Rightarrow> paxos_instance option" where
  "merge_all [] m = m"
| "merge_all (v # vs) m = (let n = ph_inum (pi_hdr v) in merge_all vs (m(n := merged (m n) v)))"

lemma promise_votes_run:
  assumes "log_wf s" "\<not> ended s" "scratch_ok inst s" "g \<in> set (ilist s)"
    "map paxos_instance_unpack ps = map Some vs" "sorted (map (\<lambda>v. ph_inum (pi_hdr v)) vs)"
    "\<forall>v\<in>set vs. the (inum_of s g) \<le> ph_inum (pi_hdr v)"
  shows "\<exists>s'. promise_votes ps (inst, Some g) s = Some s' \<and> log_wf s' \<and> \<not> ended s' \<and>
    instance_at s' = merge_all vs (instance_at s) \<and> idefer s' = idefer s \<and> ihole s' = ihole s \<and>
    (\<forall>j\<in>set (idefer s). iheap s' j = iheap s j) \<and>
    (\<forall>j\<in>set (ilist s). (\<forall>v\<in>set vs. \<not> outvoted v (the (iheap s j))) \<longrightarrow> j \<in> set (ilist s') \<and> iheap s' j = iheap s j)"
  using assms
proof (induction ps arbitrary: vs inst g s)
  case (Cons p ps)
  then obtain v vs' where vs: "vs = v # vs'" "paxos_instance_unpack p = Some v"
    "map paxos_instance_unpack ps = map Some vs'" by (cases vs) auto
  let ?n = "ph_inum (pi_hdr v)"
  have gn: "the (inum_of s g) \<le> ?n" using Cons.prems(7) vs(1) by simp
  obtain inst' g' t where t: "promise_vote p (inst, Some g) s = Some ((inst', Some g'), t)" "log_wf t" "\<not> ended t"
    "g' \<in> set (ilist t)" "the (inum_of t g') \<le> ?n" "scratch_ok inst' t"
    "instance_at t = (instance_at s)(?n := merged (instance_at s ?n) v)" "idefer t = idefer s" "ihole t = ihole s"
    "\<forall>j\<in>set (ilist s @ idefer s). iheap t j = iheap s j" "\<forall>j\<in>set (ilist s). j \<in> set (ilist t) \<or> outvoted v (the (iheap s j))"
    by (rule promise_vote_run [OF Cons.prems(1-4) gn vs(2) refl])
  have "\<forall>w\<in>set vs'. the (inum_of t g') \<le> ph_inum (pi_hdr w)"
    using Cons.prems(6) vs(1) t(5) by (auto intro: order_trans)
  with Cons.IH [OF t(2,3,6,4) vs(3)] Cons.prems(6) vs(1) obtain s' where s':
    "promise_votes ps (inst', Some g') t = Some s'" "log_wf s'" "\<not> ended s'"
    "instance_at s' = merge_all vs' (instance_at t)" "idefer s' = idefer t" "ihole s' = ihole t"
    "\<forall>j\<in>set (idefer t). iheap s' j = iheap t j"
    "\<forall>j\<in>set (ilist t). (\<forall>v\<in>set vs'. \<not> outvoted v (the (iheap t j))) \<longrightarrow> j \<in> set (ilist s') \<and> iheap s' j = iheap t j" by auto
  moreover have "\<forall>j\<in>set (ilist s). (\<forall>v\<in>set vs. \<not> outvoted v (the (iheap s j))) \<longrightarrow> j \<in> set (ilist s') \<and> iheap s' j = iheap s j"
    using s'(8) t(10,11) vs(1) by fastforce
  ultimately show ?case using t vs(1) by (simp add: Let_def)
qed simp

text \<open>What merging never changes.\<close>

lemma promise_votes_frame:
  assumes "promise_votes ps st s = Some s'"
  shows "alist s' = alist s" "aheap s' = aheap s" "prep s' = prep s" "ballot s' = ballot s"
    "session_id s' = session_id s" "self_id s' = self_id s"
proof -
  have "promise_votes ps st s = Some s' \<Longrightarrow>
    (alist s', aheap s', prep s', ballot s', session_id s', self_id s') = (alist s, aheap s, prep s, ballot s, session_id s, self_id s)"
  proof (induction ps arbitrary: st s)
    case (Cons p ps)
    then obtain st' t where t: "promise_vote p st s = Some (st', t)" "promise_votes ps st' t = Some s'"
      by (auto simp: bind_Some_iff)
    then show ?case using Cons.IH promise_vote_frame [OF t(1)] by metis
  qed simp
  with assms show "alist s' = alist s" "aheap s' = aheap s" "prep s' = prep s" "ballot s' = ballot s"
    "session_id s' = session_id s" "self_id s' = self_id s" by simp_all
qed

end
