(* ===== verification/Log_Facts.thy ===== *)
theory Log_Facts
  imports Promise_Merge
begin

section \<open>What happens to the log\<close>

text \<open>
  The log read by instance number: committed instances persist, a truncation cuts off exactly what it is
  told to, and committing one instance commits no other.  The last is a relation \<open>commits_only\<close> carried
  through the learn loop by the loop's own induction principle, \<open>learn_loop_rel\<close>, for any reflexive and
  transitive relation that the steps of learning have.
\<close>

lemma instance_kept:
  assumes wf: "log_wf s" "log_wf s'" and k: "log_kept s s'" and x: "instance_at s n = Some x" "pi_committed x"
  shows "\<exists>y. instance_at s' n = Some y \<and> pi_committed y \<and> pi_val y = pi_val x"
proof -
  from x(1) obtain i where i: "i \<in> set (ilist s)" "iheap s i = Some x" "ph_inum (pi_hdr x) = n"
    by (auto simp: instance_at_iff [OF wf(1)])
  with k x(2) obtain y where "i \<in> set (ilist s')" "iheap s' i = Some y" "same_decree x y"
    unfolding log_kept_def by blast
  with i x(2) show ?thesis by (auto simp: instance_at_iff [OF wf(2)] same_decree_def)
qed

lemma log_same_at:
  assumes "ilist t = ilist s" "iheap t = iheap s" "idefer t = idefer s" "brk s \<le> brk t"
  shows "instance_at t = instance_at s" "log_wf s \<Longrightarrow> log_wf t"
proof -
  have k: "inum_of t = inum_of s" using assms(2) by (intro ext) (simp add: inum_of_def)
  then show "instance_at t = instance_at s" using assms by (intro ext) (simp add: instance_at_def)
  show "log_wf s \<Longrightarrow> log_wf t" using assms by (auto simp: log_wf_def k intro: less_le_trans)
qed

lemma dropWhile_sorted:
  assumes "sorted_wrt (\<lambda>i j. f i < f j) xs"
  shows "set (dropWhile (\<lambda>i. f i < (n::'a::linorder)) xs) = {i \<in> set xs. n \<le> f i}"
  using assms by (induction xs) (auto dest: order_le_less_trans less_imp_le)

lemma truncate_instance_at:
  assumes "ilist_truncate_prefix n s = Some s'" "log_wf s" "\<not> ended s"
  shows "log_wf s'" "instance_at s' m = (if m < n then None else instance_at s m)"
proof -
  have d: "distinct (ilist s)" using assms(2) by (simp add: log_wf_def)
  note r = truncate_walk_result [OF assms(1) [unfolded ilist_truncate_prefix_def] refl d]
  have e: "\<not> ended s'" using r assms(3) by simp
  show wf': "log_wf s'" using truncate_inv [OF assms(1)] assms(2) e by (simp add: log_inv_def)
  have srt: "sorted_wrt (\<lambda>i j. the (inum_of s i) < the (inum_of s j)) (ilist s)"
    using assms(2) by (simp add: log_wf_def ordered_def)
  have mem: "set (ilist s') = {i \<in> set (ilist s). n \<le> the (inum_of s i)}"
    using r by (simp add: dropWhile_sorted [OF srt])
  have heap: "iheap s' j = iheap s j" if "j \<in> set (ilist s')" for j using r that by blast
  show "instance_at s' m = (if m < n then None else instance_at s m)"
  proof (rule option_eqI)
    fix x
    have "instance_at s' m = Some x \<longleftrightarrow> (\<exists>i\<in>set (ilist s'). iheap s i = Some x \<and> ph_inum (pi_hdr x) = m)"
      by (simp add: instance_at_iff [OF wf'] heap cong: bex_cong)
    also have "\<dots> \<longleftrightarrow> n \<le> m \<and> instance_at s m = Some x"
      by (auto simp: instance_at_iff [OF assms(2)] inum_of_def mem)
    finally show "instance_at s' m = Some x \<longleftrightarrow> (if m < n then None else instance_at s m) = Some x" by auto
  qed
qed

lemma learn_loop_rel:
  assumes r: "\<And>s. R s s" and t: "\<And>s t u. R s t \<Longrightarrow> R t u \<Longrightarrow> R s u"
    and upd: "\<And>s p. R s (s\<lparr>istart := p\<rparr>)" "\<And>s h. R s (s\<lparr>ihole := h\<rparr>)"
    and learn: "\<And>i req s r s'. paxos_learn i req s = Some (r, s') \<Longrightarrow> R s s'"
  shows "learn_loop it s = Some rs \<Longrightarrow> R s (snd rs)"
proof (induction it s rs rule: learn_loop.raw_induct [rotated, consumes 1, case_names step])
  case (step loop it s rs)
  show ?case
  proof (cases it)
    case None
    with step(2) upd show ?thesis by auto
  next
    case (Some i)
    show ?thesis
    proof (rule ccontr)
      assume no: "\<not> ?thesis"
      from Some step(2) obtain x where x: "iheap s i = Some x" by (auto simp: bind_Some_iff)
      have go: "ph_inum (pi_hdr x) = ihole s \<and> pi_committed x \<and> pi_cached x"
        using no Some step(2) x upd by (auto simp: bind_Some_iff split: if_splits)
      with Some step(2) x obtain req c t where t: "paxos_learn i req s = Some (c, t)"
        and rest: "(if c \<noteq> 0 then Some (c, t)
          else ilist_next t i \<bind> (\<lambda>nx. loop nx (t\<lparr>ihole := ihole t + 1\<rparr>))) = Some rs"
        by (cases "pi_learned x") (simp_all add: bind_Some_iff split del: if_split, blast)
      have "R t (snd rs)"
      proof (cases "c = 0")
        case True
        with rest obtain nx where "loop nx (t\<lparr>ihole := ihole t + 1\<rparr>) = Some rs" by (auto simp: bind_Some_iff)
        then have "R (t\<lparr>ihole := ihole t + 1\<rparr>) (snd rs)" by (rule step(1))
        with upd(2) show ?thesis by (rule assms(2))
      next
        case False
        with rest r show ?thesis by auto
      qed
      with learn [OF t] no assms(2) show False by blast
    qed
  qed
qed

definition commits_only :: "iref \<Rightarrow> paxos_session \<Rightarrow> paxos_session \<Rightarrow> bool" where
  "commits_only i s s' \<longleftrightarrow> ended s' \<or> \<not> ended s \<and> ilist s' = ilist s \<and> brk s \<le> brk s' \<and>
     (\<forall>j x. j < brk s \<longrightarrow> j \<noteq> i \<longrightarrow> iheap s j = Some x \<longrightarrow>
        (\<exists>y. iheap s' j = Some y \<and> pi_committed y = pi_committed x \<and> pi_hdr y = pi_hdr x \<and> pi_val y = pi_val x))"

lemma commits_only_same:
  "ended s' = ended s \<Longrightarrow> ilist s' = ilist s \<Longrightarrow> brk s \<le> brk s' \<Longrightarrow>
   (\<And>j. j < brk s \<Longrightarrow> j \<noteq> i \<Longrightarrow> iheap s' j = iheap s j) \<Longrightarrow> commits_only i s s'"
  by (auto simp: commits_only_def)

lemma commits_only_refl [simp, intro]: "commits_only i s s"
  by (rule commits_only_same) auto

lemma commits_only_trans:
  assumes "commits_only i s t" "commits_only i t u"
  shows "commits_only i s u"
proof (cases "ended u")
  case False
  with assms have t: "\<not> ended s" "ilist t = ilist s" "brk s \<le> brk t" "\<not> ended t" "ilist u = ilist t" "brk t \<le> brk u"
    and 1: "\<And>j x. j < brk s \<Longrightarrow> j \<noteq> i \<Longrightarrow> iheap s j = Some x \<Longrightarrow> \<exists>y. iheap t j = Some y \<and>
      pi_committed y = pi_committed x \<and> pi_hdr y = pi_hdr x \<and> pi_val y = pi_val x"
    and 2: "\<And>j x. j < brk t \<Longrightarrow> j \<noteq> i \<Longrightarrow> iheap t j = Some x \<Longrightarrow> \<exists>y. iheap u j = Some y \<and>
      pi_committed y = pi_committed x \<and> pi_hdr y = pi_hdr x \<and> pi_val y = pi_val x"
    unfolding commits_only_def by blast+
  have "\<exists>y. iheap u j = Some y \<and> pi_committed y = pi_committed x \<and> pi_hdr y = pi_hdr x \<and> pi_val y = pi_val x"
    if "j < brk s" "j \<noteq> i" "iheap s j = Some x" for j x
    using 1 [OF that] 2 [OF less_le_trans [OF that(1) t(3)] that(2)] by metis
  with t show ?thesis by (simp add: commits_only_def)
qed (simp add: commits_only_def)

lemma log_frame_commits: "log_frame s s' \<Longrightarrow> commits_only i s s'"
  by (rule commits_only_same) (auto simp: log_frame_def)

lemma sends_only_commits: "sends_only s s' \<Longrightarrow> commits_only i s s'"
  by (rule log_frame_commits [OF sends_only_log_frame])

lemma upd_instance_commits: "upd_instance i f s = Some s' \<Longrightarrow> commits_only i s s'"
  by (auto simp: upd_instance_def bind_Some_iff intro: commits_only_same)

lemma paxos_learn_commits:
  assumes "paxos_learn i req s = Some (r, s')"
  shows "commits_only k s s'"
proof -
  from assms obtain x where x: "iheap s i = Some x" by (auto simp: paxos_learn_def upd_instance_def bind_Some_iff)
  from paxos_learn_frame [OF assms x] show ?thesis
    using x by (auto simp: commits_only_def log_frame_def)
qed

lemma learn_loop_commits: "learn_loop it s = Some (r, s') \<Longrightarrow> commits_only k s s'"
  using learn_loop_rel [of "commits_only k" it s "(r, s')", OF commits_only_refl commits_only_trans _ _ paxos_learn_commits]
  by (simp add: commits_only_same)

lemma commit_cached_commits:
  assumes "commit_cached i s = Some (r, s')"
  shows "commits_only i s s'"
proof -
  from assms obtain t x where t: "upd_instance i (\<lambda>x. x\<lparr>pi_cached := True\<rparr>) s = Some t" and x: "iheap t i = Some x"
    by (auto simp: commit_cached_def bind_Some_iff)
  have "commits_only i t s'"
  proof (cases "ph_inum (pi_hdr x) = ihole t")
    case True
    with assms t x obtain u st where u: "u = t \<or> (\<exists>nx. u = t\<lparr>istart := nx\<rparr>)" and "learn_loop (Some st) u = Some (r, s')"
      by (auto simp: commit_cached_def bind_Some_iff split: if_splits)
    moreover have "commits_only i t u" using u by (auto intro: commits_only_same)
    ultimately show ?thesis using learn_loop_commits commits_only_trans by blast
  next
    case False
    with assms t x have "s' = t \<or> acceptor_retry (ihole t) t = Some (r, s')"
      by (auto simp: commit_cached_def bind_Some_iff split: if_splits)
    then show ?thesis by (auto dest!: acceptor_retry_effect intro: sends_only_commits)
  qed
  with upd_instance_commits [OF t] show ?thesis by (rule commits_only_trans)
qed

lemma paxos_commit_commits:
  assumes "paxos_commit i s = Some (r, s')"
  shows "commits_only i s s'"
proof -
  from assms obtain t where t: "upd_instance i (\<lambda>x. x\<lparr>pi_committed := True\<rparr>) s = Some t"
    and "paxos_retrieve i t = Some (r, s') \<or> commit_cached i t = Some (r, s')"
    by (auto simp: paxos_commit_def bind_Some_iff split: if_splits)
  then have "commits_only i t s'" by (auto dest!: paxos_retrieve_effect intro: sends_only_commits commit_cached_commits)
  with upd_instance_commits [OF t] show ?thesis by (rule commits_only_trans)
qed

lemma proposer_commit_commits:
  assumes "proposer_commit i s = Some (r, s')"
  shows "commits_only i s s'"
proof -
  from assms obtain t c u where
    t: "upd_instance i (\<lambda>x. x\<lparr>pi_hdr := (pi_hdr x)\<lparr>ph_opcode := OP_COMMIT\<rparr>\<rparr>) s = Some t"
    and u: "paxos_broadcast_instance i t = Some (c, u)"
    and rest: "(if c \<noteq> 0 then Some (c, u) else paxos_commit i u) = Some (r, s')"
    by (simp add: proposer_commit_def bind_Some_iff split del: if_split) blast
  have "commits_only i u s'" using rest by (auto intro: paxos_commit_commits split: if_splits)
  with upd_instance_commits [OF t] sends_only_commits [OF conjunct2 [OF paxos_broadcast_instance_effect [OF u]]]
  show ?thesis using commits_only_trans by blast
qed

text \<open>Who commits at most \<open>k\<close>, and turns an instance from uncommitted to committed, does so to \<open>k\<close>.\<close>

lemma commits_only_new:
  assumes c: "commits_only k s s'" and wf: "log_wf s" "log_wf s'" "\<not> ended s'"
    and x: "instance_at s n = Some x" "\<not> pi_committed x" and y: "instance_at s' n = Some y" "pi_committed y"
  shows "k \<in> set (ilist s)" "iheap s k = Some x" "ph_inum (pi_hdr x) = n"
proof -
  from c wf(3) have c: "ilist s' = ilist s" "\<And>j x. j < brk s \<Longrightarrow> j \<noteq> k \<Longrightarrow> iheap s j = Some x \<Longrightarrow>
    \<exists>y. iheap s' j = Some y \<and> pi_committed y = pi_committed x \<and> pi_hdr y = pi_hdr x" unfolding commits_only_def by blast+
  from x(1) obtain i where i: "i \<in> set (ilist s)" "iheap s i = Some x" "ph_inum (pi_hdr x) = n"
    by (auto simp: instance_at_iff [OF wf(1)])
  have "i = k"
  proof (rule ccontr)
    assume "i \<noteq> k"
    moreover have "i < brk s" using wf(1) i(1) by (simp add: log_wf_def)
    ultimately obtain z where "iheap s' i = Some z" "\<not> pi_committed z" "ph_inum (pi_hdr z) = n"
      using c(2) [OF _ _ i(2)] i(3) x(2) by auto
    moreover from this have "instance_at s' n = Some z" using i(1) c(1) by (auto simp: instance_at_iff [OF wf(2)])
    ultimately show False using y by simp
  qed
  with i show "k \<in> set (ilist s)" "iheap s k = Some x" "ph_inum (pi_hdr x) = n" by auto
qed

lemma ack_accept_cases:
  assumes "proposer_ack_accept hdr s = Some (r, s')" "log_wf s" "s' \<noteq> s"
  obtains k x t where "ph_ballot hdr = ballot s" "k \<in> set (ilist s)" "iheap s k = Some x" "ph_inum (pi_hdr x) = ph_inum hdr"
    "upd_instance k (\<lambda>x. x\<lparr>pi_votes := pi_votes x + 1\<rparr>) s = Some t" "alist t = alist s"
    "s' = t \<or> majority s \<le> pi_votes x + 1 \<and> proposer_commit k t = Some (r, s')"
proof -
  from assms(1,3) obtain k t z where b: "ph_ballot hdr = ballot s"
    and k: "instance_find (inum_of s) (ilist s) (ph_inum hdr) = Some (Some k)"
    and t: "upd_instance k (\<lambda>x. x\<lparr>pi_votes := pi_votes x + 1\<rparr>) s = Some t" and z: "iheap t k = Some z"
    and rest: "(if pi_committed z then Some (0, t)
        else if majority t \<le> pi_votes z then proposer_commit k t else Some (0, t)) = Some (r, s')"
    by (auto simp: proposer_ack_accept_def bind_Some_iff if_None_iff split del: if_split)
  from t obtain x where x: "iheap s k = Some x" "z = x\<lparr>pi_votes := pi_votes x + 1\<rparr>" "alist t = alist s"
    using z by (auto simp: upd_instance_def bind_Some_iff)
  have "k \<in> set (ilist s) \<and> inum_of s k = Some (ph_inum hdr)"
    using k instances.find_Some [of "inum_of s" "ilist s" "ph_inum hdr" k] assms(2) by (auto simp: log_wf_def)
  then have l: "k \<in> set (ilist s)" "ph_inum (pi_hdr x) = ph_inum hdr" using x(1) by (simp_all add: inum_of_def)
  have "s' = t \<or> majority s \<le> pi_votes x + 1 \<and> proposer_commit k t = Some (r, s')"
    using rest x by (auto simp: majority_def split: if_splits)
  then show thesis by (rule that [OF b l(1) x(1) l(2) t x(3)])
qed

end
