(* ===== verification/Promise_Links.thy ===== *)
theory Promise_Links
  imports Linked_List Log_Facts
begin

section \<open>Merging votes over the links\<close>

text \<open>
  The merge loop of \<open>proposer_ack_promise\<close> once more, now over the links of \<open>ilist\<close>: the walk follows
  \<open>pi_le\<close> and the splices are the macros of theory Linked\_List, so that they do what the C does for any
  pointer, in the list or not.  The structs are in the session's \<open>iheap\<close>; its fields \<open>ilist\<close> and
  \<open>unlinked\<close> are not used here.  When the loop starts from an instance that is in the list, it does what
  \<open>promise_votes\<close> of theory Proposer does, which faults when it has to splice behind an unlinked one.
\<close>

partial_function (option) glb_links ::
  "iref option \<Rightarrow> link \<Rightarrow> paxid \<Rightarrow> list_heap \<Rightarrow> paxos_session \<Rightarrow> iref option option" where
  [code]: "glb_links prev it inum h s = (case it of
     Head \<Rightarrow> Some prev
   | Node i \<Rightarrow> do {
       x \<leftarrow> iheap s i;
       if ph_inum (pi_hdr x) > inum then Some prev else glb_links (Some i) (LIST_NEXT h i) inum h s })"

definition merge_links ::
  "iref \<Rightarrow> iref \<Rightarrow> list_heap \<Rightarrow> paxos_session \<Rightarrow> ((iref option \<times> iref) \<times> list_heap \<times> paxos_session) option" where
  "merge_links inst it h s = do {
     x \<leftarrow> iheap s inst;
     y \<leftarrow> iheap s it;
     if ph_inum (pi_hdr y) < ph_inum (pi_hdr x) then
       Some ((None, it), LIST_INSERT_AFTER it inst h,
         if ph_inum (pi_hdr x) = ihole s then s\<lparr>istart := Some inst\<rparr> else s)
     else if \<not> pi_committed y \<and> ballot_compare (ph_ballot (pi_hdr x)) (ph_ballot (pi_hdr y)) > 0 then do {
       let h = LIST_REMOVE it (LIST_INSERT_AFTER it inst h);
       let (inst, it) = swap (inst, it);
       Some ((Some inst, it), h, s) }
     else Some ((Some inst, it), h, s)
   }"

definition vote_links ::
  "mobj \<Rightarrow> iref option \<times> iref option \<Rightarrow> list_heap \<Rightarrow> paxos_session \<Rightarrow>
    ((iref option \<times> iref option) \<times> list_heap \<times> paxos_session) option" where
  "vote_links p st h s = do {
     let (inst, it) = st;
     let (i, s) = scratch_instance inst s;
     v \<leftarrow> paxos_instance_unpack p;
     s \<leftarrow> upd_instance i (\<lambda>_. v\<lparr>pi_committed := False, pi_cached := False, pi_learned := False\<rparr>) s;
     it \<leftarrow> it;
     it \<leftarrow> glb_links None (Node it) (ph_inum (pi_hdr v)) h s;
     it \<leftarrow> it;
     ((inst, it), h, s) \<leftarrow> merge_links i it h s;
     Some ((inst, Some it), h, s)
   }"

fun votes_links ::
  "mobj list \<Rightarrow> iref option \<times> iref option \<Rightarrow> list_heap \<Rightarrow> paxos_session \<Rightarrow> (list_heap \<times> paxos_session) option" where
  "votes_links [] st h s = Some (h, s)"
| "votes_links (p # ps) st h s = do {
     (st, h, s) \<leftarrow> vote_links p st h s;
     votes_links ps st h s
   }"

subsection \<open>From a start in the list\<close>

text \<open>The same session with its list fields out of use.\<close>

definition over :: "iref list \<Rightarrow> (iref \<Rightarrow> iref option \<times> iref option) \<Rightarrow> paxos_session \<Rightarrow> paxos_session" where
  "over l u s = s\<lparr>ilist := l, unlinked := u\<rparr>"

lemma over_simps [simp]:
  "iheap (over l u s) = iheap s" "ihole (over l u s) = ihole s" "brk (over l u s) = brk s"
  by (simp_all add: over_def)

lemma over_self: "over (ilist s) (unlinked s) s = s"
  by (simp add: over_def)

lemma over_scratch: "scratch_instance inst (over l u s) = (let (i, t) = scratch_instance inst s in (i, over l u t))"
  by (simp add: scratch_instance_def alloc_instance_def over_def split: option.split)

lemma over_upd: "upd_instance i f (over l u s) = map_option (over l u) (upd_instance i f s)"
  by (simp add: upd_instance_def over_def split: bind_split)

lemma glb_links_walk:
  assumes "dll h (ilist s)" "log_wf s" "ilist s = pre @ suf"
  shows "glb_links prev (link_hd suf) n h (over l u s) = glb_walk prev (opt_hd suf) n s"
  using assms(3)
proof (induction suf arbitrary: pre prev)
  case Nil
  then show ?case by (simp add: glb_links.simps [of _ Head] glb_walk.simps [of _ None])
next
  case (Cons g post)
  then obtain x where x: "iheap s g = Some x" using log_wf_alloc [OF assms(2), of g] by auto
  have "LIST_NEXT h g = link_hd post" using assms(1) Cons.prems dll_neighbours(1) by simp
  moreover have "ilist_next s g = Some (opt_hd post)"
    using assms(2) x by (intro ilist_next_mid [OF Cons.prems]) (simp_all add: log_wf_def)
  moreover have "glb_links (Some g) (link_hd post) n h (over l u s) = glb_walk (Some g) (opt_hd post) n s"
    using Cons.prems by (intro Cons.IH [of "pre @ [g]"]) simp
  ultimately show ?case
    using x by (simp add: glb_links.simps [of _ "Node g"] glb_walk.simps [of _ "Some g"])
qed

lemma glb_links_run:
  assumes "dll h (ilist s)" "log_wf s" "g \<in> set (ilist s)"
  shows "glb_links None (Node g) n h (over l u s) = get_instance_glb (Some g) n s"
proof -
  from assms(3) obtain pre post where "ilist s = pre @ g # post" by (auto simp: in_set_conv_decomp)
  from glb_links_walk [OF assms(1,2) this] show ?thesis by (simp add: get_instance_glb_def)
qed

lemma merge_links_run:
  assumes h: "dll h (ilist s)" and i: "i \<notin> set (ilist s)" and m: "merge_vote i it s = Some (z, s')"
  shows "\<exists>h'. merge_links i it h (over l u s) = Some (z, h', over l u s') \<and> dll h' (ilist s')"
proof -
  from m obtain x y where x: "iheap s i = Some x" and y: "iheap s it = Some y"
    by (auto simp: merge_vote_def bind_Some_iff)
  have ins: "dll (LIST_INSERT_AFTER it i h) (insert_after (ilist s) it i) \<and>
    dll (LIST_REMOVE it (LIST_INSERT_AFTER it i h)) (remove1 it (insert_after (ilist s) it i))" if l: "it \<in> set (ilist s)"
  proof -
    obtain ys zs where yz: "ilist s = ys @ it # zs" "it \<notin> set ys" using l by (metis split_list_first)
    have "dll (LIST_INSERT_AFTER it i h) (ys @ it # i # zs)" using dll_LIST_INSERT_AFTER [of h ys it zs i] h i yz(1) by simp
    with dll_LIST_REMOVE [OF this] yz show ?thesis by (simp add: insert_after_mid remove1_append)
  qed
  consider (new) "ph_inum (pi_hdr y) < ph_inum (pi_hdr x)"
    | (switch) "\<not> ph_inum (pi_hdr y) < ph_inum (pi_hdr x)" "\<not> pi_committed y" "ph_ballot (pi_hdr y) < ph_ballot (pi_hdr x)"
    | (keep) "\<not> ph_inum (pi_hdr y) < ph_inum (pi_hdr x)" "pi_committed y \<or> \<not> ph_ballot (pi_hdr y) < ph_ballot (pi_hdr x)"
    by blast
  then show ?thesis
  proof cases
    case new
    then have "it \<in> set (ilist s)" using m x y by (auto simp: merge_vote_def ilist_insert_after_def split: if_splits)
    with new m x y ins show ?thesis
      by (auto simp: merge_vote_def merge_links_def ilist_insert_after_def over_def)
  next
    case switch
    then have "it \<in> set (ilist s)" using m x y by (auto simp: merge_vote_def ilist_insert_after_def split: if_splits)
    with switch m x y ins show ?thesis
      by (auto simp: merge_vote_def merge_links_def ilist_insert_after_def ilist_remove_def set_insert_after swap_def over_def)
  next
    case keep
    with m x y h show ?thesis by (auto simp: merge_vote_def merge_links_def)
  qed
qed

lemma vote_links_run:
  assumes h: "dll h (ilist s)" and wf: "log_wf s" and sc: "scratch_ok inst s" and g: "g \<in> set (ilist s)"
    and p: "promise_vote p (inst, Some g) s = Some (st', s')"
  shows "\<exists>h'. vote_links p (inst, Some g) h (over l u s) = Some (st', h', over l u s') \<and> dll h' (ilist s')"
proof -
  obtain i t where t: "scratch_instance inst s = (i, t)" "log_wf t" "i \<notin> set (ilist s @ idefer s)" "i < brk t"
    "iheap t i \<noteq> None" "ilist t = ilist s" "idefer t = idefer s" "\<forall>j\<in>set (ilist s @ idefer s). iheap t j = iheap s j"
    "ended t = ended s" "ihole t = ihole s" by (rule scratch_run [OF wf sc])
  from p t(1) obtain v where v: "paxos_instance_unpack p = Some v" by (auto simp: promise_vote_def bind_Some_iff)
  have it: "i \<notin> set (ilist t @ idefer t)" using t by simp
  obtain w where w: "upd_instance i (\<lambda>_. cleared v) t = Some w" "log_wf w" "iheap w i = Some (cleared v)" "ilist w = ilist t"
    "idefer w = idefer t" "brk w = brk t" "\<forall>j\<in>set (ilist t @ idefer t). iheap w j = iheap t j" "ended w = ended t" "ihole w = ihole t"
    by (rule set_scratch [OF t(2) it t(5)])
  have same: "ilist w = ilist s" using t w by simp
  from p obtain f z where f: "get_instance_glb (Some g) (ph_inum (pi_hdr v)) w = Some (Some f)" and m: "merge_vote i f w = Some (z, s')"
    and st': "st' = (fst z, Some (snd z))"
    using t(1) v w(1) by (auto simp: promise_vote_def bind_Some_iff cleared_def)
  have hw: "dll h (ilist w)" and gw: "g \<in> set (ilist w)" and iw: "i \<notin> set (ilist w)" using h g t(3) same by simp_all
  obtain h' where h': "merge_links i f h (over l u w) = Some (z, h', over l u s')" "dll h' (ilist s')"
    using merge_links_run [OF hw iw m] by blast
  have "glb_links None (Node g) (ph_inum (pi_hdr v)) h (over l u w) = Some (Some f)"
    using glb_links_run [OF hw w(2) gw] f by simp
  then have "vote_links p (inst, Some g) h (over l u s) = Some (st', h', over l u s')"
    using t(1) w(1) v h'(1) st' by (cases z) (simp add: vote_links_def over_scratch over_upd cleared_def)
  with h'(2) show ?thesis by blast
qed

lemma votes_links_run:
  assumes "dll h (ilist s)" "log_wf s" "\<not> ended s" "scratch_ok inst s" "g \<in> set (ilist s)"
    "map paxos_instance_unpack ps = map Some vs" "sorted (map (\<lambda>v. ph_inum (pi_hdr v)) vs)"
    "\<forall>v\<in>set vs. the (inum_of s g) \<le> ph_inum (pi_hdr v)" "promise_votes ps (inst, Some g) s = Some s'"
  shows "\<exists>h'. votes_links ps (inst, Some g) h (over l u s) = Some (h', over l u s') \<and> dll h' (ilist s')"
  using assms
proof (induction ps arbitrary: vs inst g s h)
  case (Cons p ps)
  then obtain v vs' where vs: "vs = v # vs'" "paxos_instance_unpack p = Some v"
    "map paxos_instance_unpack ps = map Some vs'" by (cases vs) auto
  let ?n = "ph_inum (pi_hdr v)"
  have gn: "the (inum_of s g) \<le> ?n" using Cons.prems(8) vs(1) by simp
  obtain inst' g' t where t: "promise_vote p (inst, Some g) s = Some ((inst', Some g'), t)" "log_wf t" "\<not> ended t"
    "g' \<in> set (ilist t)" "the (inum_of t g') \<le> ?n" "scratch_ok inst' t"
    by (rule promise_vote_run [OF Cons.prems(2-5) gn vs(2) refl])
  obtain h' where h': "vote_links p (inst, Some g) h (over l u s) = Some ((inst', Some g'), h', over l u t)" "dll h' (ilist t)"
    using vote_links_run [OF Cons.prems(1,2,4,5) t(1)] by blast
  have "\<forall>w\<in>set vs'. the (inum_of t g') \<le> ph_inum (pi_hdr w)"
    using Cons.prems(7) vs(1) t(5) by (auto intro: order_trans)
  moreover have "promise_votes ps (inst', Some g') t = Some s'" using Cons.prems(9) t(1) by simp
  moreover have "sorted (map (\<lambda>v. ph_inum (pi_hdr v)) vs')" using Cons.prems(7) vs(1) by simp
  ultimately obtain k where "votes_links ps (inst', Some g') h' (over l u t) = Some (k, over l u s')" "dll k (ilist s')"
    using Cons.IH [OF h'(2) t(2,3,6,4) vs(3)] by blast
  with h'(1) show ?case by simp
qed simp

subsection \<open>From a start that an earlier promise has replaced\<close>

text \<open>
  A replaced instance keeps its number and its links.  If the instance it points to has been reused for a
  greater number further down, the splice behind it cuts out everything between the two.
\<close>

lemma splice_stale:
  assumes h: "dll h (us @ mids @ a # vs)" and x: "x \<notin> set (us @ mids @ a # vs)" and i: "i \<notin> set (us @ mids @ a # vs)" "i \<noteq> x"
    and links: "le_prev h x = link_last us" "le_next h x = Node a"
  shows "dll ((LIST_REMOVE x (LIST_INSERT_AFTER x i h))\<lparr>lh_count := of_nat (length (us @ i # a # vs))\<rparr>) (us @ i # a # vs)"
proof -
  let ?h = "(LIST_REMOVE x (LIST_INSERT_AFTER x i h))\<lparr>lh_count := of_nat (length (us @ i # a # vs))\<rparr>"
  have d: "distinct (us @ mids @ a # vs)" using h by (simp add: dll_def)
  obtain A where A: "Head # map Node us = A @ [link_last us]"
    by (cases us rule: rev_cases) (auto simp: link_last_def intro: that [of "[]"])
  have dA: "distinct (A @ [link_last us])" unfolding A [symmetric] using d by (auto simp: distinct_map inj_on_def)
  have li: "link_last us \<noteq> Node i" "link_last us \<noteq> Node x" using i x by (auto simp: link_last_def)
  have new: "nxt ?h (link_last us) = Node i" "prv ?h (Node i) = link_last us" "nxt ?h (Node i) = Node a" "prv ?h (Node a) = Node i"
    using links i x li by (auto simp: LIST_REMOVE_def LIST_INSERT_AFTER_def list_heap_defs split: link.splits)
  have nx: "nxt ?h w = nxt h w" if "w \<noteq> link_last us" "w \<noteq> Node i" "w \<noteq> Node x" for w
    using that links i x li by (auto simp: LIST_REMOVE_def LIST_INSERT_AFTER_def list_heap_defs split: link.splits)
  have pv: "prv ?h w = prv h w" if "w \<noteq> Node a" "w \<noteq> Node i" for w
    using that links i x li by (auto simp: LIST_REMOVE_def LIST_INSERT_AFTER_def list_heap_defs split: link.splits)
  have "chained h ((Head # map Node us) @ map Node mids @ Node a # map Node vs @ [Head])" using h by (simp add: dll_def)
  then have c: "chained h (A @ link_last us # map Node mids @ Node a # map Node vs @ [Head])" unfolding A by simp
  then have c1: "chained h (A @ [link_last us])" by (subst (asm) chained_append) simp
  have "chained h ((A @ link_last us # map Node mids) @ Node a # map Node vs @ [Head])" using c by simp
  then have c2: "chained h (Node a # map Node vs @ [Head])" by (subst (asm) chained_append) simp
  have "chained ?h (A @ [link_last us])"
  proof (rule chained_cong [OF c1])
    fix w assume w: "w \<in> set (butlast (A @ [link_last us]))"
    then have "w \<in> set (Head # map Node us)" unfolding A by simp
    with w dA x i show "nxt ?h w = nxt h w" by (intro nx) auto
  next
    fix w assume "w \<in> set (tl (A @ [link_last us]))"
    then have "w \<in> set (map Node us)" unfolding A [symmetric] by simp
    with d i show "prv ?h w = prv h w" by (intro pv) auto
  qed
  moreover have "chained ?h (Node a # map Node vs @ [Head])"
  proof (rule chained_cong [OF c2])
    fix w assume "w \<in> set (butlast (Node a # map Node vs @ [Head]))"
    then have w: "w \<in> set (map Node (a # vs))" by (simp add: butlast_append split: if_splits)
    have "link_last us \<notin> set (map Node (a # vs))" using d by (auto simp: link_last_def dest: last_in_set)
    with w x i show "nxt ?h w = nxt h w" by (intro nx) auto
  next
    fix w assume "w \<in> set (tl (Node a # map Node vs @ [Head]))"
    with d i show "prv ?h w = prv h w" by (intro pv) auto
  qed
  ultimately have "chained ?h (A @ link_last us # Node i # Node a # map Node vs @ [Head])"
    using new by (subst chained_append) simp
  then have "chained ?h ((A @ [link_last us]) @ Node i # Node a # map Node vs @ [Head])" by simp
  then have "chained ?h (Head # map Node (us @ i # a # vs) @ [Head])" unfolding A [symmetric] by simp
  moreover have "distinct (us @ i # a # vs)" using d i by auto
  ultimately show ?thesis by (simp add: dll_def)
qed

lemma foreach_count: "foreach_from f (h\<lparr>lh_count := c\<rparr>) l = foreach_from f h l"
  "foreach_rev_from f (h\<lparr>lh_count := c\<rparr>) l = foreach_rev_from f h l"
  by (induction f arbitrary: l) (auto split: link.split)

lemma dll_count_foreach:
  assumes "dll (h\<lparr>lh_count := c\<rparr>) xs" "length xs < fuel"
  shows "LIST_FOREACH fuel h = Some xs" "LIST_FOREACH_REV fuel h = Some (rev xs)"
  using dll_foreach [OF assms] dll_foreach_rev [OF assms]
  by (simp_all add: LIST_FOREACH_def LIST_FOREACH_REV_def foreach_count)

lemma splice_count: "i \<noteq> x \<Longrightarrow> LIST_COUNT (LIST_REMOVE x (LIST_INSERT_AFTER x i h)) = LIST_COUNT h"
  by (simp add: LIST_COUNT_def LIST_REMOVE_def LIST_INSERT_AFTER_def list_heap_defs split: link.split)

lemma stale_vote_run:
  assumes x: "iheap s x = Some X" "le_next h x = Node a" "x < brk s" "a < brk s" and a: "iheap s a = Some Y"
    and v: "paxos_instance_unpack p = Some v" "outvoted v X" and Y: "ph_inum (pi_hdr v) < ph_inum (pi_hdr Y)"
  shows "vote_links p (None, Some x) h s = Some ((Some x, Some (brk s)), LIST_REMOVE x (LIST_INSERT_AFTER x (brk s) h),
    s\<lparr>iheap := (iheap s)(brk s \<mapsto> cleared v), brk := Suc (brk s)\<rparr>)"
proof -
  let ?t = "s\<lparr>iheap := (iheap s)(brk s \<mapsto> cleared v), brk := Suc (brk s)\<rparr>"
  have u: "upd_instance (brk s) (\<lambda>_. v\<lparr>pi_committed := False, pi_cached := False, pi_learned := False\<rparr>)
      (s\<lparr>iheap := (iheap s)(brk s \<mapsto> zero_instance), brk := Suc (brk s)\<rparr>) = Some ?t"
    by (simp add: upd_instance_def cleared_def)
  have g: "glb_links None (Node x) (ph_inum (pi_hdr v)) h ?t = Some (Some x)"
    using x a v(2) Y by (simp add: glb_links.simps [of _ "Node _"] LIST_NEXT_def outvoted_def)
  have "merge_links (brk s) x h ?t = Some ((Some x, brk s), LIST_REMOVE x (LIST_INSERT_AFTER x (brk s) h), ?t)"
    using x v(2) by (simp add: merge_links_def outvoted_def swap_def)
  with u g v(1) show ?thesis by (simp add: vote_links_def scratch_instance_def alloc_instance_def)
qed

text \<open>The list-level merge calls the same splice a fault.\<close>

lemma stale_vote_faults:
  assumes x: "iheap s x = Some X" "x \<notin> set (ilist s)" "snd (unlinked s x) = Some a" "x < brk s" "a < brk s" and a: "iheap s a = Some Y"
    and v: "paxos_instance_unpack p = Some v" "outvoted v X" and Y: "ph_inum (pi_hdr v) < ph_inum (pi_hdr Y)"
  shows "promise_votes [p] (None, Some x) s = None"
proof -
  let ?t = "s\<lparr>iheap := (iheap s)(brk s \<mapsto> cleared v), brk := Suc (brk s)\<rparr>"
  have u: "upd_instance (brk s) (\<lambda>_. v\<lparr>pi_committed := False, pi_cached := False, pi_learned := False\<rparr>)
      (s\<lparr>iheap := (iheap s)(brk s \<mapsto> zero_instance), brk := Suc (brk s)\<rparr>) = Some ?t"
    by (simp add: upd_instance_def cleared_def)
  have "ilist_next ?t x = Some (Some a)" using x by (simp add: ilist_next_def)
  then have g: "get_instance_glb (Some x) (ph_inum (pi_hdr v)) ?t = Some (Some x)"
    using x a v(2) Y by (simp add: get_instance_glb_def glb_walk.simps [of _ "Some _"] outvoted_def)
  have "merge_vote (brk s) x ?t = None"
    using x v(2) by (simp add: merge_vote_def outvoted_def ilist_insert_after_def)
  with u g v(1) show ?thesis by (simp add: promise_vote_def scratch_instance_def alloc_instance_def)
qed

text \<open>
  The log 3, 4, 5, 10 at the addresses 1 to 4, where 4 is not committed and is the start of a prepare and
  5 is committed, and the votes of three promises.
\<close>

definition logged :: "paxid \<Rightarrow> paxid \<Rightarrow> bool \<Rightarrow> paxos_instance" where
  "logged n b c = zero_instance\<lparr>pi_hdr := \<lparr>ph_session = 9, ph_ballot = PPair 1 b, ph_opcode = OP_DECREE, ph_inum = n\<rparr>, pi_committed := c\<rparr>"

definition gap_log :: paxos_session where
  "gap_log = zero_session\<lparr>ihole := 4, ilist := [1, 2, 3, 4], istart := Some 2, brk := 5,
     iheap := [1 \<mapsto> logged 3 1 True, 2 \<mapsto> logged 4 1 False, 3 \<mapsto> logged 5 1 True, 4 \<mapsto> logged 10 1 False]\<rparr>"

definition gap_links :: list_heap where
  "gap_links = fold LIST_INSERT_TAIL [1, 2, 3, 4] (LIST_INIT
     \<lparr>lh_first = Head, lh_last = Head, lh_count = 0, le_next = (\<lambda>_. Head), le_prev = (\<lambda>_. Head)\<rparr>)"

definition gap_promises :: "list_heap \<times> paxos_session" where
  "gap_promises = (let hs = the (votes_links [instance_obj (logged 4 2 False)] (None, Some 2) gap_links gap_log)
     in the (votes_links [instance_obj (logged 4 3 False), instance_obj (logged 9 1 False)] (None, Some 2) (fst hs) (snd hs)))"

lemma gap_links_dll: "dll gap_links (ilist gap_log)"
  by code_simp

lemma gap_promises_links: "let h = fst gap_promises; s = snd gap_promises in
    dll h ([1] @ [6, 3] @ 5 # [4]) \<and> le_prev h 2 = Node 1 \<and> le_next h 2 = Node 5 \<and>
    iheap s 2 = Some (logged 4 1 False) \<and> iheap s 3 = Some (logged 5 1 True) \<and> iheap s 5 = Some (instance_sent (logged 9 1 False)) \<and> brk s = 7"
  by code_simp

subsection \<open>Decreeing again after a merge\<close>

text \<open>
  Once a promise has been merged from a start in the list, the walks that follow from the same start find
  only instances in the list, even when the promise itself has replaced the start: the start is then the
  scratch allocation, and still points to the instance that came in its place.  So the end of a prepare
  does not splice behind an unlinked instance.
\<close>

definition followed :: "iref \<Rightarrow> iref option \<Rightarrow> iref \<Rightarrow> paxos_session \<Rightarrow> bool" where
  "followed g inst it s \<longleftrightarrow> g \<in> set (ilist s) \<or> inst = Some g \<and> (\<exists>x k. iheap s g = Some x \<and> ilist_next s g = Some (Some k) \<and>
     k \<in> set (ilist s) \<and> the (inum_of s k) \<le> ph_inum (pi_hdr x) \<and> the (inum_of s k) \<le> the (inum_of s it))"

lemma glb_at_greatest:
  assumes wf: "log_wf s" and h: "glb_at n s h" "h \<in> set (ilist s)" and k: "k \<in> set (ilist s)" "the (inum_of s k) \<le> n"
  shows "the (inum_of s k) \<le> the (inum_of s h)"
proof -
  have ord: "ordered paxid_compare (inum_of s) (ilist s)" and d: "distinct (ilist s)" using wf by (simp_all add: log_wf_def)
  obtain ys zs where yz: "ilist s = ys @ h # zs" using h(2) by (auto simp: in_set_conv_decomp)
  show ?thesis
  proof (cases "k \<in> set zs")
    case True
    then have "n < the (inum_of s (hd zs))" by (intro glb_at_hd [OF h(1) yz d]) auto
    moreover have "the (inum_of s (hd zs)) \<le> the (inum_of s k)"
      using True ord yz by (cases zs) (auto simp: ordered_def sorted_wrt_append less_imp_le)
    ultimately show ?thesis using k(2) by simp
  next
    case False
    with k(1) yz ord show ?thesis by (auto simp: ordered_def sorted_wrt_append less_imp_le)
  qed
qed

lemma followed_glb:
  assumes wf: "log_wf s" and f: "followed g inst it s" and r: "get_instance_glb (Some g) n s = Some (Some h)"
  shows "h \<in> set (ilist s)"
proof -
  have walk: "h \<in> set (ilist s)" if "k \<in> set (ilist s)" "glb_walk prev (Some k) n s = Some (Some h)" "the (inum_of s k) \<le> n" for k prev
  proof -
    from that(1) obtain pre post where "ilist s = pre @ k # post" by (auto simp: in_set_conv_decomp)
    from glb_walk_run [OF wf this that(3), of prev] that(2) this show ?thesis by auto
  qed
  show ?thesis
  proof (cases "g \<in> set (ilist s)")
    case True
    then obtain x where x: "iheap s g = Some x" using log_wf_alloc [OF wf] by blast
    have "\<not> n < ph_inum (pi_hdr x)" using r x by (auto simp: get_instance_glb_def glb_walk.simps [of _ "Some g"])
    with x have "the (inum_of s g) \<le> n" by (simp add: inum_of_def)
    with True r show ?thesis using walk by (simp add: get_instance_glb_def)
  next
    case False
    with f obtain x k where x: "iheap s g = Some x" "ilist_next s g = Some (Some k)" "k \<in> set (ilist s)"
      "the (inum_of s k) \<le> ph_inum (pi_hdr x)" by (auto simp: followed_def)
    with r have "\<not> n < ph_inum (pi_hdr x)" "glb_walk (Some g) (Some k) n s = Some (Some h)"
      by (auto simp: get_instance_glb_def glb_walk.simps [of _ "Some g"] split: if_splits)
    with x show ?thesis using walk by auto
  qed
qed

lemma merge_followed:
  assumes wf: "log_wf s" and g: "g \<in> set (ilist s) \<or> i = g \<and> (\<exists>k. ilist_next s g = Some (Some k) \<and> k \<in> set (ilist s) \<and>
      the (inum_of s k) \<le> the (inum_of s h) \<and> the (inum_of s k) \<le> n)"
    and i: "i \<notin> set (ilist s)" "iheap s i = Some x" "ph_inum (pi_hdr x) = n" and h: "h \<in> set (ilist s)"
    and m: "merge_vote i h s = Some ((inst', h'), s')"
  shows "followed g inst' h' s'"
proof -
  obtain y where y: "iheap s h = Some y" using log_wf_alloc [OF wf h] by blast
  have d: "distinct (ilist s)" using wf by (simp add: log_wf_def)
  obtain ys zs where yz: "ilist s = ys @ h # zs" "h \<notin> set ys" using h by (metis split_list_first)
  consider (new) "ph_inum (pi_hdr y) < n"
    | (switch) "\<not> ph_inum (pi_hdr y) < n" "\<not> pi_committed y" "ph_ballot (pi_hdr y) < ph_ballot (pi_hdr x)"
    | (keep) "\<not> ph_inum (pi_hdr y) < n" "pi_committed y \<or> \<not> ph_ballot (pi_hdr y) < ph_ballot (pi_hdr x)" by blast
  then show ?thesis
  proof cases
    case new
    then have "merge_vote i h s = Some ((None, h), (if n = ihole s then s\<lparr>istart := Some i\<rparr> else s)\<lparr>ilist := insert_after (ilist s) h i\<rparr>)"
      using i y h by (simp add: merge_vote_def ilist_insert_after_def)
    with m have "ilist s' = insert_after (ilist s) h i" by auto
    then have "set (ilist s') = insert i (set (ilist s))" using set_insert_after [OF h, of i] by simp
    with g show ?thesis by (auto simp: followed_def)
  next
    case switch
    moreover have "ph_inum (pi_hdr x) = n" by (rule i(3))
    ultimately have "merge_vote i h s = Some ((Some h, i), s\<lparr>ilist := ys @ i # zs,
        unlinked := (unlinked s)(h := (pred_in (ys @ h # i # zs) h, succ_in (ys @ h # i # zs) h))\<rparr>)"
      using i(2) y yz
      by (simp add: merge_vote_def ilist_insert_after_def ilist_remove_def insert_after_mid remove1_append swap_def)
    with m have s': "ilist s' = ys @ i # zs" "inst' = Some h" "h' = i" "iheap s' = iheap s"
      "snd (unlinked s' h) = succ_in (ys @ h # i # zs) h" by auto
    have "distinct (ys @ h # i # zs)" using d i(1) unfolding yz(1) by auto
    then have nx: "snd (unlinked s' h) = Some i" using s'(5) by (simp add: succ_in_mid)
    show ?thesis
    proof (cases "g = h")
      case True
      have "h \<notin> set (ilist s')" using s'(1) yz d i h by auto
      then have "ilist_next s' h = Some (Some i)" using s'(4) nx y by (simp add: ilist_next_def)
      with True s' i y switch(1) show ?thesis by (simp add: followed_def inum_of_def not_less)
    next
      case False
      with g s'(1) yz show ?thesis by (auto simp: followed_def)
    qed
  next
    case keep
    then have "s' = s" "inst' = Some i" "h' = h" using m i y by (auto simp: merge_vote_def)
    with g i show ?thesis by (auto simp: followed_def)
  qed
qed

lemma promise_vote_followed:
  assumes wf: "log_wf s" and sc: "scratch_ok inst s" and it: "it \<in> set (ilist s)" and f: "followed g inst it s"
    and p: "promise_vote p (inst, Some it) s = Some ((inst', Some it'), s')"
  obtains v where "paxos_instance_unpack p = Some v" "the (inum_of s it) \<le> ph_inum (pi_hdr v)" "followed g inst' it' s'"
proof -
  obtain i t where t: "scratch_instance inst s = (i, t)" "log_wf t" "i \<notin> set (ilist s @ idefer s)" "i < brk t"
    "iheap t i \<noteq> None" "ilist t = ilist s" "idefer t = idefer s" "\<forall>j\<in>set (ilist s @ idefer s). iheap t j = iheap s j"
    "ended t = ended s" "ihole t = ihole s" by (rule scratch_run [OF wf sc])
  from p t(1) obtain v where v: "paxos_instance_unpack p = Some v" by (auto simp: promise_vote_def bind_Some_iff)
  have ni: "i \<notin> set (ilist t @ idefer t)" using t by simp
  obtain w where w: "upd_instance i (\<lambda>_. cleared v) t = Some w" "log_wf w" "iheap w i = Some (cleared v)" "ilist w = ilist t"
    "idefer w = idefer t" "brk w = brk t" "\<forall>j\<in>set (ilist t @ idefer t). iheap w j = iheap t j" "ended w = ended t" "ihole w = ihole t"
    by (rule set_scratch [OF t(2) ni t(5)])
  let ?n = "ph_inum (pi_hdr v)"
  from p obtain h where h: "get_instance_glb (Some it) ?n w = Some (Some h)" and m: "merge_vote i h w = Some ((inst', it'), s')"
    using t(1) v w(1) by (auto simp: promise_vote_def bind_Some_iff cleared_def)
  have same: "ilist w = ilist s" "\<And>j. j \<in> set (ilist s) \<Longrightarrow> inum_of w j = inum_of s j" using t w by (simp_all add: inum_of_def)
  obtain y where y: "iheap w it = Some y" using log_wf_alloc [OF w(2)] it same by auto
  have "\<not> ?n < ph_inum (pi_hdr y)" using h y by (auto simp: get_instance_glb_def glb_walk.simps [of _ "Some it"])
  then have n: "the (inum_of w it) \<le> ?n" using y by (simp add: inum_of_def)
  have itw: "it \<in> set (ilist w)" using it same by simp
  have hw: "h \<in> set (ilist w)" "glb_at ?n w h"
    using get_instance_glb_run [OF w(2) itw n] h by (metis option.inject)+
  have "g \<in> set (ilist w) \<or> i = g \<and> (\<exists>k. ilist_next w g = Some (Some k) \<and> k \<in> set (ilist w) \<and>
      the (inum_of w k) \<le> the (inum_of w h) \<and> the (inum_of w k) \<le> ?n)"
  proof (cases "g \<in> set (ilist s)")
    case False
    with f obtain k where k: "inst = Some g" "ilist_next s g = Some (Some k)" "k \<in> set (ilist s)"
      "the (inum_of s k) \<le> the (inum_of s it)" by (auto simp: followed_def)
    then have i: "i = g" "t = s" using t(1) by (simp_all add: scratch_instance_def)
    then have "ilist_next w g = ilist_next s g"
      using w(1) False k(2) by (auto simp: ilist_next_def upd_instance_def bind_Some_iff)
    moreover have kn: "the (inum_of w k) \<le> ?n" using k(3,4) it n same(2) by (metis order_trans)
    moreover have "the (inum_of w k) \<le> the (inum_of w h)"
      using k(3) same(1) kn by (intro glb_at_greatest [OF w(2) hw(2,1)]) simp_all
    ultimately show ?thesis using i k same(1) by auto
  qed (use same in simp)
  then have "followed g inst' it' s'"
    using merge_followed [OF w(2) _ _ w(3) _ hw(1) m] ni w(4) by simp
  with v n it same(2) show thesis using that by simp
qed

lemma promise_votes_followed:
  assumes "log_wf s" "\<not> ended s" "scratch_ok inst s" "it \<in> set (ilist s)" "followed g inst it s"
    "promise_votes ps (inst, Some it) s = Some s'"
  shows "log_wf s' \<and> (\<exists>inst' it'. followed g inst' it' s')"
  using assms
proof (induction ps arbitrary: inst it s)
  case (Cons p ps)
  then obtain st t where st: "promise_vote p (inst, Some it) s = Some (st, t)" "promise_votes ps st t = Some s'"
    by (auto simp: bind_Some_iff)
  then obtain inst' it' where i: "st = (inst', Some it')" by (auto simp: promise_vote_def bind_Some_iff split_beta)
  obtain v where v: "paxos_instance_unpack p = Some v" "the (inum_of s it) \<le> ph_inum (pi_hdr v)" "followed g inst' it' t"
    using st(1) unfolding i by (rule promise_vote_followed [OF Cons.prems(1,3,4,5)])
  obtain inst2 it2 t2 where t2: "promise_vote p (inst, Some it) s = Some ((inst2, Some it2), t2)" "log_wf t2" "\<not> ended t2"
    "it2 \<in> set (ilist t2)" "scratch_ok inst2 t2" by (rule promise_vote_run [OF Cons.prems(1-4) v(2,1) refl])
  with st i v(3) show ?case using Cons.IH [of t inst' it'] by simp
qed auto

lemma merged_start_followed:
  assumes "log_wf s" "\<not> ended s" "g \<in> set (ilist s)" "promise_votes ps (None, Some g) s = Some t"
    and "get_instance_glb (Some g) n t = Some (Some h)"
  shows "h \<in> set (ilist t)"
  using promise_votes_followed [of s None g g ps t] followed_glb [OF _ _ assms(5)] assms(1-4)
  by (auto simp: scratch_ok_def followed_def)

end
