(* ===== verification/Redecree.thy ===== *)
theory Redecree
  imports Log_Facts
begin

section \<open>Ending a prepare\<close>

text \<open>
  Total correctness of the second half of a prepare.  The re-decree loop goes through all numbers from the
  hole to the last instance of the log, keeps what is committed, decrees again what is not, and fills every
  gap with a null decree.  The deferred decrees then follow at consecutive numbers.
\<close>

definition redecree_of :: "paxos_session \<Rightarrow> paxos_instance \<Rightarrow> paxos_instance" where
  "redecree_of s x = instance_init_metadata (x\<lparr>pi_hdr := header_init s OP_DECREE (ph_inum (pi_hdr x))\<rparr>)"

definition null_instance :: "paxid \<Rightarrow> reqid \<Rightarrow> paxos_instance" where
  "null_instance n rid = zero_instance\<lparr>pi_hdr := zero_header\<lparr>ph_inum := n\<rparr>,
     pi_val := \<lparr>pv_dkind = DEC_NULL, pv_reqid = rid, pv_extra = 0\<rparr>\<rparr>"

definition redecreed :: "paxos_session \<Rightarrow> paxid \<Rightarrow> paxos_instance option \<Rightarrow> paxos_instance \<Rightarrow> bool" where
  "redecreed s n old y \<longleftrightarrow> (case old of
     Some x \<Rightarrow> y = (if pi_committed x then x else redecree_of s x)
   | None \<Rightarrow> \<exists>g. y = redecree_of s (null_instance n (PPair (self_id s) g)))"

definition acceptors_ok :: "paxos_session \<Rightarrow> bool" where
  "acceptors_ok s \<longleftrightarrow> (\<forall>a\<in>set (alist s). aheap s a \<noteq> None)"

definition redecree_same :: "paxos_session \<Rightarrow> paxos_session \<Rightarrow> bool" where
  "redecree_same s t \<longleftrightarrow> ballot t = ballot s \<and> session_id t = session_id s \<and> self_id t = self_id s \<and>
     alist t = alist s \<and> aheap t = aheap s \<and> idefer t = idefer s \<and> prep t = prep s \<and> ended t = ended s \<and> ihole t = ihole s"

lemma redecree_same_refl [simp]: "redecree_same s s" by (simp add: redecree_same_def)
lemma redecree_same_trans: "redecree_same s t \<Longrightarrow> redecree_same t u \<Longrightarrow> redecree_same s u"
  by (simp add: redecree_same_def)

lemma redecree_of_cong: "redecree_same s t \<Longrightarrow> redecree_of t x = redecree_of s x"
  by (simp add: redecree_same_def redecree_of_def header_init_def)

lemma redecree_of_inum [simp]: "ph_inum (pi_hdr (redecree_of s x)) = ph_inum (pi_hdr x)"
  by (simp add: redecree_of_def header_init_def instance_init_metadata_def)

text \<open>Allocated instances that are not in the log are left alone.\<close>

definition off_log :: "paxos_session \<Rightarrow> paxos_session \<Rightarrow> bool" where
  "off_log s t \<longleftrightarrow> brk s \<le> brk t \<and> (\<forall>k<brk s. k \<notin> set (ilist s) \<longrightarrow> k \<notin> set (ilist t) \<and> iheap t k = iheap s k)"

lemma off_log_refl [simp]: "off_log s s" by (simp add: off_log_def)
lemma off_log_trans: "off_log s t \<Longrightarrow> off_log t u \<Longrightarrow> off_log s u"
  by (auto simp: off_log_def)

lemma redecree_run:
  assumes wf: "log_wf s" and i: "i \<in> set (ilist s)" "iheap s i = Some x" and ok: "acceptors_ok s"
    and u: "\<not> pi_committed x"
  obtains s' where "redecree i s = Some (0, s')" "log_wf s'" "ilist s' = ilist s" "redecree_same s s'"
    "instance_at s' = (instance_at s)(ph_inum (pi_hdr x) \<mapsto> redecree_of s x)"
    "iheap s' = (iheap s)(i \<mapsto> redecree_of s x)" "off_log s s'"
proof -
  let ?t = "s\<lparr>iheap := (iheap s)(i \<mapsto> redecree_of s x)\<rparr>"
  let ?s = "?t\<lparr>out := out s @ map (\<lambda>p. Send p (instance_message (redecree_of s x))) (live_peers ?t)\<rparr>"
  have "paxos_broadcast (instance_message (redecree_of s x)) ?t = Some (0, ?s)"
    using paxos_broadcast_run [of ?t "instance_message (redecree_of s x)"] ok by (simp add: acceptors_ok_def)
  then have r: "redecree i s = Some (0, ?s)"
    using i by (simp add: redecree_def upd_instance_def paxos_broadcast_instance_def redecree_of_def)
  have wf': "log_wf ?s" by (rule log_wf_same [OF wf]) (simp_all add: inum_of_def i)
  have at: "instance_at ?s = (instance_at s)(ph_inum (pi_hdr x) \<mapsto> redecree_of s x)"
  proof (rule instance_at_update [OF wf wf', of i])
    fix j assume "j \<noteq> i"
    then show "j \<in> set (ilist ?s) \<longleftrightarrow> j \<in> set (ilist s) \<and> inum_of s j \<noteq> Some (ph_inum (pi_hdr x))"
      using paxid.ordered_unique [of "inum_of s" "ilist s" j i "ph_inum (pi_hdr x)"] wf i
      by (auto simp: log_wf_def inum_of_def)
  qed (use i in \<open>simp_all add: inum_of_def\<close>)
  show thesis by (rule that [OF r wf' _ _ at]) (use i in \<open>auto simp: redecree_same_def off_log_def\<close>)
qed

lemma null_decree_run:
  assumes wf: "log_wf s" "\<not> ended s" and g: "g \<in> set (ilist s)" "glb_at n s g" "iheap s g = Some y" "ph_inum (pi_hdr y) < n"
  obtains j s' where "null_decree g n s = Some (j, s')" "log_wf s'" "j \<in> set (ilist s')"
    "iheap s' j = Some (null_instance n (PPair (self_id s) (req_id s + 1)))" "redecree_same s s'"
    "instance_at s' = (instance_at s)(n \<mapsto> null_instance n (PPair (self_id s) (req_id s + 1)))"
    "set (ilist s) \<subseteq> set (ilist s')" "inum_of s' g = inum_of s g" "off_log s s'"
proof -
  let ?x = "null_instance n (PPair (self_id s) (req_id s + 1))"
  let ?j = "brk s"
  let ?t = "s\<lparr>req_id := req_id s + 1, iheap := (iheap s)(?j \<mapsto> ?x), brk := Suc ?j, ilist := insert_after (ilist s) g ?j\<rparr>"
  let ?s = "if n = ihole s then ?t\<lparr>istart := Some ?j\<rparr> else ?t"
  have r: "null_decree g n s = Some (?j, ?s)"
    using g by (simp add: null_decree_def alloc_instance_def ilist_insert_after_def null_instance_def Let_def)
  have new: "?j \<notin> set (ilist s)" using wf(1) by (auto simp: log_wf_def)
  have set: "set (insert_after (ilist s) g ?j) = insert ?j (set (ilist s))" by (rule set_insert_after [OF g(1)])
  have "log_step s ?s" by (rule null_decree_step(1) [OF r g(2)]) (use g in simp)
  then have wf': "log_wf ?s" using wf by (auto simp: log_step_def log_inv_def)
  have at: "instance_at s n = None" using glb_at_instance [OF wf(1) g(1,2,3)] g(4) by simp
  have "instance_at ?s = (instance_at s)(n \<mapsto> ?x)"
  proof (rule instance_at_update [OF wf(1) wf', of ?j])
    fix i assume "i \<noteq> ?j"
    moreover have "inum_of s i \<noteq> Some n" if "i \<in> set (ilist s)"
      using at that log_wf_alloc [OF wf(1) that] unfolding instance_at_None [OF wf(1)] by (auto simp: inum_of_def)
    ultimately show "i \<in> set (ilist ?s) \<longleftrightarrow> i \<in> set (ilist s) \<and> inum_of s i \<noteq> Some n" using set by auto
  qed (use new set in \<open>simp_all add: null_instance_def\<close>)
  with r wf' set g new show thesis
    by (intro that [of ?j ?s]) (auto simp: redecree_same_def inum_of_def off_log_def)
qed

text \<open>The last instance of a log, and where the loop stops.\<close>

lemma glb_not_last:
  assumes wf: "log_wf s" and g: "g \<in> set (ilist s)" "glb_at n s g"
    and l: "l \<in> set (ilist s)" "inum_of s l = Some L" "n \<le> L" "the (inum_of s g) < n"
  shows "Some g \<noteq> ilist_last s"
proof
  assume e: "Some g = ilist_last s"
  with g(1) obtain xs where xs: "ilist s = xs @ [g]"
    by (cases "ilist s" rule: rev_cases) (auto simp: ilist_last_def split: if_splits)
  with l have "l \<in> set xs \<or> l = g" by auto
  with wf xs l show False by (auto simp: log_wf_def ordered_def sorted_wrt_append dest: order_less_trans)
qed

lemma glb_is_last:
  assumes wf: "log_wf s" and g: "g \<in> set (ilist s)" "glb_at n s g" and L: "\<And>i. i \<in> set (ilist s) \<Longrightarrow> the (inum_of s i) \<le> n"
  shows "Some g = ilist_last s"
proof -
  obtain xs zs where xz: "ilist s = xs @ g # zs" using g(1) by (auto simp: in_set_conv_decomp)
  have d: "distinct (ilist s)" using wf by (simp add: log_wf_def)
  have "zs = []"
  proof (rule ccontr)
    assume "zs \<noteq> []"
    moreover from this have "hd zs \<in> set (ilist s)" using xz by simp
    ultimately show False using glb_at_hd [OF g(2) xz d] L leD by blast
  qed
  with xz show ?thesis by (simp add: ilist_last_def)
qed

definition log_to :: "paxid \<Rightarrow> paxos_session \<Rightarrow> bool" where
  "log_to L s \<longleftrightarrow> instance_at s L \<noteq> None \<and> (\<forall>m>L. instance_at s m = None)"

lemma log_toD:
  assumes "log_to L s" "log_wf s"
  shows "\<exists>l\<in>set (ilist s). inum_of s l = Some L" "\<And>i. i \<in> set (ilist s) \<Longrightarrow> the (inum_of s i) \<le> L"
proof -
  from assms show "\<exists>l\<in>set (ilist s). inum_of s l = Some L"
    by (force simp: log_to_def instance_at_iff inum_of_def)
  fix i assume i: "i \<in> set (ilist s)"
  obtain x where x: "iheap s i = Some x" using log_wf_alloc [OF assms(2) i] by blast
  show "the (inum_of s i) \<le> L"
  proof (rule ccontr)
    assume "\<not> ?thesis"
    then have "instance_at s (ph_inum (pi_hdr x)) = None" using assms(1) x by (simp add: log_to_def inum_of_def not_le)
    with i x show False by (auto simp: instance_at_None [OF assms(2)])
  qed
qed

lemma log_to_last:
  assumes wf: "log_wf s" and l: "ilist_last s = Some l" "inum_of s l = Some L"
  shows "log_to L s"
proof -
  from l(1) obtain xs where xs: "ilist s = xs @ [l]"
    by (cases "ilist s" rule: rev_cases) (auto simp: ilist_last_def split: if_splits)
  have le: "the (inum_of s i) \<le> L" if "i \<in> set (ilist s)" for i
    using that wf xs l(2) by (auto simp: log_wf_def ordered_def sorted_wrt_append less_imp_le)
  have "instance_at s m = None" if "L < m" for m
    unfolding instance_at_None [OF wf] using le that by (fastforce simp: inum_of_def)
  moreover have "instance_at s L \<noteq> None"
    using wf xs l(2) instance_at_None [of s L] by (fastforce simp: inum_of_def)
  ultimately show ?thesis by (simp add: log_to_def)
qed

lemma log_to_upd: "log_to L s \<Longrightarrow> instance_at t = (instance_at s)(n \<mapsto> x) \<Longrightarrow> n \<le> L \<Longrightarrow> log_to L t"
  by (auto simp: log_to_def)

definition loop_stepped :: "paxid \<Rightarrow> paxid \<Rightarrow> paxos_session \<Rightarrow> iref \<Rightarrow> paxos_session \<Rightarrow> paxos_instance \<Rightarrow> bool" where
  "loop_stepped n L s g t y \<longleftrightarrow> log_wf t \<and> \<not> ended t \<and> g \<in> set (ilist t) \<and> the (inum_of t g) \<le> n \<and> redecree_same s t \<and>
     log_to L t \<and> instance_at t = (instance_at s)(n \<mapsto> y) \<and> redecreed s n (instance_at s n) y \<and> off_log s t"

text \<open>A number that is missing from the log: a null decree is put there and decreed.\<close>

lemma redecree_gap_run:
  assumes wf: "log_wf s" "\<not> ended s" and g: "get_instance_glb (Some it) n s = Some (Some g)" "g \<in> set (ilist s)" "glb_at n s g"
    and ok: "acceptors_ok s" and L: "log_to L s" "n \<le> L" and x: "iheap s g = Some x" "ph_inum (pi_hdr x) < n"
  shows "\<exists>t y. redecree_loop (Some it) n s = redecree_loop (Some g) (n + 1) t \<and> loop_stepped n L s g t y"
proof -
  obtain l where l: "l \<in> set (ilist s)" "inum_of s l = Some L" using log_toD(1) [OF L(1) wf(1)] by blast
  have nl: "Some g \<noteq> ilist_last s"
    by (rule glb_not_last [OF wf(1) g(2,3) l L(2)]) (use x in \<open>simp add: inum_of_def\<close>)
  let ?x = "null_instance n (PPair (self_id s) (req_id s + 1))"
  obtain j t where t: "null_decree g n s = Some (j, t)" "log_wf t" "j \<in> set (ilist t)" "iheap t j = Some ?x"
    "redecree_same s t" "instance_at t = (instance_at s)(n \<mapsto> ?x)" "set (ilist s) \<subseteq> set (ilist t)"
    "inum_of t g = inum_of s g" "off_log s t" by (rule null_decree_run [OF wf g(2,3) x])
  have okt: "acceptors_ok t" using ok t(5) by (simp add: acceptors_ok_def redecree_same_def)
  have unc: "\<not> pi_committed ?x" by (simp add: null_instance_def zero_instance_def)
  have nx: "ph_inum (pi_hdr ?x) = n" by (simp add: null_instance_def)
  obtain u where u: "redecree j t = Some (0, u)" "log_wf u" "ilist u = ilist t" "redecree_same t u"
    "instance_at u = (instance_at t)(n \<mapsto> redecree_of t ?x)" "iheap u = (iheap t)(j \<mapsto> redecree_of t ?x)" "off_log t u"
    by (rule redecree_run [OF t(2,3,4) okt unc, unfolded nx])
  have au: "instance_at u = (instance_at s)(n \<mapsto> redecree_of s ?x)"
    using u(5) t(6) redecree_of_cong [OF t(5)] by simp
  have "j \<noteq> g" using t(4) t(8) x nx by (auto simp: inum_of_def)
  with u(6) have "inum_of u g = inum_of t g" by (simp add: inum_of_def)
  then have "inum_of u g = inum_of s g" using t(8) by (rule trans)
  then have ing: "the (inum_of u g) \<le> n" using x by (auto simp: inum_of_def)
  have "redecreed s n (instance_at s n) (redecree_of s ?x)"
    using glb_at_instance [OF wf(1) g(2,3) x(1)] x(2) by (auto simp: redecreed_def)
  then have "loop_stepped n L s g u (redecree_of s ?x)"
    using u(2,3,4) t(7) g(2) wf(2) ing log_to_upd [OF L(1) au L(2)] au redecree_same_trans [OF t(5) u(4)] off_log_trans [OF t(9) u(7)]
    by (auto simp: loop_stepped_def redecree_same_def)
  moreover have "redecree_loop (Some it) n s = redecree_loop (Some g) (n + 1) u"
    using g(1) x nl t(1) u(1) by (subst redecree_loop.simps) simp
  ultimately show ?thesis by blast
qed

text \<open>A number that is in the log: it is decreed again unless it is committed.\<close>

lemma redecree_listed_run:
  assumes wf: "log_wf s" "\<not> ended s" and g: "get_instance_glb (Some it) n s = Some (Some g)" "g \<in> set (ilist s)" "glb_at n s g"
    and ok: "acceptors_ok s" and L: "log_to L s" "n \<le> L" and x: "iheap s g = Some x" "ph_inum (pi_hdr x) = n"
  shows "\<exists>t y. redecree_loop (Some it) n s = redecree_loop (Some g) (n + 1) t \<and> loop_stepped n L s g t y"
proof -
  have atn: "instance_at s n = Some x" using glb_at_instance [OF wf(1) g(2,3) x(1)] x(2) by simp
  show ?thesis
  proof (cases "pi_committed x")
    case True
    have "redecree_loop (Some it) n s = redecree_loop (Some g) (n + 1) s"
      using g(1) x True by (subst redecree_loop.simps) simp
    moreover have "instance_at s = (instance_at s)(n \<mapsto> x)" using atn by auto
    then have "loop_stepped n L s g s x" using wf g(2) x True atn L by (simp add: loop_stepped_def redecreed_def inum_of_def)
    ultimately show ?thesis by blast
  next
    case unc: False
    obtain u where u: "redecree g s = Some (0, u)" "log_wf u" "ilist u = ilist s" "redecree_same s u"
      "instance_at u = (instance_at s)(n \<mapsto> redecree_of s x)" "iheap u = (iheap s)(g \<mapsto> redecree_of s x)" "off_log s u"
      by (rule redecree_run [OF wf(1) g(2) x(1) ok unc, unfolded x(2)])
    have "redecree_loop (Some it) n s = redecree_loop (Some g) (n + 1) u"
      using g(1) x unc u(1) by (subst redecree_loop.simps) simp
    moreover have "the (inum_of u g) \<le> n" using u(6) x(2) by (simp add: inum_of_def)
    moreover have "redecreed s n (instance_at s n) (redecree_of s x)" using atn unc by (simp add: redecreed_def)
    moreover have "\<not> ended u" using u(4) wf(2) by (simp add: redecree_same_def)
    ultimately have "loop_stepped n L s g u (redecree_of s x)"
      using u g(2) log_to_upd [OF L(1) u(5) L(2)] by (simp add: loop_stepped_def)
    with \<open>redecree_loop (Some it) n s = redecree_loop (Some g) (n + 1) u\<close> show ?thesis by blast
  qed
qed

lemma redecree_loop_step_run:
  assumes wf: "log_wf s" "\<not> ended s" and it: "it \<in> set (ilist s)" "the (inum_of s it) \<le> n"
    and ok: "acceptors_ok s" and L: "log_to L s" "n \<le> L"
  obtains g s' y where "redecree_loop (Some it) n s = redecree_loop (Some g) (n + 1) s'" "loop_stepped n L s g s' y"
proof -
  obtain g where g: "get_instance_glb (Some it) n s = Some (Some g)" "g \<in> set (ilist s)" "glb_at n s g"
    by (rule get_instance_glb_run [OF wf(1) it])
  from g(3) obtain x where x: "iheap s g = Some x" "ph_inum (pi_hdr x) \<le> n" by (auto simp: glb_at_def)
  show thesis
  proof (cases "ph_inum (pi_hdr x) < n")
    case True
    with redecree_gap_run [OF wf g ok L x(1)] show thesis using that by blast
  next
    case False
    with x(2) have "ph_inum (pi_hdr x) = n" by simp
    with redecree_listed_run [OF wf g ok L x(1)] show thesis using that by blast
  qed
qed


lemma redecreed_cong: "redecree_same s t \<Longrightarrow> redecreed t = redecreed s"
proof -
  assume st: "redecree_same s t"
  then have "redecree_of t = redecree_of s" by (intro ext redecree_of_cong)
  moreover have "self_id t = self_id s" using st by (simp add: redecree_same_def)
  ultimately show ?thesis by (intro ext) (simp add: redecreed_def split: option.split)
qed

lemma redecree_loop_done:
  assumes wf: "log_wf s" and it: "it \<in> set (ilist s)" "the (inum_of s it) \<le> n" and L: "log_to L s" "L < n"
  shows "redecree_loop (Some it) n s = Some (0, s)"
proof -
  obtain g where g: "get_instance_glb (Some it) n s = Some (Some g)" "g \<in> set (ilist s)" "glb_at n s g"
    by (rule get_instance_glb_run [OF wf it])
  from g(3) obtain x where x: "iheap s g = Some x" by (auto simp: glb_at_def)
  have "the (inum_of s g) \<le> L" by (rule log_toD(2) [OF L(1) wf g(2)])
  with x L(2) have lt: "ph_inum (pi_hdr x) < n" by (simp add: inum_of_def)
  have "ilist_last s = Some g"
    using log_toD(2) [OF L(1) wf] L(2) by (intro glb_is_last [OF wf g(2,3), symmetric]) (meson less_imp_le order_trans)
  with g(1) x lt show ?thesis by (subst redecree_loop.simps) simp
qed

lemma redecree_loop_run:
  assumes "log_wf s" "\<not> ended s" "it \<in> set (ilist s)" "the (inum_of s it) \<le> n" "acceptors_ok s"
    "log_to L s" "L < - 1"
  shows "\<exists>s'. redecree_loop (Some it) n s = Some (0, s') \<and> log_wf s' \<and> \<not> ended s' \<and> redecree_same s s' \<and> off_log s s' \<and>
    (\<forall>m. if n \<le> m \<and> m \<le> L then \<exists>y. instance_at s' m = Some y \<and> redecreed s m (instance_at s m) y
         else instance_at s' m = instance_at s m)"
  using assms
proof (induction "unat L + 1 - unat n" arbitrary: it n s)
  case 0
  then have "L < n" by (simp add: word_less_nat_alt)
  with 0 have "redecree_loop (Some it) n s = Some (0, s)" by (intro redecree_loop_done)
  with 0 \<open>L < n\<close> show ?case by (intro exI [of _ s]) (auto simp: not_le dest: order_trans)
next
  case (Suc k)
  then have nL: "n \<le> L" by (simp add: word_le_nat_alt)
  obtain g t y where t: "redecree_loop (Some it) n s = redecree_loop (Some g) (n + 1) t" "log_wf t" "\<not> ended t"
    "g \<in> set (ilist t)" "the (inum_of t g) \<le> n" "redecree_same s t" "log_to L t"
    "instance_at t = (instance_at s)(n \<mapsto> y)" "redecreed s n (instance_at s n) y" "off_log s t"
    by (rule redecree_loop_step_run [OF Suc.prems(1-6) nL]) (simp add: loop_stepped_def)
  have "n \<noteq> - 1" using nL Suc.prems(7) by auto
  then have un: "unat (n + 1) = unat n + 1" using unatSuc [of n] by (simp add: add_eq_0_iff add.commute)
  then have lt: "n < n + 1" by (simp add: word_less_nat_alt)
  have "acceptors_ok t" using Suc.prems(5) t(6) by (simp add: acceptors_ok_def redecree_same_def)
  moreover have "k = unat L + 1 - unat (n + 1)" using Suc.hyps(2) un by simp
  moreover have "the (inum_of t g) \<le> n + 1" using t(5) lt by simp
  ultimately obtain u where u: "redecree_loop (Some g) (n + 1) t = Some (0, u)" "log_wf u" "\<not> ended u" "redecree_same t u" "off_log t u"
    and at: "\<And>m. if n + 1 \<le> m \<and> m \<le> L then \<exists>y. instance_at u m = Some y \<and> redecreed t m (instance_at t m) y
         else instance_at u m = instance_at t m"
    using Suc.hyps(1) [of "n + 1" t g] t Suc.prems(7) by metis
  have "if n \<le> m \<and> m \<le> L then \<exists>y. instance_at u m = Some y \<and> redecreed s m (instance_at s m) y
         else instance_at u m = instance_at s m" for m
  proof (cases "m = n")
    case True
    with at [of m] t(8,9) nL lt show ?thesis by (auto simp: not_le)
  next
    case False
    have "n + 1 \<le> m \<longleftrightarrow> n \<le> m" using False un by (auto simp: word_le_nat_alt word_unat_eq_iff)
    moreover have "instance_at t m = instance_at s m" using t(8) False by simp
    ultimately show ?thesis using at [of m] by (simp only: redecreed_cong [OF t(6)])
  qed
  with u t(1) redecree_same_trans [OF t(6) u(4)] off_log_trans [OF t(10) u(5)] show ?case by (intro exI [of _ u]) auto
qed

subsection \<open>Deferred decrees\<close>

lemma word_succ: "(n :: u32) < - 1 \<Longrightarrow> unat (n + 1) = unat n + 1" "(n :: u32) < - 1 \<Longrightarrow> n < n + 1"
proof -
  assume "n < - 1"
  then have "1 + n \<noteq> 0" by (auto simp: add_eq_0_iff)
  then show "unat (n + 1) = unat n + 1" by (simp add: unatSuc add.commute)
  then show "n < n + 1" by (simp add: word_less_nat_alt)
qed

definition decree_of :: "paxos_session \<Rightarrow> paxid \<Rightarrow> paxos_instance \<Rightarrow> paxos_instance" where
  "decree_of s n x = instance_init_metadata (x\<lparr>pi_hdr := header_init s OP_DECREE n\<rparr>)"

lemma decree_of_simps [simp]: "ph_inum (pi_hdr (decree_of s n x)) = n" "pi_val (decree_of s n x) = pi_val x"
  "pi_votes (decree_of s n x) = 1" "\<not> pi_committed (decree_of s n x)" "ph_ballot (pi_hdr (decree_of s n x)) = ballot s"
  by (simp_all add: decree_of_def header_init_def instance_init_metadata_def)

lemma insert_last:
  assumes ord: "ordered paxid_compare idf xs" and e: "idf e = Some n" and gt: "\<And>x. x \<in> set xs \<Longrightarrow> the (idf x) < n"
  shows "instance_insert idf xs e = Some (xs @ [e], e)"
proof (cases rule: instances.insert_cases [OF ord e])
  case (1 x)
  with gt [of x] show ?thesis by simp
next
  case new: (2 ys zs)
  have "zs = []"
  proof (rule ccontr)
    assume "zs \<noteq> []"
    then have "hd zs \<in> set zs" by simp
    with new(4) e have "n < the (idf (hd zs))" by (auto simp: ordered_def sorted_wrt_append)
    moreover have "the (idf (hd zs)) < n" using \<open>hd zs \<in> set zs\<close> new(1) by (intro gt) simp
    ultimately show False by simp
  qed
  with new show ?thesis by simp
qed

lemma next_instance_run:
  assumes wf: "log_wf s" and L: "log_to L s"
  shows "next_instance s = Some (L + 1)"
proof -
  obtain l where l: "l \<in> set (ilist s)" "inum_of s l = Some L" using log_toD(1) [OF L wf] by blast
  then obtain xs z where xs: "ilist s = xs @ [z]" by (cases "ilist s" rule: rev_cases) auto
  obtain x where x: "iheap s z = Some x" using log_wf_alloc [OF wf, of z] xs by auto
  have "the (inum_of s z) \<le> L" using xs by (intro log_toD(2) [OF L wf]) simp
  moreover have "L \<le> the (inum_of s z)"
    using l wf xs by (auto simp: log_wf_def ordered_def sorted_wrt_append less_imp_le)
  ultimately have "ph_inum (pi_hdr x) = L" using x by (simp add: inum_of_def)
  with xs x show ?thesis by (simp add: next_instance_def)
qed

lemma proposer_decree_run:
  assumes wf: "log_wf s" "\<not> ended s" and i: "i \<notin> set (ilist s @ idefer s)" "i < brk s" "iheap s i = Some x"
    and ok: "acceptors_ok s" and m: "1 < majority s" and L: "log_to L s" "L < - 1"
  obtains s' where "proposer_decree i s = Some (0, s')" "log_wf s'" "redecree_same s s'" "brk s' = brk s"
    "instance_at s' = (instance_at s)(L + 1 \<mapsto> decree_of s (L + 1) x)" "log_to (L + 1) s'"
    "iheap s' = (iheap s)(i \<mapsto> decree_of s (L + 1) x)" "set (ilist s') = insert i (set (ilist s))"
proof -
  let ?n = "L + 1" and ?x = "decree_of s (L + 1) x"
  let ?t = "s\<lparr>iheap := (iheap s)(i \<mapsto> ?x)\<rparr>"
  have lt: "L < ?n" by (rule word_succ(2) [OF L(2)])
  have i': "i \<notin> set (ilist s)" using i(1) by simp
  have k: "inum_of ?t j = (if j = i then Some ?n else inum_of s j)" for j by (simp add: inum_of_def)
  have ordt: "ordered paxid_compare (inum_of ?t) (ilist s)"
    using wf i' by (subst ordered_cong [of _ _ "inum_of s"]) (auto simp: log_wf_def k)
  have "instance_insert (inum_of ?t) (ilist s) i = Some (ilist s @ [i], i)"
  proof (rule insert_last [OF ordt])
    fix j assume "j \<in> set (ilist s)"
    then show "the (inum_of ?t j) < ?n"
      using log_toD(2) [OF L(1) wf(1)] i' lt by (auto simp: k intro: order_le_less_trans)
  qed (simp add: k)
  then obtain v where ins: "instance_insert_and_upstart i ?t = Some v"
    and v: "ilist v = ilist s @ [i]" "iheap v = (iheap s)(i \<mapsto> ?x)" "redecree_same s v" "brk v = brk s"
    by (simp add: instance_insert_and_upstart_def inum_of_def Let_def redecree_same_def)
  have okv: "\<forall>a\<in>set (alist v). aheap v a \<noteq> None" "majority v = majority s"
    using ok v(3) by (simp_all add: acceptors_ok_def redecree_same_def majority_def)
  let ?s = "v\<lparr>out := out v @ map (\<lambda>p. Send p (instance_message ?x)) (live_peers v)\<rparr>"
  have b: "paxos_broadcast_instance i v = Some (0, ?s)"
    using paxos_broadcast_run [OF okv(1), of "instance_message ?x"] v(2) by (simp add: paxos_broadcast_instance_def)
  have u: "upd_instance i (\<lambda>x. instance_init_metadata (x\<lparr>pi_hdr := header_init s OP_DECREE ?n\<rparr>)) s = Some ?t"
    using i(3) by (simp add: upd_instance_def decree_of_def)
  have maj: "majority ?s = majority s" using okv(2) by (simp add: majority_def)
  have r: "proposer_decree i s = Some (0, ?s)"
    using next_instance_run [OF wf(1) L(1)] u ins b v(2) leD [of "majority s" 1] m
    by (auto simp: proposer_decree_def maj simp flip: not_le)
  have un: "unlisted i s" using i(1,2) by (rule scratch_unlisted)
  have wf': "log_wf ?s"
    using proposer_decree_step [OF r un] wf v(3) by (auto simp: log_step_def log_inv_def redecree_same_def)
  have at: "instance_at ?s = (instance_at s)(?n \<mapsto> ?x)"
  proof (rule instance_at_update [OF wf(1) wf', of i])
    fix j assume "j \<noteq> i"
    then show "j \<in> set (ilist ?s) \<longleftrightarrow> j \<in> set (ilist s) \<and> inum_of s j \<noteq> Some ?n"
      using log_toD(2) [OF L(1) wf(1), of j] lt v(1) by auto
  qed (use i' v in simp_all)
  have "instance_at s k = None" if "?n < k" for k using that L(1) lt by (auto simp: log_to_def)
  then have to: "log_to ?n ?s" by (simp add: at log_to_def)
  show thesis by (rule that [OF r wf' _ _ at to]) (use v in \<open>simp_all add: redecree_same_def\<close>)
qed

lemma majority_cong: "redecree_same s t \<Longrightarrow> majority t = majority s"
  by (simp add: majority_def redecree_same_def)

text \<open>The deferred instances, decreed one after another at the numbers behind the log.\<close>

fun decreed :: "paxos_session \<Rightarrow> paxid \<Rightarrow> paxos_instance list \<Rightarrow> (paxid \<Rightarrow> paxos_instance option) \<Rightarrow> paxid \<Rightarrow> paxos_instance option" where
  "decreed s n [] m = m"
| "decreed s n (x # xs) m = decreed s (n + 1) xs (m(n \<mapsto> decree_of s n x))"

lemma decree_of_cong: "redecree_same s t \<Longrightarrow> decree_of t n x = decree_of s n x"
  by (simp add: redecree_same_def decree_of_def header_init_def)

lemma decreed_cong:
  assumes "ballot t = ballot s" "session_id t = session_id s"
  shows "decreed t n xs m = decreed s n xs m"
proof -
  have "decree_of t = decree_of s" using assms by (intro ext) (simp add: decree_of_def header_init_def)
  then show ?thesis by (induction xs arbitrary: n m) simp_all
qed

lemma decree_deferred_run:
  assumes "log_wf s" "\<not> ended s" "acceptors_ok s" "1 < majority s" "log_to L s" "unat L + length (idefer s) < 2 ^ 32 - 1"
    "map (iheap s) (idefer s) = map Some xs"
  shows "\<exists>s'. decree_deferred s = Some (0, s') \<and> log_wf s' \<and> \<not> ended s' \<and> idefer s' = [] \<and>
    instance_at s' = decreed s (L + 1) xs (instance_at s)"
  using assms
proof (induction xs arbitrary: s L)
  case Nil
  then show ?case by (subst decree_deferred.simps) (simp del: decree_deferred.simps)
next
  case (Cons x xs)
  then obtain i rest where ir: "idefer s = i # rest" "iheap s i = Some x" "map (iheap s) rest = map Some xs" by auto
  let ?t = "s\<lparr>idefer := rest\<rparr>"
  have wft: "log_wf ?t" using Cons.prems(1) ir(1) by (auto simp: log_wf_def ordered_def inum_of_def)
  have it: "i \<notin> set (ilist ?t @ idefer ?t)" "i < brk ?t" "i \<notin> set rest" using Cons.prems(1) ir(1) by (auto simp: log_wf_def)
  have "inum_of ?t = inum_of s" by (intro ext) (simp add: inum_of_def)
  then have at: "instance_at ?t = instance_at s" by (intro ext) (simp add: instance_at_def)
  have L: "log_to L ?t" using Cons.prems(5) at by (simp add: log_to_def)
  have L1: "L < - 1" using Cons.prems(6) by (simp add: word_less_nat_alt unsigned_minus_1_eq_mask mask_eq_exp_minus_1)
  obtain u where u: "proposer_decree i ?t = Some (0, u)" "log_wf u" "redecree_same ?t u" "brk u = brk ?t"
    "instance_at u = (instance_at ?t)(L + 1 \<mapsto> decree_of ?t (L + 1) x)" "log_to (L + 1) u"
    "iheap u = (iheap ?t)(i \<mapsto> decree_of ?t (L + 1) x)" "set (ilist u) = insert i (set (ilist ?t))"
    by (rule proposer_decree_run [OF wft _ it(1,2) _ _ _ L L1, of x])
      (use Cons.prems ir in \<open>simp_all add: acceptors_ok_def majority_def\<close>)
  have ud: "idefer u = rest" "\<not> ended u" "acceptors_ok u" "majority u = majority s" "ballot u = ballot s" "session_id u = session_id s"
    using u(3) Cons.prems by (simp_all add: redecree_same_def acceptors_ok_def majority_def)
  have "map (iheap u) rest = map Some xs" using ir(3) it(3) u(7) by (auto simp: map_eq_conv)
  moreover have "unat (L + 1) + length (idefer u) < 2 ^ 32 - 1" using Cons.prems(6) ir(1) ud(1) word_succ(1) [OF L1] by simp
  ultimately obtain s' where "decree_deferred u = Some (0, s')" "log_wf s'" "\<not> ended s'" "idefer s' = []"
    "instance_at s' = decreed u (L + 1 + 1) xs (instance_at u)"
    using Cons.IH [OF u(2) ud(2,3) _ u(6)] ud Cons.prems(4) by auto
  with u(1,5) at ir(1) show ?case
    by (subst decree_deferred.simps) (simp add: decreed_cong [OF ud(5,6)] decree_of_def header_init_def)
qed


subsection \<open>The end of a prepare\<close>

lemma end_prepare_run:
  assumes wf: "log_wf s" "\<not> ended s" and p: "pp_istart p = Some it" "it \<in> set (ilist s)" "the (inum_of s it) \<le> ihole s"
    and ok: "acceptors_ok s" "1 < majority s" and L: "log_to L s" "unat L + length (idefer s) < 2 ^ 32 - 1"
    and xs: "map (iheap s) (idefer s) = map Some xs"
  defines "t \<equiv> s\<lparr>ballot := PPair (pid (pp_ballot p)) (gen (pp_ballot p))\<rparr>"
  shows "\<exists>s' m. end_prepare p s = Some (0, s') \<and> log_wf s' \<and> \<not> ended s' \<and> idefer s' = [] \<and>
    instance_at s' = decreed t (L + 1) xs m \<and>
    (\<forall>n. if ihole s \<le> n \<and> n \<le> L then \<exists>y. m n = Some y \<and> redecreed t n (instance_at s n) y else m n = instance_at s n)"
proof -
  have k: "inum_of t = inum_of s" by (intro ext) (simp add: inum_of_def t_def)
  then have at: "instance_at t = instance_at s" by (intro ext) (simp add: instance_at_def t_def)
  have wft: "log_wf t" "\<not> ended t" using wf by (simp_all add: log_wf_def k) (simp_all add: t_def)
  have t: "it \<in> set (ilist t)" "the (inum_of t it) \<le> ihole s" "acceptors_ok t" "log_to L t"
    using p ok L by (simp_all add: k acceptors_ok_def log_to_def at) (simp_all add: t_def)
  have L1: "L < - 1" using L(2) by (simp add: word_less_nat_alt unsigned_minus_1_eq_mask mask_eq_exp_minus_1)
  obtain u where u: "redecree_loop (Some it) (ihole s) t = Some (0, u)" "log_wf u" "\<not> ended u" "redecree_same t u" "off_log t u"
    and um: "\<And>n. if ihole s \<le> n \<and> n \<le> L then \<exists>y. instance_at u n = Some y \<and> redecreed t n (instance_at t n) y
         else instance_at u n = instance_at t n"
    using redecree_loop_run [OF wft t(1,2,3,4) L1] by blast
  let ?v = "u\<lparr>prep := None\<rparr>"
  have kv: "inum_of ?v = inum_of u" by (intro ext) (simp add: inum_of_def)
  then have atv: "instance_at ?v = instance_at u" by (intro ext) (simp add: instance_at_def)
  have wfv: "log_wf ?v" "\<not> ended ?v" using u by (simp_all add: log_wf_def kv)
  have v: "acceptors_ok ?v" "majority ?v = majority s" "idefer ?v = idefer s" "ballot ?v = ballot t" "session_id ?v = session_id t"
    using u(4) ok by (simp_all add: redecree_same_def acceptors_ok_def majority_def t_def)
  have Lv: "log_to L ?v" unfolding log_to_def atv
  proof (intro conjI allI impI)
    show "instance_at u L \<noteq> None" using um [of L] t(4) by (auto simp: log_to_def split: if_splits)
    show "instance_at u n = None" if "L < n" for n using um [of n] t(4) that by (auto simp: log_to_def not_le split: if_splits)
  qed
  have "iheap u i = iheap s i" if "i \<in> set (idefer s)" for i
    using u(5) wf(1) that by (auto simp: off_log_def log_wf_def t_def)
  then have hv: "map (iheap ?v) (idefer ?v) = map Some xs" unfolding v(3) using xs by (simp add: map_eq_conv cong: map_cong)
  have mj: "1 < majority ?v" using ok(2) v(2) by simp
  have bd: "unat L + length (idefer ?v) < 2 ^ 32 - 1" using L(2) v(3) by simp
  obtain s' where s': "decree_deferred ?v = Some (0, s')" "log_wf s'" "\<not> ended s'" "idefer s' = []"
    "instance_at s' = decreed ?v (L + 1) xs (instance_at ?v)"
    using decree_deferred_run [OF wfv v(1) mj Lv bd hv] by blast
  have "end_prepare p s = Some (0, s')"
    using p(1) u(1) s'(1) by (simp add: end_prepare_def t_def)
  with s' um show ?thesis unfolding atv at decreed_cong [OF v(4,5)] by blast
qed

end
