(* ===== verification/Sync_Facts.thy ===== *)
theory Sync_Facts
  imports Redecree
begin

section \<open>A whole log synchronization\<close>

text \<open>
  The answers of the acceptors to one sync, handled in any order: the last of them truncates the log at
  the least of the numbers reported and the proposer's own, and a truncation cannot fault.
\<close>

subsection \<open>Truncation always returns\<close>

lemma find_walk_total: "\<forall>x\<in>set xs. idf x \<noteq> None \<Longrightarrow> \<exists>r. find_walk past cmp idf xs k = Some r"
  by (induction xs) (auto simp: Let_def)

lemma request_find_total: "\<exists>r. request_find reqid_of rc k = Some r"
  unfolding request_find_def LIST_FIND_FWD_def using find_walk_total [of rc reqid_of] by (auto simp: reqid_of_def)

lemma drop_request_total:
  "\<exists>rc. drop_request rid s = Some (s\<lparr>rcache := rc\<rparr>)"
proof -
  obtain r where "request_find reqid_of (rcache s) rid = Some r" using request_find_total by blast
  then show ?thesis
    by (cases r) (auto simp: drop_request_def intro: exI [of _ "rcache s"])
qed

lemma truncate_walk_total:
  assumes "ilist s = xs" "distinct xs" "\<forall>i\<in>set xs. iheap s i \<noteq> None"
  shows "\<exists>s'. truncate_walk xs n s = Some s'"
  using assms
proof (induction xs arbitrary: s)
  case (Cons i xs)
  then obtain x where x: "iheap s i = Some x" by auto
  obtain rc where rc: "drop_request (pv_reqid (pi_val x)) s = Some (s\<lparr>rcache := rc\<rparr>)" using drop_request_total by blast
  let ?t = "s\<lparr>rcache := rc, unlinked := (unlinked s)(i := (pred_in (ilist s) i, succ_in (ilist s) i)), ilist := xs\<rparr>"
  let ?u = "?t\<lparr>iheap := (iheap s)(i := None)\<rparr>"
  have "\<exists>s'. truncate_walk xs n ?u = Some s'" using Cons.prems by (intro Cons.IH) auto
  moreover have "ilist_remove i (s\<lparr>rcache := rc\<rparr>) = Some ?t" using Cons.prems(1) by (simp add: ilist_remove_def)
  moreover have "instance_destroy i ?t = Some ?u" using x by (simp add: instance_destroy_def)
  ultimately show ?case using x rc by simp
qed simp

lemma truncate_total: "log_wf s \<Longrightarrow> \<exists>s'. ilist_truncate_prefix n s = Some s'"
  unfolding ilist_truncate_prefix_def by (rule truncate_walk_total) (auto simp: log_wf_def ordered_def inum_of_def)

subsection \<open>A whole sync\<close>

text \<open>The answers of the acceptors, handled one after another.\<close>

fun ack_lasts :: "(paxos_header \<times> paxid) list \<Rightarrow> paxos_session \<Rightarrow> int result" where
  "ack_lasts [] s = Some (0, s)"
| "ack_lasts ((hdr, n) # ms) s = do {
     (r, s) \<leftarrow> proposer_ack_last hdr (Some (M_positive_integer (ucast n))) s;
     if r \<noteq> 0 then Some (r, s) else ack_lasts ms s
   }"

definition lower :: "paxid \<Rightarrow> paxid \<Rightarrow> paxid" where
  "lower n l = (if n < l \<or> l = 0 then n else l)"

lemma fold_lower: "\<forall>n\<in>set ns. n \<noteq> 0 \<Longrightarrow> l \<noteq> 0 \<Longrightarrow> fold lower ns l = Min (insert l (set ns))"
proof (induction ns arbitrary: l)
  case (Cons n ns)
  then have e: "lower n l = min l n" "lower n l \<noteq> 0" by (auto simp: lower_def min_def)
  have "fold lower ns (lower n l) = Min (insert (min l n) (set ns))" using Cons e by simp
  then show ?case by (cases "ns = []") (simp_all add: min.assoc)
qed simp

lemma proposer_ack_last_more:
  assumes "sync s = Some y" "ph_inum hdr = sync_id s" "ps_acks y + 1 \<noteq> ps_total y"
  shows "proposer_ack_last hdr (Some (M_positive_integer (ucast n))) s =
    Some (0, s\<lparr>sync := Some (y\<lparr>ps_last := lower n (ps_last y), ps_acks := ps_acks y + 1\<rparr>)\<rparr>)"
  using assms by (simp add: proposer_ack_last_def paxos_paxid_unpack_def lower_def)

lemma proposer_ack_last_done:
  assumes "sync s = Some y" "ph_inum hdr = sync_id s" "ps_acks y + 1 = ps_total y" "log_wf s" "\<not> ended s" "acceptors_ok s"
    and b_def: "b = min (ihole s - 1) (lower n (ps_last y))" and b: "ibase s \<le> b"
  shows "\<exists>s'. proposer_ack_last hdr (Some (M_positive_integer (ucast n))) s = Some (0, s') \<and> log_wf s' \<and> sync s' = None \<and>
    ibase s' = b \<and> instance_at s' = (\<lambda>m. if m < b then None else instance_at s m)"
proof -
  let ?y = "y\<lparr>ps_last := lower n (ps_last y), ps_acks := ps_acks y + 1\<rparr>"
  let ?t = "s\<lparr>sync := Some (?y\<lparr>ps_last := b\<rparr>), sync_prev := b, ibase := b\<rparr>"
  let ?u = "?t\<lparr>out := out ?t @ map (\<lambda>p. Send p (truncate_message hdr b)) (live_peers ?t)\<rparr>"
  have st: "truncate_start ?y (s\<lparr>sync := Some ?y\<rparr>) = Some ?t"
    using b by (auto simp: truncate_start_def b_def min_def not_less Let_def)
  have "\<forall>a\<in>set (alist ?t). aheap ?t a \<noteq> None" using assms(6) by (simp add: acceptors_ok_def)
  note bc = paxos_broadcast_run [OF this, of "truncate_message hdr b"]
  have wf: "log_wf ?u" by (rule log_same_at(2) [OF _ _ _ _ assms(4)]) simp_all
  have at: "instance_at ?u = instance_at s" by (rule log_same_at(1)) simp_all
  obtain v where v: "ilist_truncate_prefix b ?u = Some v" using truncate_total [OF wf] by blast
  have e: "\<not> ended ?u" using assms(5) by simp
  have ev: "log_wf v" "instance_at v m = (if m < b then None else instance_at s m)" for m
    using truncate_instance_at [OF v wf e] at by simp_all
  have d: "distinct (ilist ?u)" using wf by (simp add: log_wf_def)
  have ib: "ibase v = b"
    using truncate_walk_result [OF v [unfolded ilist_truncate_prefix_def] refl d] by simp
  have "proposer_truncate hdr (s\<lparr>sync := Some ?y\<rparr>) = Some (0, v\<lparr>sync := None\<rparr>)"
    using st bc v by (simp add: proposer_truncate_def)
  then have r: "proposer_ack_last hdr (Some (M_positive_integer (ucast n))) s = Some (0, v\<lparr>sync := None\<rparr>)"
    using assms(1-3)
    by (cases "n < ps_last y \<or> ps_last y = 0") (auto simp: proposer_ack_last_def paxos_paxid_unpack_def lower_def)
  have "instance_at (v\<lparr>sync := None\<rparr>) = instance_at v" by (rule log_same_at(1)) simp_all
  moreover have "log_wf (v\<lparr>sync := None\<rparr>)" by (rule log_same_at(2) [OF _ _ _ _ ev(1)]) simp_all
  ultimately show ?thesis using r ib ev(2) by (intro exI [of _ "v\<lparr>sync := None\<rparr>"]) (simp add: fun_eq_iff)
qed

lemma unat_Suc_less: "unat a < unat b \<Longrightarrow> unat (a + 1) = unat a + 1" for a b :: u32
proof -
  assume "unat a < unat b"
  then have "a < b" by (simp add: word_less_nat_alt)
  also have "b \<le> - 1" by simp
  finally show ?thesis by (rule word_succ(1))
qed

lemma ack_lasts_run:
  assumes "sync s = Some y" "\<forall>m\<in>set (ms @ [(h, l)]). ph_inum (fst m) = sync_id s" "unat (ps_total y) = unat (ps_acks y) + length ms + 1"
    "log_wf s" "\<not> ended s" "acceptors_ok s" "b = min (ihole s - 1) (fold lower (map snd (ms @ [(h, l)])) (ps_last y))" "ibase s \<le> b"
  shows "\<exists>s'. ack_lasts (ms @ [(h, l)]) s = Some (0, s') \<and> log_wf s' \<and> sync s' = None \<and>
    ibase s' = b \<and> instance_at s' = (\<lambda>m. if m < b then None else instance_at s m)"
  using assms
proof (induction ms arbitrary: s y)
  case Nil
  have "unat (ps_acks y + 1) = unat (ps_total y)" using Nil.prems(3) unat_Suc_less [of "ps_acks y" "ps_total y"] by simp
  then have "ps_acks y + 1 = ps_total y" by (simp add: word_unat_eq_iff)
  with proposer_ack_last_done [of s y h b l] Nil.prems show ?case by auto
next
  case (Cons m ms)
  obtain hdr n where m: "m = (hdr, n)" by (cases m)
  let ?y = "y\<lparr>ps_last := lower n (ps_last y), ps_acks := ps_acks y + 1\<rparr>"
  let ?t = "s\<lparr>sync := Some ?y\<rparr>"
  have un: "unat (ps_acks y + 1) = unat (ps_acks y) + 1"
    using Cons.prems(3) by (intro unat_Suc_less [of _ "ps_total y"]) simp
  have "ps_acks y + 1 \<noteq> ps_total y"
  proof
    assume "ps_acks y + 1 = ps_total y"
    then have "unat (ps_total y) = unat (ps_acks y) + 1" using un by simp
    with Cons.prems(3) show False by simp
  qed
  then have 1: "proposer_ack_last hdr (Some (M_positive_integer (ucast n))) s = Some (0, ?t)"
    using Cons.prems(1,2) m by (intro proposer_ack_last_more) auto
  have at: "instance_at ?t = instance_at s" by (rule log_same_at(1)) simp_all
  have wf: "log_wf ?t" by (rule log_same_at(2) [OF _ _ _ _ Cons.prems(4)]) simp_all
  have "\<exists>s'. ack_lasts (ms @ [(h, l)]) ?t = Some (0, s') \<and> log_wf s' \<and> sync s' = None \<and>
    ibase s' = b \<and> instance_at s' = (\<lambda>m. if m < b then None else instance_at ?t m)"
    using Cons.prems un m by (intro Cons.IH [OF _ _ _ wf]) (auto simp: acceptors_ok_def)
  then show ?case unfolding at using 1 m by simp
qed

end
