(* ===== verification/Promise_Wire.thy ===== *)
theory Promise_Wire
  imports Log_Facts
begin

section \<open>From an acceptor's promise to the proposer's log\<close>

text \<open>
  What an acceptor reports in a promise, as the receiver unpacks it, and why merging such reports keeps a
  value that may have been chosen: a value voted for by a majority reaches the proposer in at least one
  promise of any majority, and the merge never lets an older vote win.
\<close>

subsection \<open>What a promise reports\<close>

lemma promise_scan_run:
  assumes "\<forall>i\<in>set (post @ [g]). iheap s i \<noteq> None" "\<forall>i\<in>set post. n < the (inum_of s i)" "the (inum_of s g) \<le> n"
  shows "promise_scan (rev post @ g # pre) n c s = Some (c + length post + 1, Some g)"
  using assms
proof (induction post arbitrary: c rule: rev_induct)
  case Nil
  then obtain x where "iheap s g = Some x" by auto
  with Nil show ?case by (simp add: inum_of_def)
next
  case (snoc i post)
  then obtain x where "iheap s i = Some x" by auto
  with snoc show ?case by (auto simp: inum_of_def)
qed

lemma pack_instances_run:
  "\<forall>i\<in>set js. iheap s i \<noteq> None \<Longrightarrow> pack_instances js s = Some (concat (map paxos_instance_pack (insts s js)))"
  by (induction js) auto

lemma list_from_mid: "g \<notin> set pre \<Longrightarrow> list_from (Some g) (pre @ g # post) = g # post"
  by (induction pre) (auto simp: list_from_def)

definition instances_obj :: "paxos_instance list \<Rightarrow> mobj" where
  "instances_obj xs = M_array (map instance_obj xs)"

definition promise_obj :: "paxos_header \<Rightarrow> paxos_instance list \<Rightarrow> mobj" where
  "promise_obj hdr xs = M_array [header_obj (hdr\<lparr>ph_opcode := OP_PROMISE\<rparr>), instances_obj xs]"

lemma sorted_split:
  assumes "sorted_wrt (\<lambda>i j. f i < f j) xs" "\<exists>i\<in>set xs. f i \<le> (n :: 'a :: linorder)"
  obtains pre g post where "xs = pre @ g # post" "f g \<le> n" "\<forall>i\<in>set post. n < f i"
proof -
  have "\<exists>i\<in>set xs. f i \<le> n" by fact
  then obtain pre g post where x: "xs = pre @ g # post" "f g \<le> n" "\<forall>i\<in>set post. \<not> f i \<le> n"
    using split_list_last_prop [of xs "\<lambda>i. f i \<le> n"] by blast
  then show thesis by (intro that [of pre g post]) (auto simp: not_le)
qed

lemma acceptor_promise_run:
  assumes wf: "log_wf s" and low: "\<exists>i\<in>set (ilist s). the (inum_of s i) \<le> ph_inum hdr"
    and pr: "proposer s = Some a" "aheap s a = Some acc" "pa_peer acc = Some q"
  obtains pre g post where "ilist s = pre @ g # post" "the (inum_of s g) \<le> ph_inum hdr" "\<forall>i\<in>set post. ph_inum hdr < the (inum_of s i)"
    "acceptor_promise hdr s = Some (0, s\<lparr>ballot := ph_ballot hdr, gen_high := gen (ph_ballot hdr), out := out s @
       [Send q (paxos_payload_init 2 @ paxos_header_pack (hdr\<lparr>ph_opcode := OP_PROMISE\<rparr>) @
          paxos_payload_begin_array (length (g # post)) @ concat (map paxos_instance_pack (insts s (g # post))))]\<rparr>)"
proof -
  have srt: "sorted_wrt (\<lambda>i j. the (inum_of s i) < the (inum_of s j)) (ilist s)" and al: "\<forall>i\<in>set (ilist s). iheap s i \<noteq> None"
    using wf by (auto simp: log_wf_def ordered_def inum_of_def)
  obtain pre g post where x: "ilist s = pre @ g # post" "the (inum_of s g) \<le> ph_inum hdr" "\<forall>i\<in>set post. ph_inum hdr < the (inum_of s i)"
    by (rule sorted_split [OF srt low])
  let ?t = "s\<lparr>ballot := ph_ballot hdr, gen_high := gen (ph_ballot hdr)\<rparr>"
  have b: "PPair (pid (ph_ballot hdr)) (gen (ph_ballot hdr)) = ph_ballot hdr" by simp
  have k: "inum_of ?t = inum_of s" by (intro ext) (simp add: inum_of_def)
  have "promise_scan (rev (ilist s)) (ph_inum hdr) 0 ?t = Some (length (g # post), Some g)"
    using promise_scan_run [of post g ?t "ph_inum hdr" "rev pre" 0] x al by (simp add: k)
  moreover have "g \<notin> set pre" using wf x(1) by (simp add: log_wf_def)
  then have "list_from (Some g) (ilist s) = g # post" by (simp add: x(1) list_from_mid)
  moreover have "pack_instances (g # post) ?t = Some (concat (map paxos_instance_pack (insts s (g # post))))"
    using pack_instances_run [of "g # post" ?t] al x(1) by (simp add: insts_def)
  ultimately have "acceptor_promise hdr s = Some (0, s\<lparr>ballot := ph_ballot hdr, gen_high := gen (ph_ballot hdr), out := out s @
       [Send q (paxos_payload_init 2 @ paxos_header_pack (hdr\<lparr>ph_opcode := OP_PROMISE\<rparr>) @
          paxos_payload_begin_array (length (g # post)) @ concat (map paxos_instance_pack (insts s (g # post))))]\<rparr>)"
    using pr by (simp add: acceptor_promise_def b Let_def paxos_send_to_proposer_def paxos_send_def paxos_peer_send_def emit_def
      del: pack_instances.simps)
  with x show thesis by (rule that)
qed



lemma promise_unpack:
  assumes u: "msgpack_unpacker u" and k: "\<forall>x\<in>set xs. known_instance x"
  shows "u (paxos_payload_init 2 @ paxos_header_pack (hdr\<lparr>ph_opcode := OP_PROMISE\<rparr>) @
    paxos_payload_begin_array (length xs) @ concat (map paxos_instance_pack xs)) = Some [promise_obj hdr xs]"
proof -
  have "msgpack_unpacker.encodes u (Pack_array (length xs) # concat (map paxos_instance_pack xs)) (instances_obj xs)"
    unfolding instances_obj_def using k
    by (intro msgpack_unpacker.encodes_array_map [OF u] msgpack_unpacker.encodes_instance [OF u]) simp_all
  moreover have "known_op (ph_opcode (hdr\<lparr>ph_opcode := OP_PROMISE\<rparr>))" by (simp add: known_op_def paxops_def)
  ultimately show ?thesis
    using msgpack_unpacker.encodes_unpack [OF u msgpack_unpacker.encodes_message2 [OF u]]
    by (simp add: promise_obj_def paxos_payload_begin_array_def)
qed

lemma instances_unpack:
  "\<forall>x\<in>set xs. known_instance x \<Longrightarrow> map paxos_instance_unpack (map instance_obj xs) = map Some (map instance_sent xs)"
  by (simp add: instance_unpack_obj)

text \<open>What the promise reports: the part of the log from the greatest number not above the hole asked for.\<close>

lemma promise_reports:
  assumes u: "msgpack_unpacker u" and wf: "log_wf s" and low: "\<exists>i\<in>set (ilist s). the (inum_of s i) \<le> ph_inum hdr"
    and pr: "proposer s = Some a" "aheap s a = Some acc" "pa_peer acc = Some q"
    and k: "\<forall>i\<in>set (ilist s). known_instance (the (iheap s i))"
  shows "\<exists>s' py vs. acceptor_promise hdr s = Some (0, s') \<and> out s' = out s @ [Send q py] \<and> ballot s' = ph_ballot hdr \<and>
    u py = Some [M_array [header_obj (hdr\<lparr>ph_opcode := OP_PROMISE\<rparr>), M_array (map instance_obj vs)]] \<and>
    map paxos_instance_unpack (map instance_obj vs) = map Some (map instance_sent vs) \<and>
    sorted (map (\<lambda>v. ph_inum (pi_hdr v)) vs) \<and> (\<forall>v\<in>set vs. instance_at s (ph_inum (pi_hdr v)) = Some v) \<and>
    (\<forall>n x. ph_inum hdr \<le> n \<longrightarrow> instance_at s n = Some x \<longrightarrow> x \<in> set vs)"
proof -
  obtain pre g post where x: "ilist s = pre @ g # post" "the (inum_of s g) \<le> ph_inum hdr" "\<forall>i\<in>set post. ph_inum hdr < the (inum_of s i)"
    and run: "acceptor_promise hdr s = Some (0, s\<lparr>ballot := ph_ballot hdr, gen_high := gen (ph_ballot hdr), out := out s @
       [Send q (paxos_payload_init 2 @ paxos_header_pack (hdr\<lparr>ph_opcode := OP_PROMISE\<rparr>) @
          paxos_payload_begin_array (length (g # post)) @ concat (map paxos_instance_pack (insts s (g # post))))]\<rparr>)"
    by (rule acceptor_promise_run [OF wf low pr])
  let ?js = "g # post" and ?vs = "insts s (g # post)"
  have len: "length ?js = length ?vs" by (simp add: insts_def)
  have kv: "\<forall>v\<in>set ?vs. known_instance v" using k x(1) by (simp add: insts_def)
  have al: "\<exists>y. iheap s i = Some y" if "i \<in> set ?js" for i using log_wf_alloc [OF wf, of i] that x(1) by auto
  then have num: "ph_inum (pi_hdr (the (iheap s i))) = the (inum_of s i)" if "i \<in> set ?js" for i
    using that by (fastforce simp: inum_of_def)
  have "sorted_wrt (\<lambda>i j. the (inum_of s i) < the (inum_of s j)) ?js"
    using wf x(1) by (auto simp: log_wf_def ordered_def sorted_wrt_append)
  then have "sorted_wrt (\<lambda>i j. ph_inum (pi_hdr (the (iheap s i))) \<le> ph_inum (pi_hdr (the (iheap s j)))) ?js"
    by (rule sorted_wrt_mono_rel [rotated]) (simp add: num)
  then have srt: "sorted (map (\<lambda>v. ph_inum (pi_hdr v)) ?vs)" by (simp add: insts_def sorted_wrt_map)
  have at: "\<forall>v\<in>set ?vs. instance_at s (ph_inum (pi_hdr v)) = Some v"
  proof
    fix v assume "v \<in> set ?vs"
    then obtain i where i: "i \<in> set ?js" "v = the (iheap s i)" by (auto simp: insts_def)
    with al [of i] x(1) show "instance_at s (ph_inum (pi_hdr v)) = Some v"
      unfolding instance_at_iff [OF wf] by (intro bexI [of _ i]) auto
  qed
  have cover: "y \<in> set ?vs" if n: "ph_inum hdr \<le> n" and y: "instance_at s n = Some y" for n y
  proof -
    from y obtain i where i: "i \<in> set (ilist s)" "iheap s i = Some y" "ph_inum (pi_hdr y) = n"
      by (auto simp: instance_at_iff [OF wf])
    have "i \<notin> set pre"
    proof
      assume "i \<in> set pre"
      with wf x(1) have "the (inum_of s i) < the (inum_of s g)" by (auto simp: log_wf_def ordered_def sorted_wrt_append)
      with i n x(2) show False by (simp add: inum_of_def)
    qed
    with i x(1) have "i \<in> set ?js" by auto
    then show ?thesis using i(2) by (force simp: insts_def)
  qed
  let ?py = "paxos_payload_init 2 @ paxos_header_pack (hdr\<lparr>ph_opcode := OP_PROMISE\<rparr>) @
    paxos_payload_begin_array (length (g # post)) @ concat (map paxos_instance_pack ?vs)"
  show ?thesis
  proof (rule exI, rule exI [of _ ?py], rule exI [of _ ?vs], intro conjI)
    show "u ?py = Some [M_array [header_obj (hdr\<lparr>ph_opcode := OP_PROMISE\<rparr>), M_array (map instance_obj ?vs)]]"
      using promise_unpack [OF u kv, of hdr] unfolding len [symmetric] promise_obj_def instances_obj_def .
    show "\<forall>n x. ph_inum hdr \<le> n \<longrightarrow> instance_at s n = Some x \<longrightarrow> x \<in> set ?vs" using cover by blast
  qed (rule run srt at instances_unpack [OF kv] | simp)+
qed


subsection \<open>The value that may have been chosen\<close>

text \<open>
  \<open>b\<close> is the ballot at which \<open>w\<close> may have been chosen for instance \<open>n\<close>.  An instance counts if it is
  committed or holds a vote at \<open>b\<close> or later.
\<close>

definition counts :: "ballot \<Rightarrow> paxos_instance \<Rightarrow> bool" where
  "counts b y \<longleftrightarrow> pi_committed y \<or> b \<le> ph_ballot (pi_hdr y)"

definition only_value :: "ballot \<Rightarrow> paxid \<Rightarrow> paxos_value \<Rightarrow> (paxid \<Rightarrow> paxos_instance option) \<Rightarrow> bool" where
  "only_value b n w m \<longleftrightarrow> (\<forall>y. m n = Some y \<longrightarrow> counts b y \<longrightarrow> pi_val y = w)"

definition has_vote :: "ballot \<Rightarrow> paxid \<Rightarrow> (paxid \<Rightarrow> paxos_instance option) \<Rightarrow> bool" where
  "has_vote b n m \<longleftrightarrow> (\<exists>y. m n = Some y \<and> counts b y)"

definition votes_for :: "ballot \<Rightarrow> paxid \<Rightarrow> paxos_instance list \<Rightarrow> paxos_instance set" where
  "votes_for b n vs = {v \<in> set vs. ph_inum (pi_hdr v) = n \<and> b \<le> ph_ballot (pi_hdr v)}"

lemma counts_merged:
  "merged old v = Some y \<Longrightarrow> counts b y \<Longrightarrow> (\<exists>x. old = Some x \<and> y = x) \<or> (y = cleared v \<and> b \<le> ph_ballot (pi_hdr v))"
  by (cases old) (auto simp: counts_def split: if_splits)

lemma merge_all_only:
  "only_value b n w m \<Longrightarrow> \<forall>v\<in>votes_for b n vs. pi_val v = w \<Longrightarrow> only_value b n w (merge_all vs m)"
proof (induction vs arbitrary: m)
  case (Cons v vs)
  let ?k = "ph_inum (pi_hdr v)"
  have "only_value b n w (m(?k := merged (m ?k) v))"
    unfolding only_value_def
  proof (intro allI impI)
    fix y assume y: "(m(?k := merged (m ?k) v)) n = Some y" "counts b y"
    show "pi_val y = w"
    proof (cases "?k = n")
      case True
      with y counts_merged [of "m n" v y b] consider "m n = Some y" | "y = cleared v" "b \<le> ph_ballot (pi_hdr v)" by auto
      then show ?thesis
      proof cases
        case 1
        with Cons.prems(1) y(2) show ?thesis by (simp add: only_value_def)
      next
        case 2
        with Cons.prems(2) True have "pi_val v = w" by (auto simp: votes_for_def)
        with 2 show ?thesis by simp
      qed
    next
      case False
      with y Cons.prems(1) show ?thesis by (simp add: only_value_def)
    qed
  qed
  with Cons show ?case by (simp add: Let_def votes_for_def)
qed simp

lemma merge_all_has:
  "has_vote b n m \<or> votes_for b n vs \<noteq> {} \<Longrightarrow> has_vote b n (merge_all vs m)"
proof (induction vs arbitrary: m)
  case (Cons v vs)
  let ?k = "ph_inum (pi_hdr v)"
  have "has_vote b n (m(?k := merged (m ?k) v)) \<or> votes_for b n vs \<noteq> {}"
  proof (cases "has_vote b n m \<or> v \<in> votes_for b n (v # vs)")
    case True
    then have "has_vote b n (m(?k := merged (m ?k) v))"
      by (cases "m ?k") (auto simp: has_vote_def votes_for_def counts_def)
    then show ?thesis ..
  next
    case False
    with Cons.prems show ?thesis by (auto simp: votes_for_def)
  qed
  then show ?case unfolding merge_all.simps Let_def by (rule Cons.IH)
qed (simp add: votes_for_def)

lemma fold_merge_only:
  "only_value b n w m \<Longrightarrow> \<forall>vs\<in>set vss. \<forall>v\<in>votes_for b n vs. pi_val v = w \<Longrightarrow> only_value b n w (fold merge_all vss m)"
  by (induction vss arbitrary: m) (auto intro: merge_all_only)

lemma fold_merge_has:
  "has_vote b n m \<or> (\<exists>vs\<in>set vss. votes_for b n vs \<noteq> {}) \<Longrightarrow> has_vote b n (fold merge_all vss m)"
proof (induction vss arbitrary: m)
  case (Cons vs vss)
  then have "has_vote b n (merge_all vs m) \<or> (\<exists>vs\<in>set vss. votes_for b n vs \<noteq> {})"
    using merge_all_has [of b n m vs] by auto
  then show ?case by (simp add: Cons.IH)
qed simp

end
