(* ===== verification/Choice.thy ===== *)
theory Choice
  imports Sync_Facts Promise_Wire
begin

section \<open>All promises of a prepare\<close>

text \<open>
  The promises of a prepare handled one after another, up to the one that completes the majority and ends
  it: each is merged into the log, and the last sets off the new decrees.  The conditions say that every
  promise can be merged where the prepare started: its votes are sorted, none lies below the start, and
  none replaces the start, so that the start is still in the log when the next promise comes.
\<close>

fun ack_promises :: "(paxos_header \<times> mobj) list \<Rightarrow> paxos_session \<Rightarrow> int result" where
  "ack_promises [] s = Some (0, s)"
| "ack_promises ((hdr, o1) # ms) s = do {
     (r, s) \<leftarrow> proposer_ack_promise hdr (Some o1) s;
     if r \<noteq> 0 then Some (r, s) else ack_promises ms s
   }"

definition mergeable :: "paxos_instance \<Rightarrow> mobj list \<Rightarrow> paxos_instance list \<Rightarrow> bool" where
  "mergeable x ps vs \<longleftrightarrow> map paxos_instance_unpack ps = map Some vs \<and> sorted (map (\<lambda>v. ph_inum (pi_hdr v)) vs) \<and>
     (\<forall>v\<in>set vs. ph_inum (pi_hdr x) \<le> ph_inum (pi_hdr v) \<and> \<not> outvoted v x)"

text \<open>The prepare can start from \<open>g\<close>, which is in the log.\<close>

definition starts_at :: "iref \<Rightarrow> paxos_instance \<Rightarrow> paxos_session \<Rightarrow> bool" where
  "starts_at g x s \<longleftrightarrow> log_wf s \<and> \<not> ended s \<and> g \<in> set (ilist s) \<and> iheap s g = Some x"

definition steady :: "paxos_session \<Rightarrow> paxos_session \<Rightarrow> bool" where
  "steady s t \<longleftrightarrow> idefer t = idefer s \<and> (\<forall>j\<in>set (idefer s). iheap t j = iheap s j) \<and> ihole t = ihole s \<and>
     alist t = alist s \<and> aheap t = aheap s"

lemma majorities_meet:
  assumes "distinct (alist s)" "length (alist s) < 2 ^ 32" "A \<subseteq> set (alist s)" "B \<subseteq> set (alist s)"
    "unat (majority s) \<le> card A" "unat (majority s) \<le> card B"
  shows "\<exists>a. a \<in> A \<and> a \<in> B"
proof -
  have "card (A \<union> B) \<le> length (alist s)"
    using assms(1,3,4) card_mono [of "set (alist s)" "A \<union> B"] by (simp add: distinct_card)
  moreover have "card (A \<union> B) = card A + card B" if "A \<inter> B = {}"
    using that assms(3,4) by (meson card_Un_disjoint finite_set rev_finite_subset)
  ultimately show ?thesis using assms(5,6) unat_majority [OF assms(2)] by fastforce
qed

lemma steady_refl [simp]: "steady s s" by (simp add: steady_def)
lemma steady_trans: "steady s t \<Longrightarrow> steady t u \<Longrightarrow> steady s u" by (auto simp: steady_def)

lemma steady_majority: "steady s t \<Longrightarrow> majority t = majority s"
  by (simp add: steady_def majority_def)

lemma set_prep_same:
  "starts_at g x (s\<lparr>prep := q\<rparr>) = starts_at g x s" "steady t (s\<lparr>prep := q\<rparr>) = steady t s" "instance_at (s\<lparr>prep := q\<rparr>) = instance_at s"
proof -
  have k: "inum_of (s\<lparr>prep := q\<rparr>) = inum_of s" by (intro ext) (simp add: inum_of_def)
  show "starts_at g x (s\<lparr>prep := q\<rparr>) = starts_at g x s" by (simp add: starts_at_def log_wf_def k)
  show "steady t (s\<lparr>prep := q\<rparr>) = steady t s" by (simp add: steady_def)
  show "instance_at (s\<lparr>prep := q\<rparr>) = instance_at s" by (intro ext) (simp add: instance_at_def k)
qed

lemma promise_merged:
  assumes "starts_at g x s" "mergeable x ps vs"
  obtains t where "promise_votes ps (None, Some g) s = Some t" "starts_at g x t" "steady s t"
    "instance_at t = merge_all vs (instance_at s)" "prep t = prep s"
proof -
  have v: "map paxos_instance_unpack ps = map Some vs" "sorted (map (\<lambda>v. ph_inum (pi_hdr v)) vs)"
    "\<forall>v\<in>set vs. the (inum_of s g) \<le> ph_inum (pi_hdr v)" "\<forall>v\<in>set vs. \<not> outvoted v (the (iheap s g))"
    using assms by (auto simp: mergeable_def starts_at_def inum_of_def)
  have "scratch_ok None s" by (simp add: scratch_ok_def)
  then obtain t where t: "promise_votes ps (None, Some g) s = Some t" "log_wf t" "\<not> ended t"
    "instance_at t = merge_all vs (instance_at s)" "idefer t = idefer s" "ihole t = ihole s"
    "\<forall>j\<in>set (idefer s). iheap t j = iheap s j"
    "\<forall>j\<in>set (ilist s). (\<forall>v\<in>set vs. \<not> outvoted v (the (iheap s j))) \<longrightarrow> j \<in> set (ilist t) \<and> iheap t j = iheap s j"
    using promise_votes_run [of s None g ps vs] assms(1) v(1-3) unfolding starts_at_def by blast
  have "starts_at g x t" using t(2,3,8) v(4) assms(1) by (auto simp: starts_at_def)
  moreover have "steady s t" using t(5-7) promise_votes_frame [OF t(1)] by (simp add: steady_def)
  ultimately show thesis using that t(1,4) promise_votes_frame(3) [OF t(1)] by blast
qed

text \<open>One promise: merged and counted, and the last of the majority ends the prepare.\<close>

lemma ack_promise_run:
  assumes r: "starts_at g x s" and p: "prep s = Some p" "pp_istart p = Some g" "ph_ballot hdr = pp_ballot p" and m: "mergeable x ps vs"
  obtains t where "starts_at g x t" "steady s t" "instance_at t = merge_all vs (instance_at s)"
    "prep t = Some (p\<lparr>pp_acks := pp_acks p + 1\<rparr>)"
    "proposer_ack_promise hdr (Some (M_array ps)) s =
      (if pp_acks p + 1 < majority s then Some (0, t) else end_prepare (p\<lparr>pp_acks := pp_acks p + 1\<rparr>) t)"
proof -
  obtain t where t: "promise_votes ps (None, Some g) s = Some t" "starts_at g x t" "steady s t"
    "instance_at t = merge_all vs (instance_at s)" "prep t = prep s" by (rule promise_merged [OF r m])
  let ?t = "t\<lparr>prep := Some (p\<lparr>pp_acks := pp_acks p + 1\<rparr>)\<rparr>"
  have "majority ?t = majority s" using steady_majority [OF t(3)] by (simp add: majority_def)
  then show thesis
    by (intro that [of ?t]) (use t p in \<open>simp_all add: set_prep_same proposer_ack_promise_def Let_def\<close>)
qed

lemma ack_promises_merge:
  assumes "starts_at g x s" "prep s = Some p" "pp_istart p = Some g"
    "\<forall>a\<in>set bs. ph_ballot (hdr a) = pp_ballot p \<and> mergeable x (pay a) (votes a)"
    "unat (pp_acks p) + length bs < unat (majority s)"
  shows "\<exists>t q. ack_promises (map (\<lambda>a. (hdr a, M_array (pay a))) bs @ ms) s = ack_promises ms t \<and> starts_at g x t \<and> steady s t \<and>
    prep t = Some q \<and> pp_istart q = Some g \<and> pp_ballot q = pp_ballot p \<and> unat (pp_acks q) = unat (pp_acks p) + length bs \<and>
    instance_at t = fold merge_all (map votes bs) (instance_at s)"
  using assms
proof (induction bs arbitrary: s p)
  case (Cons a bs)
  let ?p = "p\<lparr>pp_acks := pp_acks p + 1\<rparr>"
  have b: "ph_ballot (hdr a) = pp_ballot p" and m: "mergeable x (pay a) (votes a)" using Cons.prems(4) by simp_all
  obtain t where t: "starts_at g x t" "steady s t" "instance_at t = merge_all (votes a) (instance_at s)" "prep t = Some ?p"
    "proposer_ack_promise (hdr a) (Some (M_array (pay a))) s = (if pp_acks p + 1 < majority s then Some (0, t) else end_prepare ?p t)"
    by (rule ack_promise_run [OF Cons.prems(1-3) b m])
  have lt: "unat (pp_acks p) + 1 < unat (majority s)" using Cons.prems(5) by simp
  then have un: "unat (pp_acks p + 1) = unat (pp_acks p) + 1"
    using unat_Suc_less [of "pp_acks p" "majority s"] by simp
  with lt have "pp_acks p + 1 < majority s" by (simp add: word_less_nat_alt)
  with t(5) have 1: "proposer_ack_promise (hdr a) (Some (M_array (pay a))) s = Some (0, t)" by simp
  have "unat (pp_acks ?p) + length bs < unat (majority t)"
    using Cons.prems(5) un steady_majority [OF t(2)] by simp
  with Cons.IH [of t ?p] t(1,4) Cons.prems(3,4) obtain u q where
    u: "ack_promises (map (\<lambda>a. (hdr a, M_array (pay a))) bs @ ms) t = ack_promises ms u" "starts_at g x u" "steady t u"
    "prep u = Some q" "pp_istart q = Some g" "pp_ballot q = pp_ballot p" "unat (pp_acks q) = unat (pp_acks p + 1) + length bs"
    "instance_at u = fold merge_all (map votes bs) (instance_at t)" by auto
  with 1 t(3) un steady_trans [OF t(2) u(3)] show ?case by (intro exI [of _ u] exI [of _ q]) simp
qed auto

lemma fold_merge_dom:
  "fold merge_all vss m k \<noteq> None \<Longrightarrow> m k \<noteq> None \<or> (\<exists>vs\<in>set vss. \<exists>v\<in>set vs. ph_inum (pi_hdr v) = k)"
proof (induction vss arbitrary: m)
  case (Cons vs vss)
  have "merge_all vs m k \<noteq> None \<Longrightarrow> m k \<noteq> None \<or> (\<exists>v\<in>set vs. ph_inum (pi_hdr v) = k)" for m
  proof (induction vs arbitrary: m)
    case (Cons v vs)
    then show ?case by (fastforce simp: Let_def split: if_splits)
  qed simp
  with Cons show ?case by (metis fold_simps(2) list.set_intros(1,2))
qed simp

lemma decreed_below:
  "n \<le> L \<Longrightarrow> unat L + length xs < 2 ^ 32 - 1 \<Longrightarrow> decreed s (L + 1) xs m n = m n"
proof (induction xs arbitrary: L m)
  case (Cons x xs)
  have L: "L < - 1" using Cons.prems(2) by (simp add: word_less_nat_alt unsigned_minus_1_eq_mask mask_eq_exp_minus_1)
  have "n \<le> L + 1" using Cons.prems(1) word_succ(2) [OF L] by simp
  moreover have "unat (L + 1) + length xs < 2 ^ 32 - 1" using Cons.prems(2) word_succ(1) [OF L] by simp
  ultimately have "decreed s (L + 1 + 1) xs (m(L + 1 \<mapsto> decree_of s (L + 1) x)) n = (m(L + 1 \<mapsto> decree_of s (L + 1) x)) n"
    by (rule Cons.IH)
  moreover have "n \<noteq> L + 1" using Cons.prems(1) word_succ(2) [OF L] by auto
  ultimately show ?case by simp
qed simp

text \<open>
  What the end of the prepare makes of the instance at one number: it stays if it is committed or below
  the hole, and is decreed again under the new ballot, with its value, otherwise.
\<close>

lemma end_prepare_value:
  assumes r: "starts_at g x s" "ph_inum (pi_hdr x) \<le> ihole s" and p: "pp_istart p = Some g"
    and ok: "acceptors_ok s" "1 < majority s" and d: "\<forall>i\<in>set (idefer s). iheap s i \<noteq> None"
    and M: "\<forall>k. instance_at s k \<noteq> None \<longrightarrow> k \<le> M" "unat M + length (idefer s) < 2 ^ 32 - 1"
    and y: "instance_at s n = Some y"
  obtains t z where "end_prepare p s = Some (0, t)" "log_wf t" "idefer t = []" "instance_at t n = Some z" "pi_val z = pi_val y"
    "if ihole s \<le> n \<and> \<not> pi_committed y then ph_ballot (pi_hdr z) = pp_ballot p else z = y"
proof -
  have wf: "log_wf s" "\<not> ended s" "g \<in> set (ilist s)" "the (inum_of s g) \<le> ihole s" using r by (auto simp: starts_at_def inum_of_def)
  then obtain zs l where zs: "ilist s = zs @ [l]" by (cases "ilist s" rule: rev_cases) auto
  obtain e where e: "iheap s l = Some e" using log_wf_alloc [OF wf(1), of l] zs by auto
  let ?L = "ph_inum (pi_hdr e)"
  have L: "log_to ?L s" using log_to_last [OF wf(1), of l ?L] zs e by (simp add: ilist_last_def inum_of_def)
  then have "?L \<le> M" using M(1) by (auto simp: log_to_def)
  then have LM: "unat ?L + length (idefer s) < 2 ^ 32 - 1" using M(2) by (simp add: word_le_nat_alt)
  have xs: "map (iheap s) (idefer s) = map Some (map (\<lambda>i. the (iheap s i)) (idefer s))" using d by auto
  obtain t m where t: "end_prepare p s = Some (0, t)" "log_wf t" "idefer t = []"
    "instance_at t = decreed (s\<lparr>ballot := PPair (pid (pp_ballot p)) (gen (pp_ballot p))\<rparr>) (?L + 1) (map (\<lambda>i. the (iheap s i)) (idefer s)) m"
    and m: "\<And>n. if ihole s \<le> n \<and> n \<le> ?L
      then \<exists>y. m n = Some y \<and> redecreed (s\<lparr>ballot := PPair (pid (pp_ballot p)) (gen (pp_ballot p))\<rparr>) n (instance_at s n) y
      else m n = instance_at s n"
    using end_prepare_run [OF wf(1,2) p wf(3,4) ok L LM xs] by blast
  have nL: "n \<le> ?L" using L y by (auto simp: log_to_def not_le [symmetric])
  then have at: "instance_at t n = m n" unfolding t(4) by (rule decreed_below) (use LM in simp)
  show thesis
  proof (cases "ihole s \<le> n \<and> \<not> pi_committed y")
    case True
    with m [of n] nL y obtain z where "m n = Some z" "z = redecree_of (s\<lparr>ballot := PPair (pid (pp_ballot p)) (gen (pp_ballot p))\<rparr>) y"
      by (auto simp: redecreed_def)
    with True at show thesis
      by (intro that [OF t(1-3), of z]) (simp_all add: redecree_of_def header_init_def instance_init_metadata_def)
  next
    case False
    with m [of n] nL y have "m n = Some y" by (auto simp: redecreed_def split: if_splits)
    with False at show thesis by (intro that [OF t(1-3), of y]) auto
  qed
qed

lemma ack_promises_value:
  assumes r: "starts_at g x s" "ph_inum (pi_hdr x) \<le> ihole s" and p: "prep s = Some p" "pp_istart p = Some g"
    and ok: "acceptors_ok s" "1 < majority s" and d: "\<forall>i\<in>set (idefer s). iheap s i \<noteq> None"
    and bs: "bs \<noteq> []" "\<forall>a\<in>set bs. ph_ballot (hdr a) = pp_ballot p \<and> mergeable x (pay a) (votes a)"
      "unat (pp_acks p) + length bs = unat (majority s)"
    and M: "\<forall>k. instance_at s k \<noteq> None \<longrightarrow> k \<le> M" "\<forall>a\<in>set bs. \<forall>v\<in>set (votes a). ph_inum (pi_hdr v) \<le> M"
      "unat M + length (idefer s) < 2 ^ 32 - 1"
    and y: "fold merge_all (map votes bs) (instance_at s) n = Some y"
  shows "\<exists>t z. ack_promises (map (\<lambda>a. (hdr a, M_array (pay a))) bs) s = Some (0, t) \<and> log_wf t \<and> instance_at t n = Some z \<and>
    pi_val z = pi_val y \<and> (if ihole s \<le> n \<and> \<not> pi_committed y then ph_ballot (pi_hdr z) = pp_ballot p else z = y)"
proof -
  from bs(1) obtain cs c where cs: "bs = cs @ [c]" by (cases bs rule: rev_cases) auto
  let ?ms = "[(hdr c, M_array (pay c))]"
  have c: "ph_ballot (hdr c) = pp_ballot p" "mergeable x (pay c) (votes c)" using bs(2) cs by simp_all
  have n: "unat (pp_acks p) + length cs < unat (majority s)" using bs(3) cs by simp
  obtain t q where t: "ack_promises (map (\<lambda>a. (hdr a, M_array (pay a))) cs @ ?ms) s = ack_promises ?ms t" "starts_at g x t" "steady s t"
    "prep t = Some q" "pp_istart q = Some g" "pp_ballot q = pp_ballot p" "unat (pp_acks q) = unat (pp_acks p) + length cs"
    "instance_at t = fold merge_all (map votes cs) (instance_at s)"
    using ack_promises_merge [OF r(1) p, of cs hdr pay votes ?ms] bs(2) n cs by auto
  let ?q = "q\<lparr>pp_acks := pp_acks q + 1\<rparr>"
  obtain u where u: "starts_at g x u" "steady t u" "instance_at u = merge_all (votes c) (instance_at t)" "prep u = Some ?q"
    "proposer_ack_promise (hdr c) (Some (M_array (pay c))) t = (if pp_acks q + 1 < majority t then Some (0, u) else end_prepare ?q u)"
    by (rule ack_promise_run [OF t(2,4,5) _ c(2)]) (use c(1) t(6) in simp)
  have st: "steady s u" using t(3) u(2) by (rule steady_trans)
  have "unat (pp_acks q + 1) = unat (majority s)"
    using unat_Suc_less [of "pp_acks q" "majority s"] t(7) n bs(3) cs by simp
  then have "proposer_ack_promise (hdr c) (Some (M_array (pay c))) t = end_prepare ?q u"
    using u(5) steady_majority [OF t(3)] by (simp add: word_less_nat_alt)
  then have run: "ack_promises (map (\<lambda>a. (hdr a, M_array (pay a))) bs) s =
      do { (r, s) \<leftarrow> end_prepare ?q u; if r \<noteq> 0 then Some (r, s) else ack_promises [] s }"
    using t(1) cs by simp
  have at: "instance_at u = fold merge_all (map votes bs) (instance_at s)" using u(3) t(8) cs by simp
  have "k \<le> M" if "instance_at u k \<noteq> None" for k
    using fold_merge_dom that M(1,2) unfolding at by fastforce
  then have Mu: "\<forall>k. instance_at u k \<noteq> None \<longrightarrow> k \<le> M" by blast
  have s: "ph_inum (pi_hdr x) \<le> ihole u" "acceptors_ok u" "1 < majority u" "\<forall>i\<in>set (idefer u). iheap u i \<noteq> None"
    "unat M + length (idefer u) < 2 ^ 32 - 1" "ihole u = ihole s"
    using st r(2) ok d M(3) steady_majority [OF st] by (simp_all add: steady_def acceptors_ok_def)
  have pq: "pp_istart ?q = Some g" "pp_ballot ?q = pp_ballot p" using t(5,6) by simp_all
  obtain v z where v: "end_prepare ?q u = Some (0, v)" "log_wf v" "idefer v = []" "instance_at v n = Some z" "pi_val z = pi_val y"
    "if ihole u \<le> n \<and> \<not> pi_committed y then ph_ballot (pi_hdr z) = pp_ballot ?q else z = y"
    by (rule end_prepare_value [OF u(1) s(1) pq(1) s(2-4) Mu s(5), of n y]) (use y at in simp)
  from v(6) have "if ihole s \<le> n \<and> \<not> pi_committed y then ph_ballot (pi_hdr z) = pp_ballot p else z = y"
    unfolding s(6) pq(2) .
  with run v(1,2,4,5) show ?thesis by auto
qed

end
