(* ===== verification/Handler_Facts.thy ===== *)
theory Handler_Facts
  imports Log_Facts
begin

section \<open>Single handlers on the log\<close>

text \<open>
  What single operations do, said of the log by instance number: promising, accepting a decree, electing
  a proposer, and the operations on the list of sessions that go wrong.
\<close>

subsection \<open>Prepares\<close>

lemma acceptor_ack_prepare_cases:
  assumes "acceptor_ack_prepare src hdr s = Some (r, s')"
  shows "(ballot s < ph_ballot hdr \<and> ballot s' = ph_ballot hdr \<and> gen_high s' = gen (ph_ballot hdr) \<and>
      (\<exists>a acc. proposer s = Some a \<and> aheap s a = Some acc \<and> pa_peer acc = src)) \<or>
    (sends_only s s' \<and> (ph_ballot hdr \<le> ballot s \<or> (\<exists>a acc. proposer s = Some a \<and> aheap s a = Some acc \<and> pa_peer acc \<noteq> src)))"
proof (cases "ph_ballot hdr \<le> ballot s")
  case True
  with assms have "acceptor_redirect src hdr s = Some (r, s')" by (simp add: acceptor_ack_prepare_def)
  with True show ?thesis using acceptor_redirect_effect by blast
next
  case False
  with assms obtain a acc where a: "proposer s = Some a" "aheap s a = Some acc"
    and rest: "(if pa_peer acc \<noteq> src then acceptor_redirect src hdr s else acceptor_promise hdr s) = Some (r, s')"
    by (auto simp: acceptor_ack_prepare_def bind_Some_iff)
  show ?thesis
  proof (cases "pa_peer acc = src")
    case True
    with rest have "acceptor_promise hdr s = Some (r, s')" by simp
    then obtain py where "paxos_send_to_proposer py
        (s\<lparr>ballot := ph_ballot hdr, gen_high := gen (ph_ballot hdr)\<rparr>) = Some (r, s')"
      by (auto simp: acceptor_promise_def bind_Some_iff Let_def)
    then have "sends_only (s\<lparr>ballot := ph_ballot hdr, gen_high := gen (ph_ballot hdr)\<rparr>) s'"
      using paxos_send_to_proposer_effect by blast
    then have "ballot s' = ph_ballot hdr" "gen_high s' = gen (ph_ballot hdr)" by (auto simp: sends_only_def)
    with False True a show ?thesis by auto
  next
    case neq: False
    with rest have "acceptor_redirect src hdr s = Some (r, s')" by simp
    with neq a show ?thesis using acceptor_redirect_effect by blast
  qed
qed

subsection \<open>Decrees\<close>

lemma accept_not_reject: "header_message (hdr\<lparr>ph_opcode := OP_ACCEPT\<rparr>) \<noteq> header_message (hdr\<lparr>ph_opcode := OP_REJECT\<rparr>)"
  by (simp add: header_message_def paxos_header_pack_def)

lemma send_to_proposer_out: "paxos_send_to_proposer py s = Some (r, s') \<Longrightarrow> out s' = out s @ [e] \<Longrightarrow> \<exists>q. e = Send q py"
  by (auto simp: paxos_send_to_proposer_def paxos_send_def paxos_peer_send_def emit_def bind_Some_iff split: option.splits)

lemma sends_instance_at:
  assumes "sends_only s s'"
  shows "instance_at s' = instance_at s" "log_wf s' = log_wf s"
proof -
  from assms obtain ms where s': "s' = s\<lparr>out := out s @ ms\<rparr>" by (auto simp: sends_only_def)
  then have k: "inum_of s' = inum_of s" by (intro ext) (simp add: inum_of_def)
  show "instance_at s' = instance_at s" by (intro ext) (simp only: instance_at_def k, simp add: s')
  show "log_wf s' = log_wf s" by (simp only: log_wf_def k, simp add: s')
qed

lemma insert_upstart_at:
  assumes "instance_insert_and_upstart i s = Some t" "log_wf s" "i \<notin> set (ilist s @ idefer s)" "i < brk s" "iheap s i = Some x"
    "instance_at s (ph_inum (pi_hdr x)) = None" "\<not> ended s"
  shows "log_wf t" "instance_at t = (instance_at s)(ph_inum (pi_hdr x) \<mapsto> x)" "out t = out s" "proposer t = proposer s" "aheap t = aheap s"
proof -
  let ?n = "ph_inum (pi_hdr x)"
  from assms(1,5) obtain xs r where x: "instance_insert (inum_of s) (ilist s) i = Some (xs, r)"
    and t: "t = (if ?n = ihole s then s\<lparr>ilist := xs, istart := Some i\<rparr> else s\<lparr>ilist := xs\<rparr>)"
    by (auto simp: instance_insert_and_upstart_def bind_Some_iff Let_def)
  have k: "inum_of s i = Some ?n" using assms(5) by (simp add: inum_of_def)
  have fresh: "\<forall>j\<in>set (ilist s). inum_of s j \<noteq> Some ?n"
    using assms(6) log_wf_alloc [OF assms(2)] unfolding instance_at_None [OF assms(2)] by (fastforce simp: inum_of_def)
  have "set xs = insert i (set (ilist s))"
    using instances.insert_length [OF _ k fresh x] instances.insert_set [OF _ _ x] assms(2) k by (auto simp: log_wf_def)
  then have m: "set (ilist t) = insert i (set (ilist s))" using t by simp
  show out: "out t = out s" "proposer t = proposer s" "aheap t = aheap s" using t by simp_all
  have "\<not> ended t" using t assms(7) by simp
  moreover have "log_step s t" by (rule insert_upstart_step [OF assms(1)]) (use assms(3,4) in \<open>simp add: unlisted_def\<close>)
  ultimately show wf: "log_wf t" using assms(2) by (auto simp: log_step_def log_inv_def)
  show "instance_at t = (instance_at s)(?n \<mapsto> x)"
    by (rule instance_at_update [OF assms(2) wf, of i]) (use m assms(3,5) t fresh in auto)
qed

lemma decree_new_at:
  assumes "decree_new hdr val s = Some t" "log_wf s" "\<not> ended s" "instance_at s (ph_inum hdr) = None"
  shows "log_wf t" "instance_at t = (instance_at s)(ph_inum hdr \<mapsto> zero_instance\<lparr>pi_hdr := hdr, pi_val := val\<rparr>)" "out t = out s"
proof -
  let ?x = "zero_instance\<lparr>pi_hdr := hdr, pi_val := val\<rparr>"
  let ?u = "s\<lparr>iheap := (iheap s)(brk s \<mapsto> ?x), brk := Suc (brk s)\<rparr>"
  have ins: "instance_insert_and_upstart (brk s) ?u = Some t"
    using assms(1) by (simp add: decree_new_def alloc_instance_def)
  have lt: "\<forall>i\<in>set (ilist s @ idefer s). i < brk s" using assms(2) by (simp add: log_wf_def)
  have wf: "log_wf ?u" using lt by (intro log_wf_same [OF assms(2)] inum_of_cong) force+
  have at: "instance_at ?u = instance_at s" by (rule instance_at_cong [OF assms(2) wf]) (use lt in force)+
  have new: "brk s \<notin> set (ilist ?u @ idefer ?u)" using lt by auto
  have n: "ph_inum (pi_hdr ?x) = ph_inum hdr" by simp
  have none: "instance_at ?u (ph_inum (pi_hdr ?x)) = None" unfolding at n by (rule assms(4))
  note r = insert_upstart_at [OF ins wf new _ _ none]
  show "log_wf t" by (rule r(1)) (use assms(3) in simp_all)
  show "instance_at t = (instance_at s)(ph_inum hdr \<mapsto> ?x)"
    unfolding at [symmetric] n [symmetric] by (rule r(2)) (use assms(3) in simp_all)
  have "out t = out ?u" by (rule r(3)) (use assms(3) in simp_all)
  then show "out t = out s" by simp
qed

lemma set_instance_at:
  assumes "upd_instance i f s = Some t" "log_wf s" "i \<in> set (ilist s)" "iheap s i = Some x" "ph_inum (pi_hdr (f x)) = ph_inum (pi_hdr x)"
  shows "log_wf t" "instance_at t = (instance_at s)(ph_inum (pi_hdr x) \<mapsto> f x)" "out t = out s"
proof -
  have t: "t = s\<lparr>iheap := (iheap s)(i \<mapsto> f x)\<rparr>" using assms(1,4) by (simp add: upd_instance_def)
  then show "out t = out s" by simp
  show wf: "log_wf t" by (rule log_wf_same [OF assms(2)]) (use assms in \<open>auto simp: t inum_of_def\<close>)
  show "instance_at t = (instance_at s)(ph_inum (pi_hdr x) \<mapsto> f x)"
  proof (rule instance_at_update [OF assms(2) wf, of i])
    fix j assume "j \<noteq> i"
    then show "j \<in> set (ilist t) \<longleftrightarrow> j \<in> set (ilist s) \<and> inum_of s j \<noteq> Some (ph_inum (pi_hdr x))"
      using paxid.ordered_unique [of "inum_of s" "ilist s" j i "ph_inum (pi_hdr x)"] assms(2,3,4) t
      by (auto simp: log_wf_def inum_of_def)
  qed (use assms t in \<open>simp_all add: inum_of_def\<close>)
qed

lemma instance_find_at:
  assumes "log_wf s" "instance_find (inum_of s) (ilist s) n = Some r"
  shows "r = None \<Longrightarrow> instance_at s n = None"
    "r = Some i \<Longrightarrow> i \<in> set (ilist s) \<and> (\<exists>x. iheap s i = Some x \<and> ph_inum (pi_hdr x) = n \<and> instance_at s n = Some x)"
proof -
  show "instance_at s n = None" if "r = None" using that assms(2) by (simp add: instance_at_def)
  assume r: "r = Some i"
  then have i: "i \<in> set (ilist s)" "inum_of s i = Some n"
    using assms instances.find_Some [of "inum_of s" "ilist s" n i] by (auto simp: log_wf_def)
  then obtain x where "iheap s i = Some x" "ph_inum (pi_hdr x) = n" by (auto simp: inum_of_def)
  with i assms(2) r show "i \<in> set (ilist s) \<and> (\<exists>x. iheap s i = Some x \<and> ph_inum (pi_hdr x) = n \<and> instance_at s n = Some x)"
    by (simp add: instance_at_def)
qed

text \<open>\<open>recorded\<close>: how an instance must look for the accept of a decree to be justified.\<close>

definition recorded :: "paxos_header \<Rightarrow> paxos_value \<Rightarrow> paxos_instance \<Rightarrow> bool" where
  "recorded hdr val y \<longleftrightarrow>
     (if pi_committed y then pv_dkind (pi_val y) = pv_dkind val \<and> pv_reqid (pi_val y) = pv_reqid val
      else pi_hdr y = hdr \<and> pi_val y = val)"

lemma acceptor_accept_at: "acceptor_accept hdr s = Some (r, s') \<Longrightarrow> instance_at s' = instance_at s"
  by (drule acceptor_accept_effect) (rule sends_instance_at)

lemma decree_found_at:
  assumes "decree_found hdr val i s = Some (r, s')" "log_wf s" "i \<in> set (ilist s)" "iheap s i = Some x" "ph_inum (pi_hdr x) = ph_inum hdr"
    "instance_at s (ph_inum hdr) = Some x" "out s' \<noteq> out s"
  shows "\<exists>y. instance_at s' = (instance_at s)(ph_inum hdr \<mapsto> y) \<and> recorded hdr val y"
proof (cases "pi_committed x")
  case True
  with assms(1,4) have "acceptor_accept hdr s = Some (r, s')" and e: "pv_dkind (pi_val x) = pv_dkind val"
    "pid (pv_reqid (pi_val x)) = pid (pv_reqid val)" "gen (pv_reqid (pi_val x)) = gen (pv_reqid val)"
    by (auto simp: decree_found_def bind_Some_iff if_None_iff split: if_splits)
  then have "instance_at s' = instance_at s" by (intro acceptor_accept_at)
  moreover have "recorded hdr val x" using True e by (simp add: recorded_def ppair.expand)
  ultimately show ?thesis using assms(6) by (intro exI [of _ x]) auto
next
  case False
  with assms(1,4,7) obtain t where t: "upd_instance i (\<lambda>x. x\<lparr>pi_hdr := hdr, pi_val := val\<rparr>) s = Some t"
    and a: "acceptor_accept hdr t = Some (r, s')"
    by (auto simp: decree_found_def bind_Some_iff split: if_splits)
  have "instance_at t = (instance_at s)(ph_inum hdr \<mapsto> x\<lparr>pi_hdr := hdr, pi_val := val\<rparr>)"
    using set_instance_at(2) [OF t assms(2,3,4)] assms(5) by simp
  moreover have "recorded hdr val (x\<lparr>pi_hdr := hdr, pi_val := val\<rparr>)" using False by (simp add: recorded_def)
  ultimately show ?thesis using acceptor_accept_at [OF a] by auto
qed

lemma acceptor_ack_decree_at:
  assumes "acceptor_ack_decree hdr (Some o1) s = Some (r, s')" "paxos_value_unpack o1 = Some val" "log_wf s" "\<not> ended s"
    and sent: "out s' = out s @ [Send q (header_message (hdr\<lparr>ph_opcode := OP_ACCEPT\<rparr>))]"
  shows "ph_ballot hdr = ballot s" "\<exists>y. instance_at s' = (instance_at s)(ph_inum hdr \<mapsto> y) \<and> recorded hdr val y"
proof -
  show b: "ph_ballot hdr = ballot s" using assms(1) sent by (auto simp: acceptor_ack_decree_def split: if_splits)
  with assms(1,2) obtain rej where rej: "decree_rejected val s = Some rej"
    and rest: "(if rej then acceptor_reject hdr s else instance_find (inum_of s) (ilist s) (ph_inum hdr) \<bind>
       (\<lambda>found. case found of None \<Rightarrow> decree_new hdr val s \<bind> acceptor_accept hdr | Some i \<Rightarrow> decree_found hdr val i s)) = Some (r, s')"
    by (auto simp: acceptor_ack_decree_def bind_Some_iff if_None_iff)
  have "\<not> rej"
  proof
    assume rej
    with rest have "paxos_send_to_proposer (header_message (hdr\<lparr>ph_opcode := OP_REJECT\<rparr>)) s = Some (r, s')"
      by (simp add: acceptor_reject_def)
    from send_to_proposer_out [OF this sent] accept_not_reject show False by auto
  qed
  with rest obtain found where found: "instance_find (inum_of s) (ilist s) (ph_inum hdr) = Some found"
    and rest: "(case found of None \<Rightarrow> decree_new hdr val s \<bind> acceptor_accept hdr | Some i \<Rightarrow> decree_found hdr val i s) = Some (r, s')"
    by (auto simp: bind_Some_iff)
  show "\<exists>y. instance_at s' = (instance_at s)(ph_inum hdr \<mapsto> y) \<and> recorded hdr val y"
  proof (cases found)
    case None
    with rest obtain t where t: "decree_new hdr val s = Some t" "acceptor_accept hdr t = Some (r, s')" by (auto simp: bind_Some_iff)
    have "instance_at s (ph_inum hdr) = None" by (rule instance_find_at(1) [OF assms(3) found None])
    from decree_new_at(2) [OF t(1) assms(3,4) this] acceptor_accept_at [OF t(2)] show ?thesis
      by (auto simp: recorded_def zero_instance_def)
  next
    case (Some i)
    with rest have "decree_found hdr val i s = Some (r, s')" by simp
    with instance_find_at(2) [OF assms(3) found Some] assms(3) sent show ?thesis using decree_found_at by auto
  qed
qed

subsection \<open>Electing a proposer\<close>

definition live :: "paxos_session \<Rightarrow> aref \<Rightarrow> bool" where
  "live s a \<longleftrightarrow> (\<exists>acc. aheap s a = Some acc \<and> (pa_paxid acc = self_id s \<or> pa_peer acc \<noteq> None))"

lemma reset_proposer_walk_run:
  assumes "\<forall>a\<in>set its. aheap s a \<noteq> None"
  shows "reset_proposer_walk its s = Some (case List.find (live s) its of None \<Rightarrow> s | Some a \<Rightarrow> s\<lparr>proposer := Some a\<rparr>)"
  using assms by (induction its) (auto simp: live_def)

lemma reset_proposer_run:
  assumes ord: "ordered paxid_compare (paxid_of s) (alist s)"
  shows "\<exists>s'. reset_proposer s = Some s' \<and>
    (if \<exists>a\<in>set (alist s). live s a
     then \<exists>a. s' = s\<lparr>proposer := Some a\<rparr> \<and> a \<in> set (alist s) \<and> live s a \<and>
       (\<forall>b\<in>set (alist s). live s b \<longrightarrow> the (paxid_of s a) \<le> the (paxid_of s b))
     else s' = s)"
proof -
  have al: "\<forall>a\<in>set (alist s). aheap s a \<noteq> None" using ord by (auto simp: ordered_def paxid_of_def)
  show ?thesis
  proof (cases "List.find (live s) (alist s)")
    case None
    with reset_proposer_walk_run [OF al] show ?thesis
      by (auto simp: reset_proposer_def find_None_iff)
  next
    case (Some a)
    then obtain k where k: "k < length (alist s)" "live s (alist s ! k)" "a = alist s ! k" "\<forall>j<k. \<not> live s (alist s ! j)"
      by (auto simp: find_Some_iff)
    have "the (paxid_of s a) \<le> the (paxid_of s b)" if b: "b \<in> set (alist s)" "live s b" for b
    proof -
      from b(1) obtain j where j: "j < length (alist s)" "b = alist s ! j" by (auto simp: in_set_conv_nth)
      with k(4) b(2) have "k \<le> j" by (metis not_le)
      then show ?thesis
        using j k ord by (cases "j = k") (auto simp: ordered_def sorted_wrt_iff_nth_less less_imp_le)
    qed
    with Some k reset_proposer_walk_run [OF al] show ?thesis
      by (auto simp: reset_proposer_def)
  qed
qed

subsection \<open>The list of sessions\<close>

lemma paxos_sync_timer_gone:
  assumes ord: "ordered pax_uuid_compare (uuid_of st) (sessions st)" and q: "q \<in> set (sessions st)" "uuid_of st q = Some u"
    and d: "motmot_disconnect q st = Some (c, st')"
  shows "paxos_sync_timer u st' = None"
proof -
  from d obtain s t where t: "paxos_end s = Some (c, t)" "session_put q t st = Some st'"
    by (auto simp: motmot_disconnect_def with_session_def bind_Some_iff)
  then have "ended t" using paxos_end_result by blast
  with t(2) have st': "sessions st' = remove1 q (sessions st)" "sheap st' = (sheap st)(q := None)"
    by (auto simp: session_put_def split: if_splits)
  have dist: "distinct (sessions st)" using ord by (rule pax_uuid.ordered_distinct)
  have keys: "uuid_of st' r = uuid_of st r \<and> uuid_of st r \<noteq> Some u" if "r \<in> set (sessions st')" for r
  proof -
    have r: "r \<in> set (sessions st)" "r \<noteq> q" using that st'(1) dist by auto
    with pax_uuid.ordered_unique [OF ord, of r q u] q show ?thesis by (auto simp: uuid_of_def st'(2))
  qed
  obtain ys zs where yz: "sessions st = ys @ q # zs" "q \<notin> set ys" using q(1) by (metis split_list_first)
  then have "sessions st' = ys @ zs" using st'(1) by (simp add: remove1_append)
  then have "ordered pax_uuid_compare (uuid_of st) (sessions st')"
    using ord yz(1) by (metis ordered_remove_mid)
  then have "ordered pax_uuid_compare (uuid_of st') (sessions st')"
    using keys ordered_cong [of "sessions st'" "uuid_of st'" "uuid_of st"] by auto
  then have "session_find (uuid_of st') (sessions st') u = Some None"
    using sessions.find_None keys by fastforce
  then show ?thesis by (simp add: paxos_sync_timer_def)
qed

lemma dispatch_welcome_hides:
  assumes ord: "ordered pax_uuid_compare (uuid_of st) (sessions st)" and new: "\<forall>r\<in>set (sessions st). r < sbrk st"
    and pos: "\<forall>r\<in>set (sessions st). uuid_of st r \<noteq> Some 0"
    and d: "dispatch_welcome src hdr o1 st = Some (0, st')" and U: "uuid_of st' (sbrk st) = Some U"
    and q: "q \<in> set (sessions st)" "uuid_of st q = Some u" "u < U"
  shows "q \<in> set (sessions st') \<and> uuid_of st' q = Some u \<and> session_find (uuid_of st') (sessions st') u = Some None"
proof -
  let ?s0 = "session_new (connect_cb st) [] Null_data False"
  let ?t = "st\<lparr>sheap := (sheap st)(sbrk st \<mapsto> ?s0), sbrk := Suc (sbrk st)\<rparr>"
  from d obtain xs e s where ins: "session_insert (uuid_of ?t) (sessions st) (sbrk st) = Some (xs, e)"
    and put: "session_put (sbrk st) s (?t\<lparr>sessions := xs\<rparr>) = Some st'"
    by (auto simp: dispatch_welcome_def session_enter_def bind_Some_iff Let_def)
  have k: "uuid_of ?t r = (if r = sbrk st then Some 0 else uuid_of st r)" for r
    by (simp add: uuid_of_def session_new_def zero_session_def)
  have keys: "\<forall>r\<in>set (sessions st). uuid_of ?t r = uuid_of st r" using new by (auto simp: k)
  have ordt: "ordered pax_uuid_compare (uuid_of ?t) (sessions st)"
    using ord keys ordered_cong [of "sessions st" "uuid_of ?t" "uuid_of st"] by auto
  have fresh: "\<forall>r\<in>set (sessions st). uuid_of ?t r \<noteq> Some 0" using keys pos by auto
  have xs: "xs = sbrk st # sessions st"
  proof (cases rule: sessions.insert_cases [OF ordt, of "sbrk st" 0])
    case 1
    then show ?case by (simp add: k)
  next
    case (2 x)
    with fresh show ?thesis by blast
  next
    case (3 ys zs)
    have "ys = []"
    proof (rule ccontr)
      assume "ys \<noteq> []"
      then have "pax_uuid_compare (the (uuid_of ?t (hd ys))) 0 < 0"
        using 3(4) hd_in_set by (fastforce simp: ordered_def sorted_wrt_append k)
      then show False by (simp add: pax_uuid_compare_def split: if_splits)
    qed
    with 3(1,2) ins show ?thesis by auto
  qed
  have "\<not> ended s"
    using put U by (auto simp: session_put_def uuid_of_def split: if_splits)
  then have st': "sessions st' = sbrk st # sessions st" "sheap st' = (sheap st)(sbrk st \<mapsto> s)"
    using put xs by (auto simp: session_put_def)
  have "session_find (uuid_of st') (sessions st') u = Some None"
    using U q(3) by (simp add: session_find_def LIST_FIND_FWD_def st'(1) pax_uuid_compare_def LIST_ITER_CMP_FWD_def)
  moreover have "uuid_of st' q = Some u" using q new by (auto simp: uuid_of_def st'(2))
  ultimately show ?thesis using q(1) st'(1) by simp
qed

subsection \<open>The continuation of a reject\<close>

lemma ack_reject_resets:
  assumes r: "do_continue_ack_reject (Some c) a k s = Some (r, s')" "pk_data k = PK_inum n" and wf: "log_wf s" and x: "instance_at s n = Some x"
  shows "\<exists>y. instance_at s' n = Some y \<and> \<not> pi_committed y \<and> \<not> pi_learned y \<and> pv_dkind (pi_val y) = DEC_NULL"
proof -
  from r obtain found where f: "instance_find (inum_of s) (ilist s) n = Some found"
    and rest: "(case found of None \<Rightarrow> Some (0, s) | Some i \<Rightarrow> reject_retry (Some c) a i s) = Some (r, s')"
    by (auto simp: do_continue_ack_reject_def bind_Some_iff)
  with instance_find_at(1) [OF wf f] x obtain i where i: "found = Some i" by (cases found) auto
  note i2 = instance_find_at(2) [OF wf f i]
  from rest i obtain t e u v where t: "attach_peer (Some c) a s = Some (Some c, t)"
    and u: "paxos_hello a (t\<lparr>live_count := live_count t + 1\<rparr>) = Some (0, u)"
    and v: "upd_instance i (\<lambda>x. instance_init_metadata (nullify x)) u = Some v"
    and b: "paxos_broadcast_instance i v = Some (r, s')"
    by (auto simp: reject_retry_def bind_Some_iff attach_peer_def paxos_peer_init_def dest: paxos_hello_effect split: if_splits)
  have "log_same s (t\<lparr>live_count := live_count t + 1\<rparr>)"
    using attach_peer_same [OF t] by (simp add: log_same_def)
  moreover have "sends_only (t\<lparr>live_count := live_count t + 1\<rparr>) u" using paxos_hello_effect [OF u] by blast
  ultimately have same: "ilist u = ilist s" "iheap u = iheap s" "idefer u = idefer s" "brk s \<le> brk u"
    by (auto simp: log_same_def sends_only_def)
  have ux: "log_wf u" "i \<in> set (ilist u)" "iheap u i = Some x" "ph_inum (pi_hdr x) = n"
    using i2 x same log_same_at(2) [OF same wf] by auto
  have "ph_inum (pi_hdr (instance_init_metadata (nullify x))) = ph_inum (pi_hdr x)"
    by (simp add: instance_init_metadata_def nullify_def)
  from set_instance_at(2) [OF v ux(1-3) this] ux(4)
  have "instance_at v n = Some (instance_init_metadata (nullify x))" by simp
  moreover have "instance_at s' = instance_at v"
    using paxos_broadcast_instance_effect [OF b] sends_instance_at(1) by blast
  ultimately show ?thesis by (simp add: instance_init_metadata_def nullify_def)
qed

end
