(* ===== verification/Commit_Facts.thy ===== *)
theory Commit_Facts
  imports Handler_Facts
begin

section \<open>What a commit message leaves behind\<close>

text \<open>
  After a commit, a recommit or a resend the instance is in the log, committed.  The value is the one the
  instance had when it was committed before, and the one of the message otherwise.  All of it follows
  from one fact: once the flag is set, everything a commit does afterwards (asking for a request,
  learning) is a step that keeps committed instances.
\<close>

lemma paxos_commit_installs:
  assumes "paxos_commit i s = Some (r, s')" "log_wf s" "\<not> ended s" "\<not> ended s'" "i \<in> set (ilist s)" "iheap s i = Some x"
  shows "\<exists>y. instance_at s' (ph_inum (pi_hdr x)) = Some y \<and> pi_committed y \<and> pi_val y = pi_val x"
proof -
  let ?t = "s\<lparr>iheap := (iheap s)(i \<mapsto> x\<lparr>pi_committed := True\<rparr>)\<rparr>"
  have t: "upd_instance i (\<lambda>x. x\<lparr>pi_committed := True\<rparr>) s = Some ?t" using assms(6) by (simp add: upd_instance_def)
  with assms(1) have "paxos_retrieve i ?t = Some (r, s') \<or> commit_cached i ?t = Some (r, s')"
    by (auto simp: paxos_commit_def bind_Some_iff split: if_splits)
  then have step: "log_step ?t s'" by (auto dest: paxos_retrieve_effect commit_cached_step intro: sends_only_step)
  have "log_step s ?t" by (rule upd_instance_step [OF t]) (auto simp: same_decree_def)
  then have wf: "log_wf ?t" using assms(2,3) by (auto simp: log_step_def log_inv_def)
  have "instance_at ?t (ph_inum (pi_hdr x)) = Some (x\<lparr>pi_committed := True\<rparr>)"
    unfolding instance_at_iff [OF wf] using assms(5) by (intro bexI [of _ i]) auto
  moreover have "log_wf s'" "log_kept ?t s'" using step wf assms(3,4) by (auto simp: log_step_def log_inv_def log_keep_def)
  ultimately show ?thesis using instance_kept [OF wf] by fastforce
qed

text \<open>The end of both kinds of commit message: the value is set, then the instance committed.\<close>

lemma commit_value_installs:
  assumes "upd_instance i (\<lambda>x. x\<lparr>pi_val := val\<rparr>) s = Some t" "paxos_commit i t = Some (r, s')"
    "log_wf s" "\<not> ended s" "\<not> ended s'" "i \<in> set (ilist s)" "iheap s i = Some x" "\<not> pi_committed x"
  shows "\<exists>y. instance_at s' (ph_inum (pi_hdr x)) = Some y \<and> pi_committed y \<and> pi_val y = val"
proof -
  have "log_step s t" by (rule upd_instance_step [OF assms(1)]) (use assms(7,8) in \<open>auto simp: same_decree_def\<close>)
  moreover have t: "ended t = ended s" "ilist t = ilist s" "iheap t i = Some (x\<lparr>pi_val := val\<rparr>)"
    using assms(1,7) by (auto simp: upd_instance_def)
  ultimately have "log_wf t" using assms(3,4) by (auto simp: log_step_def log_inv_def)
  from paxos_commit_installs [OF assms(2) this _ assms(5) _ t(3)] t assms(4,6) show ?thesis by simp
qed

text \<open>Finding the instance a message is about, or making it.\<close>

lemma new_instance_at:
  assumes "instance_insert_and_upstart (brk s) (s\<lparr>iheap := (iheap s)(brk s \<mapsto> x), brk := Suc (brk s)\<rparr>) = Some t"
    "log_wf s" "\<not> ended s" "instance_at s (ph_inum (pi_hdr x)) = None"
  shows "log_wf t" "\<not> ended t" "brk s \<in> set (ilist t)" "iheap t (brk s) = Some x"
proof -
  let ?u = "s\<lparr>iheap := (iheap s)(brk s \<mapsto> x), brk := Suc (brk s)\<rparr>"
  have lt: "\<forall>i\<in>set (ilist s @ idefer s). i < brk s" using assms(2) by (simp add: log_wf_def)
  have wf: "log_wf ?u" using lt by (intro log_wf_same [OF assms(2)] inum_of_cong) force+
  have at: "instance_at ?u = instance_at s" by (rule instance_at_cong [OF assms(2) wf]) (use lt in force)+
  have new: "brk s \<notin> set (ilist ?u @ idefer ?u)" using lt by auto
  have none: "instance_at ?u (ph_inum (pi_hdr x)) = None" unfolding at by (rule assms(4))
  note r = insert_upstart_at [OF assms(1) wf new _ _ none]
  show wt: "log_wf t" by (rule r(1)) (use assms(3) in simp_all)
  have "instance_at t = (instance_at ?u)(ph_inum (pi_hdr x) \<mapsto> x)" by (rule r(2)) (use assms(3) in simp_all)
  then have "instance_at t (ph_inum (pi_hdr x)) = Some x" by simp
  moreover have h: "iheap t = iheap ?u" "ended t = ended s"
    using assms(1) by (auto simp: instance_insert_and_upstart_def bind_Some_iff Let_def split: if_splits)
  then show "\<not> ended t" "iheap t (brk s) = Some x" using assms(3) by simp_all
  obtain xs r where ins: "instance_insert (inum_of ?u) (ilist s) (brk s) = Some (xs, r)" "ilist t = xs"
    using assms(1) by (auto simp: instance_insert_and_upstart_def bind_Some_iff Let_def split: if_splits)
  have k: "inum_of ?u (brk s) = Some (ph_inum (pi_hdr x))" by (simp add: inum_of_def)
  have fresh: "\<forall>j\<in>set (ilist s). inum_of ?u j \<noteq> Some (ph_inum (pi_hdr x))"
    using none unfolding instance_at_None [OF wf] by (auto simp: inum_of_def)
  show "brk s \<in> set (ilist t)"
    using instances.insert_length [OF _ k fresh ins(1)] instances.insert_set [OF _ _ ins(1)] wf k ins(2)
    by (auto simp: log_wf_def)
qed

definition at_num :: "paxid \<Rightarrow> iref \<Rightarrow> paxos_session \<Rightarrow> paxos_instance \<Rightarrow> bool" where
  "at_num n i t x \<longleftrightarrow> log_wf t \<and> \<not> ended t \<and> i \<in> set (ilist t) \<and> iheap t i = Some x \<and> ph_inum (pi_hdr x) = n"

lemma commit_instance_at:
  assumes "commit_instance hdr s = Some (i, t)" "log_wf s" "\<not> ended s"
  shows "\<exists>x. at_num (ph_inum hdr) i t x \<and> (case instance_at s (ph_inum hdr) of None \<Rightarrow> \<not> pi_committed x | Some y \<Rightarrow> x = y)"
proof -
  from assms(1) obtain f where f: "instance_find (inum_of s) (ilist s) (ph_inum hdr) = Some f"
    by (auto simp: commit_instance_def bind_Some_iff)
  show ?thesis
  proof (cases f)
    case None
    have n: "instance_at s (ph_inum hdr) = None" using instance_find_at(1) [OF assms(2) f None] .
    let ?x = "zero_instance\<lparr>pi_hdr := hdr\<rparr>"
    have ins: "instance_insert_and_upstart (brk s) (s\<lparr>iheap := (iheap s)(brk s \<mapsto> ?x), brk := Suc (brk s)\<rparr>) = Some t" "i = brk s"
      using assms(1) f None by (auto simp: commit_instance_def alloc_instance_def bind_Some_iff)
    have "at_num (ph_inum hdr) i t ?x"
      using new_instance_at [OF ins(1) assms(2,3)] n ins(2) by (simp add: at_num_def)
    then show ?thesis using n by (intro exI [of _ ?x]) (simp add: zero_instance_def)
  next
    case (Some j)
    with assms(1) f have j: "i = j" "t = s" by (auto simp: commit_instance_def)
    from instance_find_at(2) [OF assms(2) f Some] obtain x where
      "j \<in> set (ilist s)" "iheap s j = Some x" "ph_inum (pi_hdr x) = ph_inum hdr" "instance_at s (ph_inum hdr) = Some x" by auto
    with j assms(2,3) show ?thesis by (auto simp: at_num_def)
  qed
qed

text \<open>
  \<open>installed\<close>: the value an instance has after a commit message for it.
\<close>

definition installed :: "paxos_session \<Rightarrow> paxid \<Rightarrow> paxos_value \<Rightarrow> paxos_value" where
  "installed s n val = (case instance_at s n of Some x \<Rightarrow> if pi_committed x then pi_val x else val | None \<Rightarrow> val)"

lemma ack_commit_installs:
  assumes "acceptor_ack_commit hdr o1 s = Some (r, s')" "log_wf s" "\<not> ended s" "\<not> ended s'"
    "\<And>o2. o1 = Some o2 \<Longrightarrow> paxos_value_unpack o2 = Some val"
  shows "\<exists>y. instance_at s' (ph_inum hdr) = Some y \<and> pi_committed y \<and> pi_val y = installed s (ph_inum hdr) val"
proof -
  from assms(1) obtain i t inst where t: "commit_instance hdr s = Some (i, t)" "iheap t i = Some inst"
    and rest: "if pi_committed inst then Some (0, t) = Some (r, s')
      else \<exists>o2 v u. o1 = Some o2 \<and> paxos_value_unpack o2 = Some v \<and>
        upd_instance i (\<lambda>x. x\<lparr>pi_val := v\<rparr>) t = Some u \<and> paxos_commit i u = Some (r, s')"
    by (fastforce simp: acceptor_ack_commit_def bind_Some_iff split: if_splits)
  from commit_instance_at [OF t(1) assms(2,3)] t(2) have x: "at_num (ph_inum hdr) i t inst"
    and old: "case instance_at s (ph_inum hdr) of None \<Rightarrow> \<not> pi_committed inst | Some y \<Rightarrow> inst = y"
    by (auto simp: at_num_def)
  show ?thesis
  proof (cases "pi_committed inst")
    case True
    with rest old obtain "s' = t" "instance_at s (ph_inum hdr) = Some inst" by (auto split: option.splits)
    moreover have "instance_at t (ph_inum hdr) = Some inst" using x by (auto simp: at_num_def instance_at_iff)
    ultimately show ?thesis using True by (simp add: installed_def)
  next
    case False
    with rest obtain o2 v u where u: "o1 = Some o2" "paxos_value_unpack o2 = Some v"
      "upd_instance i (\<lambda>x. x\<lparr>pi_val := v\<rparr>) t = Some u" "paxos_commit i u = Some (r, s')" by auto
    with assms(5) have v: "v = val" by auto
    have "\<exists>y. instance_at s' (ph_inum (pi_hdr inst)) = Some y \<and> pi_committed y \<and> pi_val y = val"
      by (rule commit_value_installs [OF u(3)[unfolded v] u(4)]) (use x False assms(4) in \<open>simp_all add: at_num_def\<close>)
    moreover have "installed s (ph_inum hdr) val = val" using old False by (auto simp: installed_def split: option.splits)
    ultimately show ?thesis using x by (simp add: at_num_def)
  qed
qed

lemma recommit_instance_at:
  assumes "recommit_instance hdr f s = Some (i, t)" "instance_find (inum_of s) (ilist s) (ph_inum hdr) = Some f"
    "log_wf s" "\<not> ended s" "\<forall>x. instance_at s (ph_inum hdr) = Some x \<longrightarrow> \<not> pi_committed x"
  shows "\<exists>x. at_num (ph_inum hdr) i t x \<and> \<not> pi_committed x"
proof (cases f)
  case None
  have n: "instance_at s (ph_inum hdr) = None" using instance_find_at(1) [OF assms(3,2) None] .
  let ?x = "zero_instance\<lparr>pi_hdr := hdr\<rparr>"
  have ins: "instance_insert_and_upstart (brk s) (s\<lparr>iheap := (iheap s)(brk s \<mapsto> ?x), brk := Suc (brk s)\<rparr>) = Some t" "i = brk s"
    using assms(1) None by (auto simp: recommit_instance_def alloc_instance_def bind_Some_iff)
  have "at_num (ph_inum hdr) i t ?x"
    using new_instance_at [OF ins(1) assms(3,4)] n ins(2) by (simp add: at_num_def)
  then show ?thesis by (intro exI [of _ ?x]) (simp add: zero_instance_def)
next
  case (Some j)
  from instance_find_at(2) [OF assms(3,2) Some] obtain x where
    x: "j \<in> set (ilist s)" "iheap s j = Some x" "ph_inum (pi_hdr x) = ph_inum hdr" "instance_at s (ph_inum hdr) = Some x" by auto
  with assms(1) Some have t: "i = j" "upd_instance j (\<lambda>x. x\<lparr>pi_hdr := hdr\<rparr>) s = Some t"
    by (auto simp: recommit_instance_def bind_Some_iff)
  have "log_wf t" by (rule set_instance_at(1) [OF t(2) assms(3) x(1,2)]) (simp add: x(3))
  with t x assms(4,5) show ?thesis by (auto simp: at_num_def upd_instance_def)
qed

lemma ack_recommit_installs:
  assumes "acceptor_ack_recommit hdr o1 s = Some (r, s')" "log_wf s" "\<not> ended s" "\<not> ended s'"
    "\<And>o2. o1 = Some o2 \<Longrightarrow> paxos_value_unpack o2 = Some val"
  shows "\<exists>y. instance_at s' (ph_inum hdr) = Some y \<and> pi_committed y \<and> pi_val y = installed s (ph_inum hdr) val"
proof -
  from assms(1) obtain f d where f: "instance_find (inum_of s) (ilist s) (ph_inum hdr) = Some f"
    and d: "(case f of None \<Rightarrow> Some False | Some i \<Rightarrow> map_option pi_committed (iheap s i)) = Some d"
    and rest: "if d then Some (0, s) = Some (r, s')
      else \<exists>i t o2 v u. recommit_instance hdr f s = Some (i, t) \<and> o1 = Some o2 \<and> paxos_value_unpack o2 = Some v \<and>
        upd_instance i (\<lambda>x. x\<lparr>pi_val := v\<rparr>) t = Some u \<and> paxos_commit i u = Some (r, s')"
    by (auto simp: acceptor_ack_recommit_def bind_Some_iff split: if_splits)
  have cd: "d \<longleftrightarrow> (\<exists>x. instance_at s (ph_inum hdr) = Some x \<and> pi_committed x)"
    using d instance_find_at [OF assms(2) f] by (auto split: option.splits)
  show ?thesis
  proof (cases d)
    case True
    with rest cd show ?thesis by (auto simp: installed_def)
  next
    case False
    with rest obtain i t o2 v u where u: "recommit_instance hdr f s = Some (i, t)" "o1 = Some o2" "paxos_value_unpack o2 = Some v"
      "upd_instance i (\<lambda>x. x\<lparr>pi_val := v\<rparr>) t = Some u" "paxos_commit i u = Some (r, s')" by auto
    with assms(5) have v: "v = val" by auto
    from recommit_instance_at [OF u(1) f assms(2,3)] False cd obtain x where x: "at_num (ph_inum hdr) i t x" "\<not> pi_committed x" by auto
    have "\<exists>y. instance_at s' (ph_inum (pi_hdr x)) = Some y \<and> pi_committed y \<and> pi_val y = val"
      by (rule commit_value_installs [OF u(4)[unfolded v] u(5)]) (use x assms(4) in \<open>simp_all add: at_num_def\<close>)
    moreover have "installed s (ph_inum hdr) val = val" using False cd by (auto simp: installed_def split: option.splits)
    ultimately show ?thesis using x by (simp add: at_num_def)
  qed
qed

end
