(* ===== verification/Welcome_Wire.thy ===== *)
theory Welcome_Wire
  imports Promise_Wire
begin

section \<open>From the proposer's welcome to the newcomer's session\<close>

text \<open>
  A new participant builds its whole session from one message.  The message is followed from the
  proposer's session through msgpack into the newcomer's: its acceptors, the connections it opens, its
  log, and the hole at which it goes on learning.
\<close>

subsection \<open>The message\<close>

lemma pack_acceptors_run:
  "\<forall>a\<in>set as. aheap s a \<noteq> None \<Longrightarrow>
    pack_acceptors as s = Some (concat (map paxos_acceptor_pack (map (\<lambda>a. the (aheap s a)) as)))"
  by (induction as) auto

definition welcome_obj :: "paxos_header \<Rightarrow> pax_uuid \<Rightarrow> paxid \<Rightarrow> paxos_acceptor list \<Rightarrow> paxos_instance list \<Rightarrow> mobj" where
  "welcome_obj hdr uuid base accs xs = M_array
     [M_array [M_positive_integer uuid, M_positive_integer (ucast base)],
      M_array (map acceptor_obj accs), M_array (map instance_obj xs)]"

lemma welcome_unpack:
  assumes u: "msgpack_unpacker u" and wf: "log_wf s" and al: "\<forall>a\<in>set (alist s). aheap s a \<noteq> None"
    and k: "\<forall>i\<in>set (ilist s). known_instance (the (iheap s i))"
  shows "\<exists>py. welcome_message n s = Some py \<and>
    u py = Some [M_array [header_obj (header_init s OP_WELCOME n),
      welcome_obj (header_init s OP_WELCOME n) (session_id s) (ibase s) (map (\<lambda>a. the (aheap s a)) (alist s)) (insts s (ilist s))]]"
proof -
  let ?accs = "map (\<lambda>a. the (aheap s a)) (alist s)" and ?xs = "insts s (ilist s)"
  let ?base = "Pack_array 2 # paxos_uuid_pack (session_id s) @ paxos_paxid_pack (ibase s)"
  let ?as = "Pack_array (length (alist s)) # concat (map paxos_acceptor_pack ?accs)"
  let ?is = "Pack_array (length (ilist s)) # concat (map paxos_instance_pack ?xs)"
  have p: "pack_acceptors (alist s) s = Some (concat (map paxos_acceptor_pack ?accs))" by (rule pack_acceptors_run [OF al])
  have i: "pack_instances (ilist s) s = Some (concat (map paxos_instance_pack ?xs))"
    by (rule pack_instances_run) (use log_wf_alloc [OF wf] in force)
  have e1: "msgpack_unpacker.encodes u ?base (M_array [M_positive_integer (session_id s), M_positive_integer (ucast (ibase s))])"
    using msgpack_unpacker.encodes_array2 [OF u msgpack_unpacker.encodes_prims(2) [OF u] msgpack_unpacker.encodes_prims(1) [OF u]]
    by (simp add: paxos_uuid_pack_def paxos_paxid_pack_def msgpack_pack_pax_uuid_def msgpack_pack_paxid_def)
  have e2: "msgpack_unpacker.encodes u ?as (M_array (map acceptor_obj ?accs))"
    by (rule msgpack_unpacker.encodes_array_map [OF u msgpack_unpacker.encodes_acceptor [OF u]]) simp
  have e3: "msgpack_unpacker.encodes u ?is (M_array (map instance_obj ?xs))"
    by (rule msgpack_unpacker.encodes_array_map [OF u msgpack_unpacker.encodes_instance [OF u]]) (use k in \<open>auto simp: insts_def\<close>)
  have op: "known_op (ph_opcode (header_init s OP_WELCOME n))" by (simp add: header_init_def known_op_def paxops_def)
  note m = msgpack_unpacker.encodes_message2 [OF u op msgpack_unpacker.encodes_array3 [OF u e1 e2 e3]]
  show ?thesis
    using msgpack_unpacker.encodes_unpack [OF u m] p i
    by (simp add: welcome_message_def welcome_obj_def paxos_payload_begin_array_def del: pack_acceptors.simps pack_instances.simps)
qed

subsection \<open>The acceptors\<close>

text \<open>One round of the loop over the acceptors, when the connect callback returns 0.\<close>

definition welcomed :: "peer option \<Rightarrow> paxid \<Rightarrow> paxos_acceptor \<Rightarrow> paxos_session \<Rightarrow> paxos_session" where
  "welcomed source bid acc s =
     (let a = brk s; p = pa_paxid acc
      in if p = bid then s\<lparr>brk := Suc a, alist := alist s @ [a], proposer := Some a,
             aheap := (aheap s)(a \<mapsto> acc\<lparr>pa_peer := source\<rparr>), live_count := live_count s + 1\<rparr>
         else let t = s\<lparr>aheap := (aheap s)(a \<mapsto> acc\<lparr>pa_peer := None\<rparr>), brk := Suc a, alist := alist s @ [a]\<rparr>
         in if p \<noteq> self_id s then snd (state_connect (pa_desc acc) (Suc a) (snd (continuation_new Continue_ack_welcome p t)))
            else t)"

lemma welcome_acceptors_step:
  assumes "\<forall>d. connect_ret s d = 0"
  shows "welcome_acceptors (acceptor_obj acc # ps) source bid s = welcome_acceptors ps source bid (welcomed source bid acc s)"
  using assms by (simp add: acceptor_unpack_obj alloc_acceptor_def upd_acceptor_def welcomed_def Let_def continuation_new_def
      state_connect_def emit_def)

fun connects :: "effect list \<Rightarrow> bytes list" where
  "connects [] = []"
| "connects (Connect d k # es) = d # connects es"
| "connects (_ # es) = connects es"

lemma connects_append [simp]: "connects (xs @ ys) = connects xs @ connects ys"
  by (induction xs rule: connects.induct) auto

lemma welcomed_fields:
  "session_id (welcomed src b acc s) = session_id s" "self_id (welcomed src b acc s) = self_id s"
  "ballot (welcomed src b acc s) = ballot s" "gen_high (welcomed src b acc s) = gen_high s"
  "ibase (welcomed src b acc s) = ibase s" "ilist (welcomed src b acc s) = ilist s" "idefer (welcomed src b acc s) = idefer s"
  "iheap (welcomed src b acc s) = iheap s" "connect_ret (welcomed src b acc s) = connect_ret s" "ended (welcomed src b acc s) = ended s"
  "alist (welcomed src b acc s) = alist s @ [brk s]" "brk s < brk (welcomed src b acc s)"
  "aheap (welcomed src b acc s) = (aheap s)(brk s \<mapsto> acc\<lparr>pa_peer := if pa_paxid acc = b then src else None\<rparr>)"
  "proposer (welcomed src b acc s) = (if pa_paxid acc = b then Some (brk s) else proposer s)"
  "live_count (welcomed src b acc s) = live_count s + (if pa_paxid acc = b then 1 else 0)"
  "connects (out (welcomed src b acc s)) = connects (out s) @ (if pa_paxid acc \<noteq> b \<and> pa_paxid acc \<noteq> self_id s then [pa_desc acc] else [])"
  by (simp_all add: welcomed_def Let_def continuation_new_def state_connect_def emit_def)

definition same_but_acceptors :: "paxos_session \<Rightarrow> paxos_session \<Rightarrow> bool" where
  "same_but_acceptors s t \<longleftrightarrow> session_id t = session_id s \<and> self_id t = self_id s \<and> ballot t = ballot s \<and>
     gen_high t = gen_high s \<and> ibase t = ibase s \<and> ilist t = ilist s \<and> idefer t = idefer s \<and> iheap t = iheap s \<and> ended t = ended s"

lemma same_but_acceptors_trans: "same_but_acceptors s t \<Longrightarrow> same_but_acceptors t u \<Longrightarrow> same_but_acceptors s u"
  by (simp add: same_but_acceptors_def)

text \<open>What the loop leaves behind.\<close>

definition took_in :: "peer option \<Rightarrow> paxid \<Rightarrow> paxos_acceptor list \<Rightarrow> paxos_session \<Rightarrow> paxos_session \<Rightarrow> bool" where
  "took_in src b accs s t \<longleftrightarrow> same_but_acceptors s t \<and> (\<forall>a<brk s. aheap t a = aheap s a) \<and> brk s \<le> brk t \<and>
     (\<exists>as. alist t = alist s @ as \<and>
       map (aheap t) as = map (\<lambda>acc. Some (acc\<lparr>pa_peer := if pa_paxid acc = b then src else None\<rparr>)) accs \<and>
       (if b \<in> pa_paxid ` set accs then \<exists>a\<in>set as. proposer t = Some a \<and> paxid_of t a = Some b else proposer t = proposer s)) \<and>
     connects (out t) = connects (out s) @ map pa_desc (filter (\<lambda>acc. pa_paxid acc \<noteq> b \<and> pa_paxid acc \<noteq> self_id s) accs) \<and>
     live_count t = live_count s + of_nat (length (filter (\<lambda>acc. pa_paxid acc = b) accs))"

lemma took_in_step:
  assumes "took_in src b accs (welcomed src b acc s) t"
  shows "took_in src b (acc # accs) s t"
proof -
  let ?s = "welcomed src b acc s"
  note w = welcomed_fields [where src = src and b = b and acc = acc and s = s]
  from assms have same: "same_but_acceptors ?s t" and old: "\<forall>a<brk ?s. aheap t a = aheap ?s a" and br: "brk ?s \<le> brk t"
    and c: "connects (out t) = connects (out ?s) @ map pa_desc (filter (\<lambda>acc. pa_paxid acc \<noteq> b \<and> pa_paxid acc \<noteq> self_id ?s) accs)"
    and l: "live_count t = live_count ?s + of_nat (length (filter (\<lambda>acc. pa_paxid acc = b) accs))"
    unfolding took_in_def by auto
  from assms obtain as where as: "alist t = alist ?s @ as"
    "map (aheap t) as = map (\<lambda>acc. Some (acc\<lparr>pa_peer := if pa_paxid acc = b then src else None\<rparr>)) accs"
    "if b \<in> pa_paxid ` set accs then \<exists>a\<in>set as. proposer t = Some a \<and> paxid_of t a = Some b else proposer t = proposer ?s"
    unfolding took_in_def by auto
  have new: "aheap t (brk s) = Some (acc\<lparr>pa_peer := if pa_paxid acc = b then src else None\<rparr>)"
    using old w(12,13) by simp
  show ?thesis
    unfolding took_in_def
  proof (intro conjI)
    show "same_but_acceptors s t" using same w by (simp add: same_but_acceptors_def)
    show "\<forall>a<brk s. aheap t a = aheap s a" using old w(12,13) by (auto intro: less_trans)
    show "brk s \<le> brk t" using br w(12) by simp
    show "\<exists>as. alist t = alist s @ as \<and>
       map (aheap t) as = map (\<lambda>acc. Some (acc\<lparr>pa_peer := if pa_paxid acc = b then src else None\<rparr>)) (acc # accs) \<and>
       (if b \<in> pa_paxid ` set (acc # accs) then \<exists>a\<in>set as. proposer t = Some a \<and> paxid_of t a = Some b else proposer t = proposer s)"
      using as new w(11,14) by (intro exI [of _ "brk s # as"]) (auto simp: paxid_of_def split: if_splits)
    show "connects (out t) = connects (out s) @
        map pa_desc (filter (\<lambda>acc. pa_paxid acc \<noteq> b \<and> pa_paxid acc \<noteq> self_id s) (acc # accs))"
      using c w(2,16) by simp
    show "live_count t = live_count s + of_nat (length (filter (\<lambda>acc. pa_paxid acc = b) (acc # accs)))"
      using l w(15) by simp
  qed
qed

lemma welcome_acceptors_run:
  "\<forall>d. connect_ret s d = 0 \<Longrightarrow>
    \<exists>t. welcome_acceptors (map acceptor_obj accs) src b s = Some (0, t) \<and> took_in src b accs s t"
proof (induction accs arbitrary: s)
  case Nil
  then show ?case by (simp add: took_in_def same_but_acceptors_def)
next
  case (Cons acc accs)
  from Cons.IH [of "welcomed src b acc s"] Cons.prems show ?case
    unfolding list.map(2) welcome_acceptors_step [OF Cons.prems] by (auto simp: welcomed_fields(9) intro: took_in_step)
qed

subsection \<open>The log\<close>

lemma welcome_instances_run:
  "\<forall>x\<in>set xs. known_instance x \<Longrightarrow>
    welcome_instances (map instance_obj xs) s =
      Some (s\<lparr>ilist := ilist s @ [brk s..<brk s + length xs],
              iheap := (\<lambda>i. if brk s \<le> i \<and> i < brk s + length xs then Some (instance_sent (xs ! (i - brk s))) else iheap s i),
              brk := brk s + length xs\<rparr>)"
proof (induction xs arbitrary: s)
  case (Cons x xs)
  let ?t = "s\<lparr>iheap := (iheap s)(brk s \<mapsto> instance_sent x), brk := Suc (brk s), ilist := ilist s @ [brk s]\<rparr>"
  have "welcome_instances (map instance_obj (x # xs)) s = welcome_instances (map instance_obj xs) ?t"
    using Cons.prems by (simp add: instance_unpack_obj alloc_instance_def)
  moreover have "(\<lambda>i. if brk ?t \<le> i \<and> i < brk ?t + length xs then Some (instance_sent (xs ! (i - brk ?t))) else iheap ?t i) =
      (\<lambda>i. if brk s \<le> i \<and> i < brk s + length (x # xs) then Some (instance_sent ((x # xs) ! (i - brk s))) else iheap s i)"
  proof
    fix i
    show "(if brk ?t \<le> i \<and> i < brk ?t + length xs then Some (instance_sent (xs ! (i - brk ?t))) else iheap ?t i) =
      (if brk s \<le> i \<and> i < brk s + length (x # xs) then Some (instance_sent ((x # xs) ! (i - brk s))) else iheap s i)"
      by (cases "i = brk s") (auto simp: nth_Cons' Suc_diff_Suc)
  qed
  moreover have "[brk s..<brk s + length (x # xs)] = brk s # [Suc (brk s)..<Suc (brk s) + length xs]"
    by (simp add: upt_rec)
  ultimately show ?case using Cons.IH [of ?t] Cons.prems by simp
next
  case Nil
  have "(\<lambda>i. if brk s \<le> i \<and> i < brk s + 0 then Some (instance_sent ([] ! (i - brk s))) else iheap s i) = iheap s"
    by (intro ext) auto
  then show ?case by simp
qed

text \<open>
  The search for the hole: the committed instances numbered without a gap from \<open>ibase\<close> on are taken as
  learned, and the hole is the number after them.
\<close>

primrec hole_prefix :: "paxid \<Rightarrow> paxos_instance list \<Rightarrow> nat" where
  "hole_prefix n [] = 0"
| "hole_prefix n (x # xs) =
     (if ph_inum (pi_hdr x) = n \<and> pi_committed x then Suc (hole_prefix (n + 1) xs) else 0)"

definition taken :: "paxos_instance \<Rightarrow> paxos_instance" where
  "taken x = x\<lparr>pi_cached := True, pi_learned := True\<rparr>"

lemma istart_only: "s\<lparr>ihole := ihole s, istart := st, iheap := iheap s\<rparr> = s\<lparr>istart := st\<rparr>"
  by (rule paxos_session.equality) simp_all

lemma find_hole_run:
  assumes "distinct is" "\<forall>i\<in>set is. iheap s i \<noteq> None"
  defines "m \<equiv> hole_prefix (ihole s) (insts s is)"
  shows "\<exists>st. find_hole p is s = Some (s\<lparr>ihole := ihole s + of_nat m, istart := st,
    iheap := (\<lambda>i. if i \<in> set (take m is) then map_option taken (iheap s i) else iheap s i)\<rparr>)"
  using assms(1,2) unfolding m_def
proof (induction "is" arbitrary: p s)
  case Nil
  show ?case by (intro exI [of _ "ilist_last s"]) (simp add: insts_def istart_only)
next
  case (Cons i "is")
  then obtain x where x: "iheap s i = Some x" by auto
  show ?case
  proof (cases "ph_inum (pi_hdr x) = ihole s \<and> pi_committed x")
    case False
    with x have "hole_prefix (ihole s) (insts s (i # is)) = 0" by (auto simp: insts_def)
    moreover have "find_hole p (i # is) s = Some (s\<lparr>istart := if ph_inum (pi_hdr x) = ihole s then Some i else p\<rparr>)"
      using x False by (cases "ph_inum (pi_hdr x) = ihole s") simp_all
    ultimately show ?thesis
      by (intro exI [of _ "if ph_inum (pi_hdr x) = ihole s then Some i else p"]) (simp add: istart_only)
  next
    case True
    let ?t = "s\<lparr>iheap := (iheap s)(i \<mapsto> taken x), ihole := ihole s + 1\<rparr>"
    have same: "insts ?t is = insts s is" using Cons.prems by (auto simp: insts_def)
    have "find_hole p (i # is) s = find_hole (Some i) is ?t"
      using x True by (simp add: upd_instance_def taken_def)
    moreover have "(\<lambda>j. if j \<in> set (take n is) then map_option taken (iheap ?t j) else iheap ?t j) =
        (\<lambda>j. if j \<in> set (take (Suc n) (i # is)) then map_option taken (iheap s j) else iheap s j)" for n
      using x Cons.prems(1) set_take_subset [of n "is"] by (intro ext) auto
    moreover have "hole_prefix (ihole s) (insts s (i # is)) = Suc (hole_prefix (ihole s + 1) (insts s is))"
      using True x by (simp add: insts_def)
    moreover have "(ihole s + 1) + of_nat n = ihole s + of_nat (Suc n)" for n by simp
    moreover have "distinct is" "\<forall>j\<in>set is. iheap ?t j \<noteq> None" using Cons.prems by simp_all
    from Cons.IH [OF this, of "Some i"] obtain st where
      "find_hole (Some i) is ?t = Some (?t\<lparr>ihole := ihole ?t + of_nat (hole_prefix (ihole ?t) (insts ?t is)), istart := st,
        iheap := (\<lambda>j. if j \<in> set (take (hole_prefix (ihole ?t) (insts ?t is)) is)
          then map_option taken (iheap ?t j) else iheap ?t j)\<rparr>)" ..
    ultimately show ?thesis using same by (intro exI [of _ st]) simp
  qed
qed

lemma hole_prefix_nth:
  "j < hole_prefix n xs \<Longrightarrow> j < length xs \<and> ph_inum (pi_hdr (xs ! j)) = n + of_nat j \<and> pi_committed (xs ! j)"
proof (induction xs arbitrary: n j)
  case (Cons x xs)
  then show ?case by (cases j) (auto simp: add.assoc split: if_splits)
qed simp

lemma hole_prefix_stop:
  "hole_prefix n xs = length xs \<or>
   (let m = hole_prefix n xs in m < length xs \<and> (ph_inum (pi_hdr (xs ! m)) \<noteq> n + of_nat m \<or> \<not> pi_committed (xs ! m)))"
proof (induction xs arbitrary: n)
  case (Cons x xs)
  from Cons.IH [of "n + 1"] show ?case by (auto simp: Let_def add.assoc)
qed simp

lemma next_word: "(x :: u32) \<noteq> - 1 \<Longrightarrow> x < x + 1 \<and> (\<forall>y. x < y \<longrightarrow> x + 1 \<le> y)"
  by (auto simp: inc_le not_le [symmetric] inc_less_eq_self_iff_eq)

text \<open>On an ascending list that starts at \<open>n\<close> and leaves out the greatest number, the hole is not committed.\<close>

lemma hole_not_committed:
  assumes srt: "sorted_wrt (\<lambda>x y. ph_inum (pi_hdr x) < ph_inum (pi_hdr y)) xs"
    and hd: "xs \<noteq> [] \<Longrightarrow> ph_inum (pi_hdr (xs ! 0)) = n" and top: "\<forall>x\<in>set xs. ph_inum (pi_hdr x) \<noteq> - 1"
    and x: "x \<in> set xs" "ph_inum (pi_hdr x) = n + of_nat (hole_prefix n xs)"
  shows "\<not> pi_committed x"
proof -
  let ?m = "hole_prefix n xs" and ?f = "\<lambda>k. ph_inum (pi_hdr (xs ! k))"
  have lt: "j < k \<Longrightarrow> k < length xs \<Longrightarrow> ?f j < ?f k" for j k using srt by (simp add: sorted_wrt_iff_nth_less)
  from x(1) obtain k where k: "k < length xs" "x = xs ! k" by (auto simp: in_set_conv_nth)
  have last: "?f (?m - 1) < n + of_nat ?m \<and> (\<forall>y. ?f (?m - 1) < y \<longrightarrow> n + of_nat ?m \<le> y)" if "0 < ?m"
  proof -
    from that hole_prefix_nth [of "?m - 1" n xs] have f: "?m - 1 < length xs" "?f (?m - 1) = n + of_nat (?m - 1)" by auto
    from f(1) top have "?f (?m - 1) \<noteq> - 1" by simp
    moreover have "n + of_nat ?m = ?f (?m - 1) + 1" using f(2) that by (cases ?m) (simp_all add: add.assoc)
    ultimately show ?thesis using next_word [of "?f (?m - 1)"] by simp
  qed
  consider "k < ?m" | "k = ?m" | "?m < k" by linarith
  then show ?thesis
  proof cases
    case 1
    with hole_prefix_nth [of "?m - 1" n xs] have "?m - 1 < length xs" "k = ?m - 1 \<or> k < ?m - 1" by auto
    with lt [of k "?m - 1"] have "?f k \<le> ?f (?m - 1)" by (metis order.strict_implies_order order_refl)
    with last 1 x(2) k show ?thesis by auto
  next
    case 2
    with hole_prefix_stop [of n xs] k x(2) show ?thesis by (auto simp: Let_def)
  next
    case 3
    then have "?f ?m < ?f k" by (rule lt [OF _ k(1)])
    moreover have "n + of_nat ?m \<le> ?f ?m"
    proof (cases "?m = 0")
      case True
      with hd k(1) show ?thesis by (cases xs) auto
    next
      case False
      with last lt [of "?m - 1" ?m] 3 k(1) show ?thesis by auto
    qed
    ultimately show ?thesis using x(2) k(2) by auto
  qed
qed

subsection \<open>Logs of equal content\<close>

definition core :: "paxos_instance \<Rightarrow> paxos_header \<times> bool \<times> paxos_value" where
  "core x = (pi_hdr x, pi_committed x, pi_val x)"

lemma ordered_transfer:
  assumes "ordered cmp f xs" "map f xs = map g ys"
  shows "ordered cmp g ys"
proof -
  have len: "length xs = length ys" using assms(2) by (metis length_map)
  have eq: "f (xs ! k) = g (ys ! k)" if "k < length ys" for k using that len assms(2) by (metis nth_map)
  show ?thesis using assms(1) len eq by (auto simp: ordered_def all_set_conv_all_nth sorted_wrt_iff_nth_less)
qed

lemma instance_at_insts:
  assumes "log_wf s"
  shows "instance_at s n = Some x \<longleftrightarrow> x \<in> set (insts s (ilist s)) \<and> ph_inum (pi_hdr x) = n"
  using log_wf_alloc [OF assms] by (force simp: instance_at_iff [OF assms] insts_def)

lemma same_core_at:
  assumes "log_wf s" "log_wf t" "map core (insts t (ilist t)) = map core (insts s (ilist s))"
  shows "map_option core (instance_at t n) = map_option core (instance_at s n)"
proof -
  have c: "map_option core (instance_at s n) = Some c \<longleftrightarrow> c \<in> set (map core (insts s (ilist s))) \<and> ph_inum (fst c) = n"
    if "log_wf s" for s c
    using instance_at_insts [OF that, of n] by (auto simp: core_def)
  show ?thesis
    using c [OF assms(1)] c [OF assms(2)] assms(3) by (metis not_Some_eq)
qed

lemma insts_sorted:
  assumes "log_wf s"
  shows "sorted_wrt (\<lambda>x y. ph_inum (pi_hdr x) < ph_inum (pi_hdr y)) (insts s (ilist s))"
proof -
  have "sorted_wrt (\<lambda>i j. the (inum_of s i) < the (inum_of s j)) (ilist s)"
    using assms by (auto simp: log_wf_def ordered_def)
  then show ?thesis
    unfolding insts_def sorted_wrt_map
  proof (rule sorted_wrt_mono_rel [rotated])
    fix i j assume "i \<in> set (ilist s)" "j \<in> set (ilist s)" "the (inum_of s i) < the (inum_of s j)"
    then show "ph_inum (pi_hdr (the (iheap s i))) < ph_inum (pi_hdr (the (iheap s j)))"
      using log_wf_alloc [OF assms, of i] log_wf_alloc [OF assms, of j] by (auto simp: inum_of_def)
  qed
qed

subsection \<open>The newcomer's session\<close>

text \<open>
  \<open>entered s n src s'\<close>: \<open>s'\<close> is the session that acceptor \<open>n\<close> builds from the welcome of the proposer's
  session \<open>s\<close>, received from the peer \<open>src\<close>.
\<close>

definition entered :: "paxos_session \<Rightarrow> paxid \<Rightarrow> peer option \<Rightarrow> paxos_session \<Rightarrow> bool" where
  "entered s n src s' \<longleftrightarrow>
     session_id s' = session_id s \<and> ballot s' = ballot s \<and> gen_high s' = gen (ballot s) \<and> self_id s' = n \<and> ibase s' = ibase s \<and>
     map (aheap s') (alist s') =
       map (\<lambda>a. map_option (\<lambda>acc. acc\<lparr>pa_peer := if pa_paxid acc = pid (ballot s) then src else None\<rparr>) (aheap s a)) (alist s) \<and>
     connects (out s') =
       map pa_desc (filter (\<lambda>acc. pa_paxid acc \<noteq> pid (ballot s) \<and> pa_paxid acc \<noteq> n) (map (\<lambda>a. the (aheap s a)) (alist s))) \<and>
     (\<forall>k. map_option core (instance_at s' k) = map_option core (instance_at s k))"

definition same_but_log :: "paxos_session \<Rightarrow> paxos_session \<Rightarrow> bool" where
  "same_but_log s t \<longleftrightarrow> session_id t = session_id s \<and> self_id t = self_id s \<and> ballot t = ballot s \<and>
     gen_high t = gen_high s \<and> ibase t = ibase s \<and> alist t = alist s \<and> aheap t = aheap s \<and> proposer t = proposer s \<and>
     live_count t = live_count s \<and> out t = out s \<and> ended t = ended s"

lemma welcome_log:
  assumes wf: "log_wf s" and k: "\<forall>x\<in>set (insts s (ilist s)). known_instance x" and t: "ilist t = []" "idefer t = []"
  defines "xs \<equiv> insts s (ilist s)"
  shows "\<exists>t1 t2. welcome_instances (map instance_obj xs) t = Some t1 \<and>
    find_hole None (ilist t1) (t1\<lparr>ihole := ibase t1\<rparr>) = Some t2 \<and> log_wf t2 \<and>
    map core (insts t2 (ilist t2)) = map core xs \<and> ihole t2 = ibase t + of_nat (hole_prefix (ibase t) xs) \<and>
    same_but_log t t2"
proof -
  let ?n = "length xs" and ?b = "brk t"
  let ?h = "\<lambda>i. if ?b \<le> i \<and> i < ?b + ?n then Some (instance_sent (xs ! (i - ?b))) else iheap t i"
  let ?t1 = "t\<lparr>ilist := [?b..<?b + ?n], iheap := ?h, brk := ?b + ?n\<rparr>"
  have r1: "welcome_instances (map instance_obj xs) t = Some ?t1"
    using welcome_instances_run [of xs t] k t(1) by (simp add: xs_def)
  let ?u = "?t1\<lparr>ihole := ibase t\<rparr>"
  have ins: "insts ?u (ilist ?u) = map instance_sent xs"
    by (rule nth_equalityI) (simp_all add: insts_def)
  have pre: "hole_prefix m (map instance_sent ys) = hole_prefix m ys" for m ys
    by (induction ys arbitrary: m) (simp_all add: instance_sent_def)
  let ?m = "hole_prefix (ibase t) xs"
  have m: "hole_prefix (ihole ?u) (insts ?u [?b..<?b + ?n]) = ?m" using ins pre by simp
  have "distinct [?b..<?b + ?n]" "\<forall>i\<in>set [?b..<?b + ?n]. iheap ?u i \<noteq> None" by simp_all
  from find_hole_run [OF this, of None, unfolded m] obtain st where
    r: "find_hole None [?b..<?b + ?n] ?u = Some (?u\<lparr>ihole := ihole ?u + of_nat ?m, istart := st,
      iheap := (\<lambda>i. if i \<in> set (take ?m [?b..<?b + ?n]) then map_option taken (iheap ?u i) else iheap ?u i)\<rparr>)" ..
  have hu: "iheap ?u = ?h" "ihole ?u = ibase t" by simp_all
  have r2: "find_hole None [?b..<?b + ?n] ?u = Some (?u\<lparr>ihole := ibase t + of_nat ?m, istart := st,
      iheap := (\<lambda>i. if i \<in> set (take ?m [?b..<?b + ?n]) then map_option taken (?h i) else ?h i)\<rparr>)"
    using r unfolding hu .
  let ?t2 = "?u\<lparr>ihole := ibase t + of_nat ?m, istart := st,
      iheap := (\<lambda>i. if i \<in> set (take ?m [?b..<?b + ?n]) then map_option taken (?h i) else ?h i)\<rparr>"
  have c: "map core (insts ?t2 (ilist ?t2)) = map core xs"
    by (rule nth_equalityI) (simp_all add: insts_def core_def taken_def instance_sent_def)
  have "map (inum_of s) (ilist s) = map (\<lambda>x. Some (ph_inum (pi_hdr x))) xs"
    unfolding xs_def insts_def using log_wf_alloc [OF wf] by (fastforce simp: inum_of_def)
  also have "\<dots> = map (inum_of ?t2) (ilist ?t2)"
    by (rule nth_equalityI) (simp_all add: inum_of_def taken_def instance_sent_def)
  finally have "ordered paxid_compare (inum_of ?t2) (ilist ?t2)"
    using wf by (auto simp: log_wf_def intro: ordered_transfer)
  then have w: "log_wf ?t2" using t(2) by (simp add: log_wf_def)
  have s: "same_but_log t ?t2" by (simp add: same_but_log_def)
  have r3: "find_hole None (ilist ?t1) (?t1\<lparr>ihole := ibase ?t1\<rparr>) = Some ?t2" using r2 by simp
  have h: "ihole ?t2 = ibase t + of_nat ?m" by simp
  show ?thesis
    by (rule exI [of _ ?t1], rule exI [of _ ?t2], intro conjI) (rule r1 r3 w c h s)+
qed

text \<open>\<open>first_hole s h\<close>: \<open>h\<close> is the first number, from \<open>ibase\<close> on, that is not committed.\<close>

definition first_hole :: "paxos_session \<Rightarrow> paxid \<Rightarrow> bool" where
  "first_hole s h \<longleftrightarrow>
     (\<exists>m. h = ibase s + of_nat m \<and> (\<forall>j<m. \<exists>x. instance_at s (ibase s + of_nat j) = Some x \<and> pi_committed x)) \<and>
     (\<forall>x. instance_at s h = Some x \<longrightarrow> \<not> pi_committed x)"

lemma first_hole_prefix:
  assumes wf: "log_wf s" and hd: "ilist s \<noteq> [] \<Longrightarrow> inum_of s (hd (ilist s)) = Some (ibase s)" and top: "instance_at s (- 1) = None"
  shows "first_hole s (ibase s + of_nat (hole_prefix (ibase s) (insts s (ilist s))))"
proof -
  let ?xs = "insts s (ilist s)"
  let ?m = "hole_prefix (ibase s) ?xs"
  have t: "\<forall>x\<in>set ?xs. ph_inum (pi_hdr x) \<noteq> - 1"
    using top instance_at_insts [OF wf, of "- 1"] by auto
  have h: "ph_inum (pi_hdr (?xs ! 0)) = ibase s" if "?xs \<noteq> []"
    using that hd by (cases "ilist s") (auto simp: insts_def inum_of_def)
  have "\<not> pi_committed x" if "instance_at s (ibase s + of_nat ?m) = Some x" for x
    using hole_not_committed [OF insts_sorted [OF wf] h t] that by (simp add: instance_at_insts [OF wf])
  moreover have "\<exists>x. instance_at s (ibase s + of_nat j) = Some x \<and> pi_committed x" if "j < ?m" for j
    using hole_prefix_nth [OF that] by (intro exI [of _ "?xs ! j"]) (simp add: instance_at_insts [OF wf])
  ultimately show ?thesis by (auto simp: first_hole_def)
qed

lemma welcome_builds:
  assumes u: "msgpack_unpacker u" and wf: "log_wf s" and al: "\<forall>a\<in>set (alist s). aheap s a \<noteq> None"
    and k: "\<forall>i\<in>set (ilist s). known_instance (the (iheap s i))" and conn: "\<forall>d. conn d = 0"
    and hd: "ilist s \<noteq> [] \<Longrightarrow> inum_of s (hd (ilist s)) = Some (ibase s)" and top: "instance_at s (- 1) = None"
  shows "\<exists>py o1 s'. welcome_message n s = Some py \<and> u py = Some [M_array [header_obj (header_init s OP_WELCOME n), o1]] \<and>
    acceptor_ack_welcome conn data src (header_init s OP_WELCOME n) (Some o1) = Some (0, s') \<and>
    entered s n src s' \<and> log_wf s' \<and> first_hole s (ihole s')"
proof -
  let ?hdr = "header_init s OP_WELCOME n" and ?accs = "map (\<lambda>a. the (aheap s a)) (alist s)" and ?xs = "insts s (ilist s)"
  let ?o = "welcome_obj ?hdr (session_id s) (ibase s) ?accs ?xs"
  have b: "ph_ballot ?hdr = ballot s" "ph_inum ?hdr = n" by (simp_all add: header_init_def)
  let ?s0 = "(welcome_start conn data ?hdr)\<lparr>session_id := session_id s, ibase := ibase s\<rparr>"
  let ?s1 = "emit (Add_sync_timer (session_id s)) ?s0"
  let ?s2 = "?s1\<lparr>live_count := 1\<rparr>"
  have i: "welcome_info (M_array [M_positive_integer (session_id s), M_positive_integer (ucast (ibase s))])
      (welcome_start conn data ?hdr) = Some ?s1"
    by (simp add: welcome_info_def elem_def paxos_uuid_unpack_def)
  have s2: "connect_ret ?s2 = conn" "alist ?s2 = []" "ilist ?s2 = []" "idefer ?s2 = []" "session_id ?s2 = session_id s"
    "self_id ?s2 = n" "ballot ?s2 = ballot s" "gen_high ?s2 = gen (ballot s)" "ibase ?s2 = ibase s" "connects (out ?s2) = []"
    by (simp_all add: welcome_start_def session_new_def zero_session_def emit_def Let_def b)
  have "\<forall>d. connect_ret ?s2 d = 0" using s2(1) conn by simp
  from welcome_acceptors_run [OF this] obtain t where
    t: "welcome_acceptors (map acceptor_obj ?accs) src (pid (ballot s)) ?s2 = Some (0, t)" "took_in src (pid (ballot s)) ?accs ?s2 t"
    by blast
  from t(2) have same: "same_but_acceptors ?s2 t"
    and c: "connects (out t) = map pa_desc (filter (\<lambda>acc. pa_paxid acc \<noteq> pid (ballot s) \<and> pa_paxid acc \<noteq> n) ?accs)"
    and a: "map (aheap t) (alist t) =
      map (\<lambda>acc. Some (acc\<lparr>pa_peer := if pa_paxid acc = pid (ballot s) then src else None\<rparr>)) ?accs"
    using s2 by (auto simp: took_in_def)
  have tl: "ilist t = []" "idefer t = []" using same s2 by (simp_all add: same_but_acceptors_def)
  have kx: "\<forall>x\<in>set ?xs. known_instance x" using k by (auto simp: insts_def)
  from welcome_log [OF wf kx tl] obtain t1 t2 where
    r: "welcome_instances (map instance_obj ?xs) t = Some t1" "find_hole None (ilist t1) (t1\<lparr>ihole := ibase t1\<rparr>) = Some t2"
    and w: "log_wf t2" and eq: "map core (insts t2 (ilist t2)) = map core ?xs"
    and h: "ihole t2 = ibase t + of_nat (hole_prefix (ibase t) ?xs)" and s: "same_but_log t t2" by blast
  have "acceptor_ack_welcome conn data src ?hdr (Some ?o) = Some (0, t2)"
    using t(1) r by (simp add: acceptor_ack_welcome_def welcome_obj_def array_of_size_def i b Let_def)
  moreover have "entered s n src t2"
  proof -
    have "map (aheap t2) (alist t2) =
       map (\<lambda>a. map_option (\<lambda>acc. acc\<lparr>pa_peer := if pa_paxid acc = pid (ballot s) then src else None\<rparr>) (aheap s a)) (alist s)"
      using s a al by (auto simp: same_but_log_def)
    then show ?thesis
      unfolding entered_def using same s s2 c same_core_at [OF wf w eq] by (simp add: same_but_acceptors_def same_but_log_def)
  qed
  moreover have "ibase t = ibase s" using same s2 by (simp add: same_but_acceptors_def)
  then have "first_hole s (ihole t2)" unfolding h using first_hole_prefix [OF wf hd top] by simp
  moreover obtain py where "welcome_message n s = Some py" "u py = Some [M_array [header_obj ?hdr, ?o]]"
    using welcome_unpack [OF u wf al k] by blast
  ultimately show ?thesis using w by blast
qed

end
