(* ===== verification/Session_Run.thy ===== *)
theory Session_Run
  imports Handler_Facts
begin

section \<open>Runs of a session\<close>

text \<open>
  Everything that can happen to a session, in any order: requests of the client, messages, continuations,
  lost connections and the timer.  A run is a list of events; the invariants go through by rule induction.
  A run stays where the model and the C agree on merging: a promise for the current prepare is merged from
  an instance that is in the log.  (Theory Promise\_Links has the other case, in which the C goes on and
  corrupts the list.)
\<close>

datatype event =
    E_request dkind bytes
  | E_message peer paxos_header "mobj option"
  | E_continue kref "peer option"
  | E_drop peer
  | E_timer

definition handle :: "event \<Rightarrow> paxos_session \<Rightarrow> int result" where
  "handle e s = (case e of
     E_request k m \<Rightarrow> paxos_request k m s
   | E_message p hdr o1 \<Rightarrow> session_dispatch p hdr o1 s
   | E_continue k chan \<Rightarrow> continue_session k chan s
   | E_drop p \<Rightarrow> do {
       found \<leftarrow> peer_acceptor p (alist s) s;
       (case found of None \<Rightarrow> Some (0, s) | Some a \<Rightarrow> drop_session p a s) }
   | E_timer \<Rightarrow> sync_session s)"

definition merges_in_place :: "paxos_session \<Rightarrow> event \<Rightarrow> bool" where
  "merges_in_place s e \<longleftrightarrow> (case e of
     E_message p hdr o1 \<Rightarrow> ph_opcode hdr = OP_PROMISE \<longrightarrow>
       (case prep s of
          None \<Rightarrow> True
        | Some q \<Rightarrow> pp_ballot q = ph_ballot hdr \<longrightarrow> (case pp_istart q of None \<Rightarrow> True | Some i \<Rightarrow> i \<in> set (ilist s)))
   | _ \<Rightarrow> True)"

inductive session_run :: "paxos_session \<Rightarrow> event list \<Rightarrow> paxos_session \<Rightarrow> bool" where
  run_nil: "session_run s [] s"
| run_step: "session_run s es t \<Longrightarrow> \<not> ended t \<Longrightarrow> merges_in_place t e \<Longrightarrow> handle e t = Some (r, u) \<Longrightarrow> session_run s (es @ [e]) u"

lemma drop_session_step:
  assumes "drop_session q a s = Some (r, s')"
  shows "log_step s s'"
proof -
  let ?t = "paxos_peer_destroy (Some q) s"
  from assms obtain u p where u: "upd_acceptor a (\<lambda>x. x\<lparr>pa_peer := None\<rparr>) ?t = Some u"
    and rest: "(if p then proposer_decree_part a False (u\<lparr>live_count := live_count u - 1\<rparr>)
      else part_reelect a (u\<lparr>live_count := live_count u - 1\<rparr>)) = Some (r, s')"
    by (auto simp: drop_session_def bind_Some_iff Let_def split del: if_split)
  have 1: "log_same s (u\<lparr>live_count := live_count u - 1\<rparr>)"
    using upd_acceptor_same [OF u] by (simp add: log_same_def paxos_peer_destroy_def emit_def)
  have "log_step (u\<lparr>live_count := live_count u - 1\<rparr>) s'"
    using rest by (auto intro: proposer_decree_part_step log_frame_step log_step_ended dest: part_reelect_frame split: if_splits)
  with 1 show ?thesis by (rule log_same_then)
qed

lemma sync_session_step:
  assumes "sync_session s = Some (r, s')"
  shows "log_step s s'"
proof -
  have start: "log_step t u" if "start_sync t = Some (c, u)" for t u c
  proof -
    from that have "sends_only (t\<lparr>sync := Some \<lparr>ps_total = list_count (alist t), ps_acks = 1, ps_skips = 0, ps_last = 0\<rparr>,
        sync_id := sync_id t + 1\<rparr>) u"
      by (auto simp: start_sync_def Let_def dest: paxos_broadcast_effect)
    then have "log_step (t\<lparr>sync := Some \<lparr>ps_total = list_count (alist t), ps_acks = 1, ps_skips = 0, ps_last = 0\<rparr>,
        sync_id := sync_id t + 1\<rparr>) u" by (rule sends_only_step)
    then show ?thesis by (rule log_same_then [rotated]) (simp add: log_same_def)
  qed
  have "log_step s t" if "proposer_sync s = Some (c, t)" for c t
  proof (cases "sync s")
    case None
    with that start show ?thesis by (auto simp: proposer_sync_def split: if_splits)
  next
    case (Some y)
    have 1: "log_same s (s\<lparr>sync := Some (y\<lparr>ps_skips := ps_skips y + 1\<rparr>)\<rparr>)" by (simp add: log_same_def)
    from that Some have "t = s \<or> t = s\<lparr>sync := Some (y\<lparr>ps_skips := ps_skips y + 1\<rparr>)\<rparr> \<or>
      start_sync (s\<lparr>sync := Some (y\<lparr>ps_skips := ps_skips y + 1\<rparr>)\<rparr>) = Some (c, t)"
      by (auto simp: proposer_sync_def Let_def split: if_splits)
    then show ?thesis using log_same_step [OF 1] log_same_then [OF 1 start] by auto
  qed
  with assms show ?thesis by (auto simp: sync_session_def bind_Some_iff split: if_splits)
qed

lemma handle_inv:
  assumes "handle e s = Some (r, s')" "log_inv s"
  shows "log_inv s'"
proof (cases e)
  case (E_request k m)
  with assms show ?thesis by (auto simp: handle_def intro: log_step_inv paxos_request_step)
next
  case (E_message p hdr o1)
  with assms show ?thesis by (auto simp: handle_def intro: session_dispatch_inv)
next
  case (E_continue k chan)
  with assms show ?thesis by (auto simp: handle_def intro: continue_session_inv)
next
  case (E_drop p)
  with assms show ?thesis
    by (auto simp: handle_def bind_Some_iff intro: log_step_inv drop_session_step split: option.splits)
next
  case E_timer
  with assms show ?thesis by (auto simp: handle_def intro: log_step_inv sync_session_step)
qed

text \<open>The events that keep every committed instance: all but the messages that truncate the log, and the
  continuation of a reject.\<close>

definition keeps :: "paxos_session \<Rightarrow> event \<Rightarrow> bool" where
  "keeps s e \<longleftrightarrow> (case e of
     E_message p hdr o1 \<Rightarrow> ph_opcode hdr \<notin> {OP_LAST, OP_TRUNCATE}
   | E_continue k chan \<Rightarrow> (\<forall>c. map_of (clist s) k = Some c \<longrightarrow> pk_func c \<noteq> Continue_ack_reject)
   | _ \<Rightarrow> True)"

lemma continue_session_step:
  assumes "continue_session k chan s = Some (r, s')" "\<And>c. map_of (clist s) k = Some c \<Longrightarrow> pk_func c \<noteq> Continue_ack_reject"
  shows "log_step s s'"
proof -
  from assms(1) obtain kont :: paxos_continuation and found t where k: "map_of (clist s) k = Some kont" and
    c: "(case found of None \<Rightarrow> Some (0, s) | Some a \<Rightarrow> run_continuation (pk_func kont) chan a kont s) = Some (r, t)"
    and s': "t\<lparr>clist := filter (\<lambda>(k', _). k' \<noteq> k) (clist t)\<rparr> = s'"
    by (simp add: continue_session_def bind_Some_iff if_None_iff) blast
  have "log_step s t" using c assms(2) [OF k] by (auto intro: run_continuation_step split: option.splits)
  moreover have "log_same t s'" using s' by (auto simp: log_same_def)
  ultimately show ?thesis using log_same_step log_step_trans by blast
qed

lemma handle_step:
  assumes "handle e s = Some (r, s')" "keeps s e"
  shows "log_step s s'"
proof (cases e)
  case (E_request k m)
  with assms show ?thesis by (auto simp: handle_def intro: paxos_request_step)
next
  case (E_message p hdr o1)
  with assms show ?thesis by (auto simp: handle_def keeps_def intro: session_dispatch_step)
next
  case (E_continue k chan)
  with assms show ?thesis by (auto simp: handle_def keeps_def intro: continue_session_step)
next
  case (E_drop p)
  with assms show ?thesis
    by (auto simp: handle_def bind_Some_iff intro: drop_session_step split: option.splits)
next
  case E_timer
  with assms show ?thesis by (auto simp: handle_def intro: sync_session_step)
qed

text \<open>A run in which every event keeps the committed instances.\<close>

inductive keeping_run :: "paxos_session \<Rightarrow> event list \<Rightarrow> paxos_session \<Rightarrow> bool" where
  keep_nil: "keeping_run s [] s"
| keep_step: "keeping_run s es t \<Longrightarrow> \<not> ended t \<Longrightarrow> merges_in_place t e \<Longrightarrow> keeps t e \<Longrightarrow> handle e t = Some (r, u) \<Longrightarrow> keeping_run s (es @ [e]) u"

inductive_simps session_run_Nil [simp]: "session_run s [] t"
inductive_cases session_run_snocE: "session_run s (es @ [e]) t"

lemma session_run_inv: "session_run s es t \<Longrightarrow> log_inv s \<Longrightarrow> log_inv t"
  by (induction rule: session_run.induct) (auto intro: handle_inv)

lemma keeping_run_step: "keeping_run s es t \<Longrightarrow> log_step s t"
  by (induction rule: keeping_run.induct) (auto intro: log_step_trans handle_step)

lemma keeping_run_session_run: "keeping_run s es t \<Longrightarrow> session_run s es t"
  by (induction rule: keeping_run.induct) (auto intro: run_step)

end
