(* ===== verification/Hole.thy ===== *)
theory Hole
  imports Session_Run Welcome_Wire
begin

section \<open>The hole in the log\<close>

text \<open>
  \<open>hole_ok\<close>: the instance before the hole is in the log; the instances below the hole have been committed and
  learned, and none of the others has been learned; and \<open>istart\<close> is the instance before the hole or the one
  at the hole.  paxos\_commit relies on it, as an invariant of the system, and it is what keeps a truncation
  from emptying the log.  The greatest number is left out, as the hole would be 0 after it.
\<close>

definition settled :: "paxid \<Rightarrow> paxos_instance \<Rightarrow> bool" where
  "settled h x \<longleftrightarrow> ph_inum (pi_hdr x) \<noteq> - 1 \<and> (if ph_inum (pi_hdr x) < h then pi_committed x \<and> pi_learned x else \<not> pi_learned x)"

definition before_hole :: "paxos_session \<Rightarrow> bool" where
  "before_hole s \<longleftrightarrow> (\<exists>j\<in>set (ilist s). inum_of s j = Some (ihole s - 1)) \<and>
     (\<forall>j\<in>set (ilist s). \<forall>x. iheap s j = Some x \<longrightarrow> settled (ihole s) x)"

definition start_ok :: "paxos_session \<Rightarrow> bool" where
  "start_ok s \<longleftrightarrow>
     (\<exists>i\<in>set (ilist s). istart s = Some i \<and> (inum_of s i = Some (ihole s - 1) \<or> inum_of s i = Some (ihole s)))"

definition hole_ok :: "paxos_session \<Rightarrow> bool" where
  "hole_ok s \<longleftrightarrow> before_hole s \<and> start_ok s"

text \<open>A log whose numbers ascend.\<close>

definition nums_ok :: "paxos_session \<Rightarrow> bool" where
  "nums_ok s \<longleftrightarrow> log_ok s \<and> ordered paxid_compare (inum_of s) (ilist s)"

lemma log_wf_ok: "log_wf s \<Longrightarrow> nums_ok s"
  by (auto simp: log_wf_def nums_ok_def log_ok_def ordered_def inum_of_def)

text \<open>Marks that do not move: no instance is learned, none loses its commit.\<close>

definition marked :: "paxos_instance \<Rightarrow> paxos_instance \<Rightarrow> bool" where
  "marked x y \<longleftrightarrow> pi_learned y = pi_learned x \<and> (pi_committed x \<longrightarrow> pi_committed y)"

definition marks_kept :: "paxos_session \<Rightarrow> paxos_session \<Rightarrow> bool" where
  "marks_kept s t \<longleftrightarrow> (\<forall>j\<in>set (ilist s). j < brk s \<longrightarrow> (\<forall>x y. iheap s j = Some x \<longrightarrow> iheap t j = Some y \<longrightarrow> marked x y))"

lemma marked_refl [simp, intro]: "marked x x"
  by (simp add: marked_def)

lemma marks_kept_same: "(\<And>j. j < brk s \<Longrightarrow> iheap t j = iheap s j) \<Longrightarrow> marks_kept s t"
  by (auto simp: marks_kept_def)

lemma start_ok_cong:
  assumes "start_ok s" "set (ilist s) \<subseteq> set (ilist t)" "\<forall>j\<in>set (ilist s). inum_of t j = inum_of s j"
    "ihole t = ihole s" "istart t = istart s"
  shows "start_ok t"
  using assms unfolding start_ok_def by (metis subsetD)

lemma hole_ok_cong:
  assumes "hole_ok s" "log_ok s" "ilist t = ilist s" "\<forall>j\<in>set (ilist s). inum_of t j = inum_of s j"
    "ihole t = ihole s" "istart t = istart s" "marks_kept s t"
  shows "hole_ok t"
proof -
  have "settled (ihole t) y" if "j \<in> set (ilist t)" "iheap t j = Some y" for j y
  proof -
    from that assms(2,3) obtain x where x: "iheap s j = Some x" "j < brk s" by (auto simp: log_ok_def)
    have "settled (ihole s) x" using assms(1,3) that(1) x by (auto simp: hole_ok_def before_hole_def)
    moreover have "inum_of t j = inum_of s j" using assms(3,4) that by simp
    then have "ph_inum (pi_hdr y) = ph_inum (pi_hdr x)" using that(2) x by (simp add: inum_of_def)
    moreover have "j \<in> set (ilist s)" using that(1) assms(3) by simp
    from assms(7) [unfolded marks_kept_def, rule_format, OF this x(2) x(1) that(2)] have "marked x y" .
    ultimately show ?thesis using assms(5) by (auto simp: settled_def marked_def split: if_splits)
  qed
  moreover have "start_ok t" by (rule start_ok_cong [of s]) (use assms in \<open>simp_all add: hole_ok_def\<close>)
  moreover have "\<exists>j\<in>set (ilist t). inum_of t j = Some (ihole t - 1)"
    using assms(1,3-5) unfolding hole_ok_def before_hole_def by metis
  ultimately show ?thesis unfolding hole_ok_def before_hole_def by blast
qed

subsection \<open>The learn loop\<close>

lemma ready_nth:
  "k < ready h xs \<Longrightarrow> ph_inum (pi_hdr (xs ! k)) = h + of_nat k \<and> pi_committed (xs ! k)"
proof (induction xs arbitrary: h k)
  case (Cons x xs)
  then show ?case by (cases k) (auto split: if_splits)
qed simp

lemma ordered_before:
  assumes "ordered paxid_compare f (xs @ ys)" "i \<in> set xs" "j \<in> set ys" "f i = Some m" "f j = Some n"
  shows "m < n"
proof -
  have "the (f i) < the (f j)" using assms(1-3) by (auto simp: ordered_def sorted_wrt_append)
  then show ?thesis using assms(4,5) by simp
qed

text \<open>What a learn loop that starts at the hole does to the log, by position behind the hole.\<close>

definition steps :: "iref list \<Rightarrow> paxos_session \<Rightarrow> nat" where
  "steps suf s = ready (ihole s) (insts s suf)"

lemma listed_num: "log_ok s \<Longrightarrow> i \<in> set (ilist s) \<Longrightarrow> inum_of s i = Some (ph_inum (pi_hdr (the (iheap s i))))"
  by (auto simp: log_ok_def inum_of_def)

lemma learned_parts:
  assumes "learned pre suf s t" "log_ok s" "ilist s = pre @ suf"
  shows "steps suf s \<le> length suf" "ihole t = ihole s + of_nat (steps suf s)" "ilist t = ilist s"
    "istart t = stop_at s (pre @ take (steps suf s) suf) (drop (steps suf s) suf) (ihole t)"
    "\<And>j. j \<in> set (ilist s) \<Longrightarrow> iheap t j =
      (if j \<in> set (take (steps suf s) suf) then map_option (pi_learned_update (\<lambda>_. True)) (iheap s j) else iheap s j)"
    "\<And>j. j \<in> set (ilist s) \<Longrightarrow> inum_of t j = inum_of s j"
    "\<And>k. k < steps suf s \<Longrightarrow> inum_of s (suf ! k) = Some (ihole s + of_nat k) \<and> pi_committed (the (iheap s (suf ! k)))"
proof -
  show le: "steps suf s \<le> length suf" using ready_le [of "ihole s" "insts s suf"] by (simp add: steps_def insts_def)
  show "ihole t = ihole s + of_nat (steps suf s)" "ilist t = ilist s"
    "istart t = stop_at s (pre @ take (steps suf s) suf) (drop (steps suf s) suf) (ihole t)"
    and heap: "\<And>j. j \<in> set (ilist s) \<Longrightarrow> iheap t j =
      (if j \<in> set (take (steps suf s) suf) then map_option (pi_learned_update (\<lambda>_. True)) (iheap s j) else iheap s j)"
    using assms(1) by (auto simp: learned_def steps_def Let_def)
  show "inum_of t j = inum_of s j" if "j \<in> set (ilist s)" for j
    using heap [OF that] assms(2) that by (auto simp: inum_of_def log_ok_def)
  show "inum_of s (suf ! k) = Some (ihole s + of_nat k) \<and> pi_committed (the (iheap s (suf ! k)))" if "k < steps suf s" for k
    using ready_nth [OF that [unfolded steps_def]] listed_num [OF assms(2), of "suf ! k"] that le assms(3)
    by (simp add: insts_def)
qed

lemma learned_start:
  assumes l: "learned pre suf s t" "log_ok s" "ilist s = pre @ suf" and suf: "suf \<noteq> []" "inum_of s (hd suf) = Some (ihole s)"
  shows "start_ok t"
proof -
  note p = learned_parts [OF l]
  show ?thesis
  proof (cases "steps suf s")
    case 0
    with p(2,4) suf have "istart t = Some (hd suf)" "ihole t = ihole s"
      using listed_num [OF l(2), of "hd suf"] l(3) by (cases suf; auto simp: stop_at_def)+
    moreover have "hd suf \<in> set (ilist t)" "inum_of t (hd suf) = Some (ihole s)" using suf l(3) p(3,6) by auto
    ultimately show ?thesis by (auto simp: start_ok_def)
  next
    case (Suc m)
    let ?i = "suf ! m"
    have i: "?i \<in> set (ilist s)" "m < length suf" using p(1) l(3) Suc by simp_all
    have k: "inum_of t ?i = Some (ihole t - 1)" using p(7) [of m] p(2) p(6) [OF i(1)] Suc by simp
    have last: "opt_last (pre @ take (steps suf s) suf) = Some ?i"
      using i(2) Suc by (simp add: opt_last_def take_Suc_conv_app_nth)
    show ?thesis
    proof (cases "istart t = Some ?i")
      case True
      with k i(1) p(3) show ?thesis by (auto simp: start_ok_def)
    next
      case False
      with p(4) last obtain j js where j: "drop (steps suf s) suf = j # js" "ph_inum (pi_hdr (the (iheap s j))) = ihole t" "istart t = Some j"
        by (cases "drop (steps suf s) suf") (auto simp: stop_at_def split: if_splits)
      have "j \<in> set suf" using j(1) in_set_dropD [of j "steps suf s" suf] by simp
      then have "j \<in> set (ilist s)" using l(3) by simp
      with listed_num [OF l(2), of j] p(6) [of j] j p(3) show ?thesis by (auto simp: start_ok_def)
    qed
  qed
qed

text \<open>The marks after at least one step: an instance stands before the hole, among those just learned, or behind them.\<close>

lemma learned_settled:
  assumes l: "learned pre suf s t" "nums_ok s" "ilist s = pre @ suf" and suf: "suf \<noteq> []" "inum_of s (hd suf) = Some (ihole s)"
    and prev: "before_hole s" and m: "steps suf s = Suc m" and j: "j \<in> set (ilist t)" "iheap t j = Some y"
  shows "settled (ihole t) y"
proof -
  have ok: "log_ok s" "ordered paxid_compare (inum_of s) (pre @ suf)" "distinct suf" "set pre \<inter> set suf = {}"
    using l(2,3) by (auto simp: nums_ok_def log_ok_def)
  note p = learned_parts [OF l(1) ok(1) l(3)]
  let ?i = "suf ! m" and ?h = "ihole s + of_nat m"
  have i: "?i \<in> set (ilist s)" "m < length suf" using p(1) l(3) m by simp_all
  have k: "inum_of s ?i = Some ?h" using p(7) [of m] m by simp
  have "?h \<noteq> - 1" using prev i k listed_num [OF ok(1) i(1)] ok(1) by (auto simp: before_hole_def settled_def log_ok_def)
  note nxt = next_word [OF this]
  have h: "ihole t = ?h + 1" using p(2) m by simp
  have js: "j \<in> set (ilist s)" using j(1) p(3) by simp
  then obtain x where x: "iheap s j = Some x" using ok(1) by (auto simp: log_ok_def)
  then have nx: "inum_of s j = Some (ph_inum (pi_hdr x))" by (simp add: inum_of_def)
  have sx: "settled (ihole s) x" using prev js x by (auto simp: before_hole_def)
  have srt: "sorted_wrt (\<lambda>x y. the (inum_of s x) < the (inum_of s y)) suf" using ok(2) by (auto simp: ordered_def sorted_wrt_append)
  consider "j \<in> set pre" | a where "a < Suc m" "j = suf ! a" | a where "Suc m \<le> a" "a < length suf" "j = suf ! a"
  proof -
    have "j \<in> set pre \<or> (\<exists>a<length suf. j = suf ! a)" using js l(3) by (auto simp: in_set_conv_nth)
    with that show ?thesis by (metis linorder_not_less)
  qed
  then show ?thesis
  proof cases
    case 1
    then have "j \<notin> set (take (steps suf s) suf)" using ok(4) by (auto dest: in_set_takeD)
    then have "y = x" using p(5) [OF js] j(2) x by simp
    moreover have "ph_inum (pi_hdr x) < ihole s" by (rule ordered_before [OF ok(2) 1 hd_in_set [OF suf(1)] nx suf(2)])
    moreover have "ph_inum (pi_hdr x) < ?h" by (rule ordered_before [OF ok(2) 1 nth_mem [OF i(2)] nx k])
    ultimately show ?thesis using sx nxt h by (auto simp: settled_def)
  next
    case 2
    then have "j \<in> set (take (steps suf s) suf)" using p(1) m by (auto simp: in_set_conv_nth)
    then have "y = x\<lparr>pi_learned := True\<rparr>" using p(5) [OF js] j(2) x by simp
    moreover have "ph_inum (pi_hdr x) \<le> ?h"
      using sorted_wrt_nth_less [OF srt _ i(2), of a] 2 nx k by (cases "a = m") auto
    moreover have "pi_committed x" using p(7) [of a] 2 m x by simp
    ultimately show ?thesis using sx nxt h by (auto simp: settled_def)
  next
    case 3
    have "j \<notin> set (take (steps suf s) suf)" using 3 ok(3) m by (auto simp: in_set_conv_nth nth_eq_iff_index_eq)
    then have "y = x" using p(5) [OF js] j(2) x by simp
    moreover have "?h < ph_inum (pi_hdr x)" using sorted_wrt_nth_less [OF srt _ 3(2), of m] 3 nx k by simp
    moreover have "ihole s < ph_inum (pi_hdr x)"
      using sorted_wrt_nth_less [OF srt _ 3(2), of 0] 3 nx suf by (simp add: hd_conv_nth)
    ultimately show ?thesis using sx nxt h by (auto simp: settled_def)
  qed
qed

lemma learned_hole:
  assumes l: "learned pre suf s t" and ok: "nums_ok s" "ilist s = pre @ suf" and suf: "suf \<noteq> []" "inum_of s (hd suf) = Some (ihole s)"
    and prev: "before_hole s"
  shows "hole_ok t"
proof -
  have log: "log_ok s" using ok(1) by (simp add: nums_ok_def)
  note p = learned_parts [OF l log ok(2)]
  have "before_hole t"
  proof (cases "steps suf s")
    case 0
    then have "iheap t j = iheap s j" if "j \<in> set (ilist s)" for j using p(5) [OF that] by simp
    with 0 prev p(2,3,6) show ?thesis by (auto simp: before_hole_def)
  next
    case (Suc m)
    then have "suf ! m \<in> set (ilist s)" using p(1) ok(2) by simp
    with p(2,3,6) p(7) [of m] Suc have "\<exists>j\<in>set (ilist t). inum_of t j = Some (ihole t - 1)"
      by (intro bexI [of _ "suf ! m"]) simp_all
    with learned_settled [OF l ok suf prev Suc] show ?thesis by (auto simp: before_hole_def)
  qed
  with learned_start [OF l log ok(2) suf] show ?thesis by (simp add: hole_ok_def)
qed

lemma learn_loop_hole:
  assumes "learn_loop (Some i) s = Some (r, t)" "nums_ok s" "i \<in> set (ilist s)" "inum_of s i = Some (ihole s)" "before_hole s"
  shows "ended t \<or> hole_ok t"
proof -
  have ok: "log_ok s" using assms(2) by (simp add: nums_ok_def)
  from assms(3) obtain pre suf where l: "ilist s = pre @ i # suf" by (auto simp: in_set_conv_decomp)
  have "learn_walk (opt_last pre) (i # suf) s = Some (r, t)"
    using learn_loop_walk [OF ok l] assms(1) by simp
  from learn_walk_learned [OF ok l this] learned_hole [OF _ assms(2) l _ _ assms(5)] assms(4) show ?thesis by auto
qed

lemma commit_cached_loop:
  assumes "commit_cached i s = Some (r, t)" "ph_inum (pi_hdr x) = ihole v"
    "upd_instance i (\<lambda>x. x\<lparr>pi_cached := True\<rparr>) s = Some v" "iheap v i = Some x"
  obtains st u st' y z where "istart v = Some st" "iheap v st = Some y"
    "if ph_inum (pi_hdr y) \<noteq> ihole v then \<exists>nx. ilist_next v st = Some nx \<and> u = v\<lparr>istart := nx\<rparr> else u = v"
    "istart u = Some st'" "iheap u st' = Some z" "ph_inum (pi_hdr z) = ihole u" "learn_loop (Some st') u = Some (r, t)"
proof -
  from assms obtain st y u where 1: "istart v = Some st" "iheap v st = Some y"
    "(if ph_inum (pi_hdr y) \<noteq> ihole v then ilist_next v st \<bind> (\<lambda>nx. Some (v\<lparr>istart := nx\<rparr>)) else Some v) = Some u"
    and rest: "istart u \<bind> (\<lambda>st. iheap u st \<bind> (\<lambda>x. assert (ph_inum (pi_hdr x) = ihole u) \<bind> (\<lambda>_. learn_loop (Some st) u))) = Some (r, t)"
    by (simp add: commit_cached_def bind_Some_iff [of "istart _"] bind_Some_iff [of "iheap _ _"] split del: if_split)
      (clarsimp simp: bind_Some_iff)
  from rest obtain st' z where "istart u = Some st'" "iheap u st' = Some z" "ph_inum (pi_hdr z) = ihole u" "learn_loop (Some st') u = Some (r, t)"
    by (auto simp: bind_Some_iff split: if_splits)
  moreover have "if ph_inum (pi_hdr y) \<noteq> ihole v then \<exists>nx. ilist_next v st = Some nx \<and> u = v\<lparr>istart := nx\<rparr> else u = v"
    using 1(3) by (cases "ilist_next v st") (auto split: if_splits)
  ultimately show ?thesis using that 1(1,2) by blast
qed

lemma commit_cached_hole:
  assumes "commit_cached i s = Some (r, t)" "nums_ok s" "hole_ok s"
  shows "ended t \<or> hole_ok t"
proof -
  from assms(1) obtain v x where v: "upd_instance i (\<lambda>x. x\<lparr>pi_cached := True\<rparr>) s = Some v" and x: "iheap v i = Some x"
    by (auto simp: commit_cached_def bind_Some_iff)
  have nums: "inum_of v j = inum_of s j" for j using v by (auto simp: upd_instance_def bind_Some_iff inum_of_def)
  have same: "ilist v = ilist s" "ihole v = ihole s" "istart v = istart s" "brk v = brk s"
    using v by (auto simp: upd_instance_def bind_Some_iff)
  have ok: "nums_ok v"
    using v assms(2) ordered_cong [of "ilist s" "inum_of v" "inum_of s"] nums
    by (auto simp: upd_instance_def bind_Some_iff nums_ok_def log_ok_def)
  have lok: "log_ok s" "log_ok v" using assms(2) ok by (simp_all add: nums_ok_def)
  have "marks_kept s v" using v by (auto simp: upd_instance_def bind_Some_iff marks_kept_def marked_def split: if_splits)
  then have h: "hole_ok v" by (intro hole_ok_cong [OF assms(3) lok(1)]) (use same nums in simp_all)
  show ?thesis
  proof (cases "ph_inum (pi_hdr x) = ihole v")
    case False
    with assms(1) v x have "t = v \<or> acceptor_retry (ihole v) v = Some (r, t)"
      by (auto simp: commit_cached_def bind_Some_iff split: if_splits)
    then have "t = v \<or> sends_only v t" by (auto dest: acceptor_retry_effect)
    then have "hole_ok t" by (intro hole_ok_cong [OF h lok(2)]) (auto simp: sends_only_def inum_of_def marks_kept_def)
    then show ?thesis ..
  next
    case True
    obtain st u st' y z where st: "istart v = Some st" and y: "iheap v st = Some y"
      and u: "(if ph_inum (pi_hdr y) \<noteq> ihole v then \<exists>nx. ilist_next v st = Some nx \<and> u = v\<lparr>istart := nx\<rparr> else u = v)"
      and st': "istart u = Some st'" "iheap u st' = Some z" "ph_inum (pi_hdr z) = ihole u"
      and loop: "learn_loop (Some st') u = Some (r, t)"
      using assms(1) True v x by (rule commit_cached_loop)
    have l: "st \<in> set (ilist v)" using h st by (auto simp: hole_ok_def start_ok_def)
    have same: "ilist u = ilist v" "iheap u = iheap v" "ihole u = ihole v" "brk u = brk v"
      using u by (auto split: if_splits)
    have "st' \<in> set (ilist v)"
    proof (cases "ph_inum (pi_hdr y) = ihole v")
      case True
      with u st st' l show ?thesis by auto
    next
      case False
      with u st'(1) l have "succ_in (ilist v) st = Some st'" using y by (auto simp: ilist_next_def bind_Some_iff)
      then show ?thesis by (rule succ_in_mem)
    qed
    moreover have "nums_ok u" using ok same by (simp add: nums_ok_def log_ok_def inum_of_def [abs_def])
    moreover have "inum_of u st' = Some (ihole u)" using st' by (simp add: inum_of_def)
    moreover have "before_hole u" using h same by (simp add: hole_ok_def before_hole_def inum_of_def [abs_def])
    ultimately show ?thesis using loop same(1) by (intro learn_loop_hole) auto
  qed
qed

end
