(* ===== verification/Telling.thy ===== *)
theory Telling
  imports Welcome_Wire Hole
begin

section \<open>What messages tell about the log\<close>

text \<open>
  Three kinds of message put a value into the log of the receiver (decree, commit and recommit), and a
  welcome gives it a whole log.  All others are quiet.  This theory says, of a message as any msgpack
  library delivers it, what it tells; that almost all of the code sends quiet messages only; and that
  committing and learning change no entry of the log.
\<close>

subsection \<open>Numbers on the wire\<close>

text \<open>
  The packing of an enum as a signed number, whatever its value.  A negative number does not come back as a
  positive integer, and the unpacking of a header or value fails on it.
\<close>

definition int_obj :: "int \<Rightarrow> mobj" where
  "int_obj i = (if 0 \<le> i then M_positive_integer (word_of_int i) else M_negative_integer i)"

definition wire_header :: "paxos_header \<Rightarrow> mobj" where
  "wire_header hdr = M_array
     [M_positive_integer (ph_session hdr),
      M_positive_integer (ucast (pid (ph_ballot hdr))), M_positive_integer (ucast (gen (ph_ballot hdr))),
      int_obj (sint (paxop_num (ph_opcode hdr))), M_positive_integer (ucast (ph_inum hdr))]"

definition wire_value :: "paxos_value \<Rightarrow> mobj" where
  "wire_value val = M_array
     [int_obj (sint (dkind_num (pv_dkind val))),
      M_positive_integer (ucast (pid (pv_reqid val))), M_positive_integer (ucast (gen (pv_reqid val))),
      M_positive_integer (ucast (pv_extra val))]"

definition wire_instance :: "paxos_instance \<Rightarrow> mobj" where
  "wire_instance x = M_array [wire_header (pi_hdr x), M_boolean (pi_committed x), wire_value (pi_val x)]"

text \<open>A value as C has it: the kind is its number.\<close>

definition raw_value :: "paxos_value \<Rightarrow> u32 \<times> reqid \<times> paxid" where
  "raw_value v = (dkind_num (pv_dkind v), pv_reqid v, pv_extra v)"

lemma ucast_scast_u32: "ucast (scast (n :: u32) :: u64) = n"
  by (rule bit_word_eqI) (auto simp: bit_simps)

lemma paxop_num_of: "paxop_num (paxop_of n) = n"
proof -
  have "\<forall>k\<in>set [0..<18]. paxop_num (paxops ! k) = of_nat k" by code_simp
  then show ?thesis by (auto simp: paxop_of_def paxops_def)
qed

lemma dkind_num_of: "dkind_num (dkind_of n) = n"
proof -
  have "\<forall>k\<in>set [0..<5]. dkind_num (dkinds ! k) = of_nat k" by code_simp
  then show ?thesis by (auto simp: dkind_of_def dkinds_def)
qed

lemma int_obj_Some: "positive_integer (int_obj (sint (n :: u32))) = Some k \<Longrightarrow> ucast k = n"
  by (auto simp: int_obj_def ucast_scast_u32 split: if_splits)

lemma wire_header_unpack:
  "paxos_header_unpack (wire_header hdr) = Some h \<Longrightarrow> ph_inum h = ph_inum hdr \<and> ph_opcode h = paxop_of (paxop_num (ph_opcode hdr))"
  by (auto simp: paxos_header_unpack_def wire_header_def array_of_size_def paxos_uuid_unpack_def bind_Some_iff
      dest!: int_obj_Some)

lemma wire_value_unpack: "paxos_value_unpack (wire_value val) = Some v \<Longrightarrow> raw_value v = raw_value val"
  by (auto simp: paxos_value_unpack_def wire_value_def array_of_size_def bind_Some_iff raw_value_def dkind_num_of
      dest!: int_obj_Some)

lemma wire_instance_unpack:
  "paxos_instance_unpack (wire_instance x) = Some y \<Longrightarrow> ph_inum (pi_hdr y) = ph_inum (pi_hdr x) \<and> raw_value (pi_val y) = raw_value (pi_val x)"
  by (auto simp: paxos_instance_unpack_def wire_instance_def array_of_size_def bind_Some_iff zero_instance_def
      dest!: wire_header_unpack wire_value_unpack)

context msgpack_unpacker
begin

lemma encodes_int: "encodes [Pack_int i] (int_obj i)"
  by (simp add: encodes_def unpack_simps int_obj_def)

lemma encodes_wire_header: "encodes (paxos_header_pack hdr) (wire_header hdr)"
  by (auto simp: encodes_def paxos_header_pack_def wire_header_def unpack_simps int_obj_def
      paxos_uuid_pack_def msgpack_pack_pax_uuid_def msgpack_pack_paxid_def split: bind_splits)

lemma encodes_wire_value: "encodes (paxos_value_pack val) (wire_value val)"
  by (auto simp: encodes_def paxos_value_pack_def wire_value_def unpack_simps int_obj_def
      msgpack_pack_paxid_def split: bind_splits)

lemma encodes_wire_instance: "encodes (paxos_instance_pack x) (wire_instance x)"
  using encodes_array3 [OF encodes_wire_header encodes_bool encodes_wire_value]
  by (simp add: paxos_instance_pack_def wire_instance_def)

end

subsection \<open>Delivery of a message\<close>

text \<open>
  \<open>delivered u py h o1\<close>: the bytes \<open>py\<close> reach the dispatcher as the header \<open>h\<close> and the rest \<open>o1\<close>, as
  paxos\_dispatch takes them apart.
\<close>

definition delivered :: "(pcall list \<Rightarrow> mobj list option) \<Rightarrow> paxos_yak \<Rightarrow> paxos_header \<Rightarrow> mobj option \<Rightarrow> bool" where
  "delivered u py h o1 \<longleftrightarrow> (\<exists>ps. u py = Some [M_array ps] \<and> 0 < length ps \<and> length ps \<le> 2 \<and>
     paxos_header_unpack (ps ! 0) = Some h \<and> o1 = elem ps 1)"

type_synonym entry = "paxid \<times> u32 \<times> reqid \<times> paxid"

definition entry_of :: "paxos_instance \<Rightarrow> entry" where
  "entry_of x = (ph_inum (pi_hdr x), raw_value (pi_val x))"

definition telling :: "paxop \<Rightarrow> bool" where
  "telling op \<longleftrightarrow> op = OP_DECREE \<or> op = OP_COMMIT \<or> op = OP_RECOMMIT"

definition tells :: "(pcall list \<Rightarrow> mobj list option) \<Rightarrow> paxos_yak \<Rightarrow> entry \<Rightarrow> bool" where
  "tells u py e \<longleftrightarrow> (\<exists>h o1 v. delivered u py h (Some o1) \<and> telling (ph_opcode h) \<and>
     paxos_value_unpack o1 = Some v \<and> e = (ph_inum h, raw_value v))"

text \<open>The log that a welcome hands over.\<close>

definition welcomes :: "(pcall list \<Rightarrow> mobj list option) \<Rightarrow> paxos_yak \<Rightarrow> paxos_instance list \<Rightarrow> bool" where
  "welcomes u py xs \<longleftrightarrow> (\<exists>h arr ps. delivered u py h (Some (M_array arr)) \<and> ph_opcode h = OP_WELCOME \<and> length arr = 3 \<and>
     arr ! 2 = M_array ps \<and> map paxos_instance_unpack ps = map Some xs)"

definition quiet :: "(pcall list \<Rightarrow> mobj list option) \<Rightarrow> paxos_yak \<Rightarrow> bool" where
  "quiet u py \<longleftrightarrow> (\<forall>h o1. delivered u py h o1 \<longrightarrow> \<not> telling (ph_opcode h) \<and> ph_opcode h \<noteq> OP_WELCOME)"

lemma quiet_tells: "quiet u py \<Longrightarrow> \<not> tells u py e" "quiet u py \<Longrightarrow> \<not> welcomes u py xs"
  by (auto simp: quiet_def tells_def welcomes_def)

context msgpack_unpacker
begin

lemma delivered_header:
  assumes "delivered unpack (paxos_payload_init k @ paxos_header_pack hdr @ cs) h o1" "0 < k"
  shows "ph_inum h = ph_inum hdr \<and> ph_opcode h = paxop_of (paxop_num (ph_opcode hdr)) \<and>
    (\<exists>os. unpack cs = Some os \<and> o1 = elem (take k (wire_header hdr # os)) 1)"
proof -
  from assms(1) obtain ps where ps: "unpack (paxos_payload_init k @ paxos_header_pack hdr @ cs) = Some [M_array ps]"
    "paxos_header_unpack (ps ! 0) = Some h" "o1 = elem ps 1" by (auto simp: delivered_def)
  from ps(1) obtain os where os: "unpack cs = Some os" "ps = take k (wire_header hdr # os)"
    by (auto simp: paxos_payload_init_def unpack_simps encodesD [OF encodes_wire_header] bind_Some_iff split: if_splits)
  with assms(2) have "ps ! 0 = wire_header hdr" by (cases k) simp_all
  with ps(2) have "paxos_header_unpack (wire_header hdr) = Some h" by simp
  from wire_header_unpack [OF this] os ps(3) show ?thesis by auto
qed

lemma quiet_message:
  assumes "known_op (ph_opcode hdr)" "\<not> telling (ph_opcode hdr)" "ph_opcode hdr \<noteq> OP_WELCOME" "0 < k"
  shows "quiet unpack (paxos_payload_init k @ paxos_header_pack hdr @ cs)"
  using delivered_header [OF _ assms(4)] known_op_cases [OF assms(1)] assms(2,3) unfolding quiet_def by metis

lemma quiet_header: "known_op (ph_opcode hdr) \<Longrightarrow> \<not> telling (ph_opcode hdr) \<Longrightarrow> ph_opcode hdr \<noteq> OP_WELCOME \<Longrightarrow> quiet unpack (header_message hdr)"
  using quiet_message [of hdr 1 "[]"] by (simp add: header_message_def)

lemma value_message_tells:
  assumes "delivered unpack (paxos_payload_init 2 @ paxos_header_pack hdr @ paxos_value_pack val) h (Some o1)"
    "paxos_value_unpack o1 = Some v"
  shows "ph_inum h = ph_inum hdr \<and> ph_opcode h = paxop_of (paxop_num (ph_opcode hdr)) \<and> raw_value v = raw_value val"
proof -
  note d = delivered_header [OF assms(1)]
  from d have "Some o1 = elem [wire_header hdr, wire_value val] 1"
    using encodes_unpack [OF encodes_wire_value] by auto
  then have "o1 = wire_value val" by (simp add: elem_def)
  with d assms(2) wire_value_unpack show ?thesis by auto
qed

lemma value_message_tells_entry:
  "tells unpack (paxos_payload_init 2 @ paxos_header_pack hdr @ paxos_value_pack val) e \<Longrightarrow> e = (ph_inum hdr, raw_value val)"
  unfolding tells_def by (auto dest: value_message_tells)

lemma instance_message_tells: "tells unpack (instance_message x) e \<Longrightarrow> e = entry_of x"
  unfolding instance_message_def entry_of_def by (rule value_message_tells_entry)

lemma value_message_welcomes:
  "\<not> welcomes unpack (paxos_payload_init 2 @ paxos_header_pack hdr @ paxos_value_pack val) xs"
proof
  assume "welcomes unpack (paxos_payload_init 2 @ paxos_header_pack hdr @ paxos_value_pack val) xs"
  then obtain h arr where d: "delivered unpack (paxos_payload_init 2 @ paxos_header_pack hdr @ paxos_value_pack val) h (Some (M_array arr))"
    and l: "length arr = 3" by (auto simp: welcomes_def)
  from delivered_header [OF d] have "Some (M_array arr) = elem [wire_header hdr, wire_value val] 1"
    using encodes_unpack [OF encodes_wire_value] by auto
  then show False using l by (simp add: elem_def wire_value_def)
qed

text \<open>The welcome hands over the instances it packs, in their order.\<close>

lemma packed_acceptors:
  "pack_acceptors as s = Some cs \<Longrightarrow> \<exists>accs. cs = concat (map paxos_acceptor_pack accs) \<and> length accs = length as"
proof (induction as arbitrary: cs)
  case Nil
  then show ?case by (intro exI [of _ "[]"]) simp
next
  case (Cons a as)
  then obtain acc ds where "cs = paxos_acceptor_pack acc @ ds" "pack_acceptors as s = Some ds" by (auto simp: bind_Some_iff)
  with Cons.IH [of ds] obtain accs where "cs = concat (map paxos_acceptor_pack (acc # accs))" "length accs = length as" by auto
  then show ?case by (intro exI [of _ "acc # accs"]) simp
qed

lemma packed_instances: "pack_instances is s = Some cs \<Longrightarrow> cs = concat (map paxos_instance_pack (insts s is))"
  by (induction "is" arbitrary: cs) (auto simp: bind_Some_iff)

lemma welcome_message_unpack:
  assumes "welcome_message n s = Some py"
  shows "\<exists>cs o1 o2. py = paxos_payload_init 2 @ paxos_header_pack (header_init s OP_WELCOME n) @ cs \<and>
    unpack cs = Some [M_array [o1, o2, M_array (map wire_instance (insts s (ilist s)))]]"
proof -
  from assms obtain as "is" where a: "pack_acceptors (alist s) s = Some as" and i: "pack_instances (ilist s) s = Some is"
    and py: "py = paxos_payload_init 2 @ paxos_header_pack (header_init s OP_WELCOME n) @
      Pack_array 3 # (Pack_array 2 # paxos_uuid_pack (session_id s) @ paxos_paxid_pack (ibase s)) @
      (Pack_array (length (alist s)) # as) @ (Pack_array (length (ilist s)) # is)"
    by (auto simp: welcome_message_def bind_Some_iff paxos_payload_begin_array_def)
  have e1: "encodes (Pack_array 2 # paxos_uuid_pack (session_id s) @ paxos_paxid_pack (ibase s))
      (M_array [M_positive_integer (session_id s), M_positive_integer (ucast (ibase s))])"
    using encodes_array2 [OF encodes_prims(2) encodes_prims(1)]
    by (simp add: paxos_uuid_pack_def paxos_paxid_pack_def msgpack_pack_pax_uuid_def msgpack_pack_paxid_def)
  from packed_acceptors [OF a] obtain accs where accs: "as = concat (map paxos_acceptor_pack accs)" "length accs = length (alist s)" by blast
  have e2: "encodes (Pack_array (length (alist s)) # as) (M_array (map acceptor_obj accs))"
    unfolding accs(1) by (rule encodes_array_map [OF encodes_acceptor]) (simp add: accs(2))
  have e3: "encodes (Pack_array (length (ilist s)) # is) (M_array (map wire_instance (insts s (ilist s))))"
    unfolding packed_instances [OF i] by (rule encodes_array_map [OF encodes_wire_instance]) (simp add: insts_def)
  show ?thesis
    using encodes_unpack [OF encodes_array3 [OF e1 e2 e3]] unfolding py by blast
qed

lemma welcome_message_welcomes:
  assumes "welcome_message n s = Some py" "welcomes unpack py xs"
  shows "map entry_of xs = map entry_of (insts s (ilist s))"
proof -
  from welcome_message_unpack [OF assms(1)] obtain cs o1 o2 where
    py: "py = paxos_payload_init 2 @ paxos_header_pack (header_init s OP_WELCOME n) @ cs"
    and cs: "unpack cs = Some [M_array [o1, o2, M_array (map wire_instance (insts s (ilist s)))]]" by blast
  from assms(2) obtain h arr ps where d: "delivered unpack py h (Some (M_array arr))" and arr: "length arr = 3" "arr ! 2 = M_array ps"
    and xs: "map paxos_instance_unpack ps = map Some xs" by (auto simp: welcomes_def)
  from delivered_header [OF d [unfolded py]] cs have "arr = [o1, o2, M_array (map wire_instance (insts s (ilist s)))]"
    by (auto simp: elem_def)
  with arr(2) have ps: "ps = map wire_instance (insts s (ilist s))" by simp
  have "map entry_of ys = map entry_of zs" if "map paxos_instance_unpack (map wire_instance zs) = map Some ys" for ys zs
    using that
  proof (induction zs arbitrary: ys)
    case (Cons z zs)
    then obtain y ys' where y: "ys = y # ys'" "paxos_instance_unpack (wire_instance z) = Some y"
      "map paxos_instance_unpack (map wire_instance zs) = map Some ys'" by (cases ys) auto
    with Cons.IH [OF y(3)] wire_instance_unpack [OF y(2)] show ?case by (simp add: entry_of_def)
  qed simp
  from this [OF xs [unfolded ps]] show ?thesis .
qed

lemma welcome_message_tells: "welcome_message n s = Some py \<Longrightarrow> \<not> tells unpack py e"
proof
  assume w: "welcome_message n s = Some py" and "tells unpack py e"
  from welcome_message_unpack [OF w] obtain cs where py: "py = paxos_payload_init 2 @ paxos_header_pack (header_init s OP_WELCOME n) @ cs" by blast
  with \<open>tells unpack py e\<close> obtain h o1 where "delivered unpack (paxos_payload_init 2 @ paxos_header_pack (header_init s OP_WELCOME n) @ cs) h o1"
    "telling (ph_opcode h)" by (auto simp: tells_def)
  with delivered_header [OF this(1)] known_op_cases [of OP_WELCOME] show False
    by (simp add: header_init_def telling_def known_op_def paxops_def)
qed

end

subsection \<open>Quiet operations\<close>

text \<open>
  \<open>quietly u s t\<close>: between \<open>s\<close> and \<open>t\<close> only quiet messages are sent.  \<open>still u s t\<close>: besides, the log keeps
  its instances and their numbers and values, and the hole stays in order, if the session has not ended.
\<close>

definition quietly :: "(pcall list \<Rightarrow> mobj list option) \<Rightarrow> paxos_session \<Rightarrow> paxos_session \<Rightarrow> bool" where
  "quietly u s t \<longleftrightarrow> (\<exists>es. out t = out s @ es \<and> (\<forall>q py. Send q py \<in> set es \<longrightarrow> quiet u py))"

definition kept :: "paxos_session \<Rightarrow> paxos_session \<Rightarrow> bool" where
  "kept s t \<longleftrightarrow> \<not> ended s \<and> ilist t = ilist s \<and> brk s \<le> brk t \<and>
     (\<forall>j\<in>set (ilist s). j < brk s \<longrightarrow> map_option entry_of (iheap t j) = map_option entry_of (iheap s j))"

definition hole_kept :: "paxos_session \<Rightarrow> paxos_session \<Rightarrow> bool" where
  "hole_kept s t \<longleftrightarrow> ihole t = ihole s \<and> istart t = istart s \<and> marks_kept s t \<or> (nums_ok s \<longrightarrow> hole_ok s \<longrightarrow> hole_ok t)"

lemmas hole_kept_marks = hole_kept_def marks_kept_def marked_def

definition held :: "paxos_session \<Rightarrow> paxos_session \<Rightarrow> bool" where
  "held s t \<longleftrightarrow> kept s t \<and> hole_kept s t"

definition still :: "(pcall list \<Rightarrow> mobj list option) \<Rightarrow> paxos_session \<Rightarrow> paxos_session \<Rightarrow> bool" where
  "still u s t \<longleftrightarrow> quietly u s t \<and> (ended t \<or> held s t)"

lemma quietly_same: "out t = out s \<Longrightarrow> quietly u s t"
  by (simp add: quietly_def)

lemma quietly_refl [simp, intro]: "quietly u s s"
  by (rule quietly_same) simp

lemma quietly_trans: "quietly u s t \<Longrightarrow> quietly u t v \<Longrightarrow> quietly u s v"
  unfolding quietly_def by fastforce

lemma quietly_emit: "(\<And>q py. e \<noteq> Send q py) \<Longrightarrow> quietly u s (emit e s)"
  unfolding quietly_def emit_def by (intro exI [of _ "[e]"]) auto

lemma kept_refl: "\<not> ended s \<Longrightarrow> kept s s"
  by (simp add: kept_def)

lemma kept_trans: "kept s t \<Longrightarrow> kept t v \<Longrightarrow> kept s v"
  by (auto simp: kept_def)

lemma kept_nums:
  assumes "kept s t" "nums_ok s"
  shows "nums_ok t" "\<forall>j\<in>set (ilist s). inum_of t j = inum_of s j"
proof -
  have ok: "log_ok s" "ordered paxid_compare (inum_of s) (ilist s)" using assms(2) by (simp_all add: nums_ok_def)
  have e: "map_option entry_of (iheap t j) = map_option entry_of (iheap s j) \<and> j < brk t \<and> iheap s j \<noteq> None" if "j \<in> set (ilist s)" for j
    using that assms(1) ok(1) by (force simp: kept_def log_ok_def)
  have "iheap t j \<noteq> None \<and> j < brk t" if "j \<in> set (ilist s)" for j
    using e [OF that] by (cases "iheap t j") auto
  then have log: "log_ok t" using assms(1) ok(1) by (simp add: kept_def log_ok_def)
  show nums: "\<forall>j\<in>set (ilist s). inum_of t j = inum_of s j"
  proof
    fix j assume "j \<in> set (ilist s)"
    from e [OF this] show "inum_of t j = inum_of s j"
      by (cases "iheap t j"; cases "iheap s j") (auto simp: inum_of_def entry_of_def)
  qed
  have "ordered paxid_compare (inum_of t) (ilist t)"
    using ok(2) ordered_cong [of "ilist s" "inum_of t" "inum_of s"] nums assms(1) by (simp add: kept_def)
  with log show "nums_ok t" by (simp add: nums_ok_def)
qed

lemma held_hole: "held s t \<Longrightarrow> nums_ok s \<Longrightarrow> hole_ok s \<Longrightarrow> hole_ok t"
  using kept_nums [of s t] hole_ok_cong [of s t] by (auto simp: held_def hole_kept_def kept_def nums_ok_def)

lemma held_trans: "held s t \<Longrightarrow> held t v \<Longrightarrow> held s v"
  using held_hole [of s t] held_hole [of t v] kept_nums [of s t] kept_trans [of s t v] by (auto simp: held_def hole_kept_def)

lemma held_alive: "held s t \<Longrightarrow> \<not> ended s"
  by (simp add: held_def kept_def)

lemma still_refl [simp, intro]: "still u s s"
  by (auto simp: still_def held_def kept_def hole_kept_marks)

lemma still_trans: "still u s t \<Longrightarrow> still u t v \<Longrightarrow> still u s v"
  unfolding still_def by (auto intro: quietly_trans held_trans dest: held_alive)

lemma still_same: "out t = out s \<Longrightarrow> ended t = ended s \<Longrightarrow> ihole t = ihole s \<Longrightarrow> istart t = istart s \<Longrightarrow> ilist t = ilist s \<Longrightarrow> brk s \<le> brk t \<Longrightarrow>
    (\<And>j. j < brk s \<Longrightarrow> iheap t j = iheap s j) \<Longrightarrow> still u s t"
  by (auto simp: still_def held_def kept_def hole_kept_marks intro: quietly_same)

lemma still_frame: "quietly u s t \<Longrightarrow> log_frame s t \<Longrightarrow> still u s t"
  by (auto simp: still_def held_def kept_def hole_kept_marks log_frame_def)

lemma still_emit: "(\<And>q py. e \<noteq> Send q py) \<Longrightarrow> still u s (emit e s)"
  by (auto simp: still_def held_def kept_def hole_kept_marks quietly_emit) (simp_all add: emit_def)

lemma still_upd_instance:
  assumes "upd_instance i f s = Some t" "\<And>x. iheap s i = Some x \<Longrightarrow> entry_of (f x) = entry_of x \<and> marked x (f x)"
  shows "still u s t"
proof -
  from assms obtain x where x: "iheap s i = Some x" "t = s\<lparr>iheap := (iheap s)(i \<mapsto> f x)\<rparr>" "entry_of (f x) = entry_of x" "marked x (f x)"
    by (auto simp: upd_instance_def bind_Some_iff)
  then have "marks_kept s t" by (simp add: marks_kept_def)
  with x show ?thesis by (auto simp: still_def held_def kept_def hole_kept_def intro: quietly_same)
qed

lemma still_same_heap: "log_same s t \<Longrightarrow> ihole t = ihole s \<Longrightarrow> istart t = istart s \<Longrightarrow> out t = out s \<Longrightarrow> still u s t"
  by (rule still_same) (auto simp: log_same_def)

definition mails :: "paxos_yak \<Rightarrow> paxos_session \<Rightarrow> paxos_session \<Rightarrow> bool" where
  "mails py s t \<longleftrightarrow> (\<exists>qs. t = s\<lparr>out := out s @ map (\<lambda>q. Send q py) qs\<rparr>)"

lemma mails_refl [simp, intro]: "mails py s s"
  unfolding mails_def by (rule exI [of _ "[]"]) simp

lemma mails_trans: "mails py s t \<Longrightarrow> mails py t v \<Longrightarrow> mails py s v"
  unfolding mails_def by (auto simp flip: map_append)

lemma peer_send_mails: "paxos_peer_send p py s = Some (r, t) \<Longrightarrow> mails py s t"
  unfolding mails_def by (cases p) (auto simp: paxos_peer_send_def emit_def intro: exI [of _ "[the p]"])

lemma send_mails: "paxos_send a py s = Some (r, t) \<Longrightarrow> mails py s t"
  by (auto simp: paxos_send_def bind_Some_iff dest: peer_send_mails)

lemma to_proposer_mails: "paxos_send_to_proposer py s = Some (r, t) \<Longrightarrow> mails py s t"
  by (auto simp: paxos_send_to_proposer_def dest: send_mails split: option.splits)

lemma broadcast_mails: "paxos_broadcast py s = Some (r, t) \<Longrightarrow> mails py s t"
proof -
  have "mails py s t" if "broadcast_walk accs py c s = Some (r, t)" for accs c s t
    using that
  proof (induction accs arbitrary: c s)
    case (Cons acc accs)
    then obtain a where a: "aheap s acc = Some a" by (auto simp: bind_Some_iff)
    show ?case
    proof (cases "pa_peer a = None")
      case False
      with Cons.prems a obtain d v where v: "paxos_send acc py s = Some (d, v)"
        and rest: "broadcast_walk accs py (c OR d) v = Some (r, t)" by (auto simp: bind_Some_iff)
      show ?thesis using send_mails [OF v] Cons.IH [OF rest] by (rule mails_trans)
    qed (use Cons a in simp)
  qed simp
  then show "paxos_broadcast py s = Some (r, t) \<Longrightarrow> mails py s t" by (auto simp: paxos_broadcast_def)
qed

lemmas all_mails = peer_send_mails send_mails to_proposer_mails broadcast_mails

lemma mails_still: "mails py s t \<Longrightarrow> quiet u py \<Longrightarrow> still u s t"
  by (auto simp: mails_def still_def held_def kept_def hole_kept_marks quietly_def)

named_theorems still_rules

context msgpack_unpacker
begin

lemma quiet_ops [simp]:
  "quiet unpack (header_message (hdr\<lparr>ph_opcode := OP_ACCEPT\<rparr>))" "quiet unpack (header_message (hdr\<lparr>ph_opcode := OP_REJECT\<rparr>))"
  "quiet unpack (header_message (header_init s OP_RETRY n))" "quiet unpack (header_message (header_init s OP_HELLO n))"
  "quiet unpack (header_message (header_init s OP_SYNC n))"
  "quiet unpack (header_message \<lparr>ph_session = ss, ph_ballot = b, ph_opcode = OP_PREPARE, ph_inum = n\<rparr>)"
  "quiet unpack (paxos_payload_init 2 @ paxos_header_pack (hdr\<lparr>ph_opcode := OP_PROMISE\<rparr>) @ cs)"
  "quiet unpack (paxos_payload_init 2 @ paxos_header_pack (hdr\<lparr>ph_opcode := OP_RESEND\<rparr>) @ cs)"
  "quiet unpack (paxos_payload_init 2 @ paxos_header_pack (hdr\<lparr>ph_opcode := OP_LAST\<rparr>) @ cs)"
  "quiet unpack (paxos_payload_init 2 @ paxos_header_pack (header_init s OP_REDIRECT n) @ cs)"
  "quiet unpack (paxos_payload_init 2 @ paxos_header_pack (header_init s OP_REFUSE n) @ cs)"
  "quiet unpack (paxos_payload_init 2 @ paxos_header_pack (header_init s OP_RETRIEVE n) @ cs)"
  "quiet unpack (request_message (header_init s OP_REQUEST n) req)"
  unfolding request_message_def
  by (rule quiet_header quiet_message; simp add: header_init_def known_op_def paxops_def telling_def)+

lemma retrieve_still: "paxos_retrieve i s = Some (r, t) \<Longrightarrow> still unpack s t"
proof -
  assume h: "paxos_retrieve i s = Some (r, t)"
  then obtain x where "iheap s i = Some x" by (auto simp: paxos_retrieve_def bind_Some_iff)
  with h have "mails (paxos_payload_init 2 @ paxos_header_pack (header_init s OP_RETRIEVE (ph_inum (pi_hdr x))) @
      paxos_payload_begin_array 2 @ paxos_paxid_pack (self_id s) @ paxos_value_pack (pi_val x)) s t"
    by (auto simp: paxos_retrieve_def bind_Some_iff Let_def split: option.splits if_splits dest!: all_mails)
  then show ?thesis by (rule mails_still) simp
qed

lemma outbound_still:
  "acceptor_accept hdr s = Some (r, t) \<Longrightarrow> still unpack s t"
  "acceptor_redirect src hdr s = Some (r, t) \<Longrightarrow> still unpack s t"
  "acceptor_refuse src hdr req s = Some (r, t) \<Longrightarrow> still unpack s t"
  "acceptor_reject hdr s = Some (r, t) \<Longrightarrow> still unpack s t"
  "paxos_resend a hdr req s = Some (r, t) \<Longrightarrow> still unpack s t"
  "acceptor_retry n s = Some (r, t) \<Longrightarrow> still unpack s t"
  "acceptor_last hdr s = Some (r, t) \<Longrightarrow> still unpack s t"
  "paxos_hello acc s = Some (r, t) \<Longrightarrow> still unpack s t"
  by (auto simp: acceptor_accept_def acceptor_redirect_def acceptor_refuse_def acceptor_reject_def
      paxos_resend_def acceptor_retry_def acceptor_last_def paxos_hello_def bind_Some_iff Let_def
      split: option.splits if_splits dest!: all_mails intro: mails_still)

lemma ack_retrieve_still: "paxos_ack_retrieve hdr o1 s = Some (r, t) \<Longrightarrow> still unpack s t"
  by (auto simp: paxos_ack_retrieve_def bind_Some_iff split: option.splits if_splits dest: outbound_still)

lemma ack_sync_still: "acceptor_ack_sync hdr s = Some (r, t) \<Longrightarrow> still unpack s t"
  by (auto simp: acceptor_ack_sync_def dest: outbound_still split: if_splits)

text \<open>Ending, preparing and learning.\<close>

lemma container_destroys_out:
  "acceptor_container_destroy as s = Some t \<Longrightarrow> \<exists>ps. out t = out s @ map Peer_destroy ps"
  "instance_container_destroy is s = Some t' \<Longrightarrow> out t' = out s"
proof -
  show "acceptor_container_destroy as s = Some t \<Longrightarrow> \<exists>ps. out t = out s @ map Peer_destroy ps"
  proof (induction as arbitrary: s)
    case Nil
    then show ?case by (intro exI [of _ "[]"]) simp
  next
    case (Cons a as)
    then obtain v where v: "acceptor_destroy a s = Some v" "acceptor_container_destroy as v = Some t" by (auto simp: bind_Some_iff)
    from acceptor_destroy_frame [OF v(1)] obtain ps where "out v = out s @ map Peer_destroy ps" by auto
    moreover from Cons.IH [OF v(2)] obtain qs where "out t = out v @ map Peer_destroy qs" by blast
    ultimately show ?case by (intro exI [of _ "ps @ qs"]) simp
  qed
  show "instance_container_destroy is s = Some t' \<Longrightarrow> out t' = out s"
    by (induction "is" arbitrary: s) (auto simp: bind_Some_iff instance_destroy_def)
qed

lemma quietly_destroys: "out t = out s @ map Peer_destroy ps \<Longrightarrow> quietly u s t"
  unfolding quietly_def by (rule exI [of _ "map Peer_destroy ps"]) auto

lemma paxos_end_still: "paxos_end s = Some (r, t) \<Longrightarrow> still unpack s t"
proof -
  assume h: "paxos_end s = Some (r, t)"
  then obtain v1 v2 v3 v4 where
    v: "acceptor_container_destroy (alist s) s = Some v1" "acceptor_container_destroy (adefer v1) (v1\<lparr>alist := []\<rparr>) = Some v2"
    "instance_container_destroy (ilist v2) (v2\<lparr>adefer := [], clist := []\<rparr>) = Some v3"
    "instance_container_destroy (idefer v3) (v3\<lparr>ilist := []\<rparr>) = Some v4"
    "t = emit (Leave Freed_data) (v4\<lparr>idefer := [], rcache := [], ended := True\<rparr>)"
    by (auto simp: paxos_end_def session_destroy_def bind_Some_iff Let_def)
  have "quietly unpack s v2"
    using container_destroys_out(1) [OF v(1)] container_destroys_out(1) [OF v(2)] by (auto intro: quietly_destroys simp flip: map_append)
  moreover have "out t = out v2 @ [Leave Freed_data]"
    using container_destroys_out(2) [OF v(3)] container_destroys_out(2) [OF v(4)] v(5) by (simp add: emit_def)
  then have "quietly unpack v2 t" by (auto simp: quietly_def)
  ultimately show ?thesis using paxos_end_result [OF h] by (auto simp: still_def intro: quietly_trans)
qed

lemma prepare_parts_out: "prepare_parts (\<lambda>_ _. None) accs r s = Some (r', t) \<Longrightarrow> out t = out s"
proof (induction accs arbitrary: r s)
  case (Cons a as)
  then obtain x where x: "aheap s a = Some x" by (auto simp: bind_Some_iff)
  show ?case
  proof (cases "pa_peer x \<noteq> None \<or> pa_paxid x = self_id s")
    case False
    with Cons.prems x obtain c v where
      v: "proposer_decree_part_with (\<lambda>_ _. None) a (pa_paxid x < self_id s) s = Some (c, v)"
      and rest: "prepare_parts (\<lambda>_ _. None) as (r OR c) v = Some (r', t)"
      by (auto simp: bind_Some_iff)
    have "out v = out s"
      using v by (auto simp: proposer_decree_part_with_def bind_Some_iff alloc_instance_def Let_def split: if_splits)
    with Cons.IH [OF rest] show ?thesis by simp
  qed (use Cons x in simp)
qed simp

lemma prepare_still: "proposer_prepare old s = Some (r, t) \<Longrightarrow> still unpack s t"
proof (cases "live_count s < majority s")
  case True
  then show "proposer_prepare old s = Some (r, t) \<Longrightarrow> still unpack s t"
    by (auto simp: proposer_prepare_def dest: paxos_end_still split: if_splits)
next
  case False
  assume h: "proposer_prepare old s = Some (r, t)"
  have np: "prep s = None" using h by (auto simp: proposer_prepare_def split: if_splits)
  let ?s = "prepare_start s"
  from False np h obtain r1 v c where
    v: "(if old \<noteq> None then prepare_parts (\<lambda>_ _. None) (alist ?s) 0 ?s else Some (0, ?s)) = Some (r1, v)"
    and b: "prepare_broadcast v = Some (c, t)"
    by (simp add: proposer_prepare_def bind_Some_iff Let_def split del: if_split) blast
  have "out v = out s" using v by (auto dest: prepare_parts_out simp: prepare_start_def Let_def split: if_splits)
  then have "quietly unpack s v" by (rule quietly_same)
  moreover have "still unpack v t"
    using b by (auto simp: prepare_broadcast_def bind_Some_iff dest!: broadcast_mails intro: mails_still)
  then have "quietly unpack v t" by (simp add: still_def)
  moreover have "ended t \<or> log_frame s t" using proposer_prepare_cases [OF h] by auto
  ultimately show ?thesis using quietly_trans [of unpack s v t] still_frame [of unpack s t] by (auto simp: still_def)
qed

lemma reelect_still: "part_reelect a s = Some (r, t) \<Longrightarrow> still unpack s t"
proof -
  assume h: "part_reelect a s = Some (r, t)"
  then obtain acc pr pacc where x: "aheap s a = Some acc" "proposer s = Some pr" "aheap s pr = Some pacc"
    by (auto simp: part_reelect_def bind_Some_iff)
  show ?thesis
  proof (cases "pa_paxid acc = pa_paxid pacc")
    case True
    with h x obtain w p where w: "reset_proposer s = Some w" and p: "(if p then proposer_prepare (Some a) w else Some (0, w)) = Some (r, t)"
      by (auto simp: part_reelect_def bind_Some_iff)
    from reset_proposer_frame [OF w] obtain q where "w = s\<lparr>proposer := q\<rparr>" by blast
    then have "still unpack s w" by (auto intro: still_same)
    moreover have "still unpack w t" using p by (auto intro: prepare_still split: if_splits)
    ultimately show ?thesis by (rule still_trans)
  qed (use h x in \<open>auto simp: part_reelect_def\<close>)
qed

lemma frame_out_still: "log_frame s t \<Longrightarrow> out t = out s \<Longrightarrow> still unpack s t"
  by (rule still_frame [OF quietly_same])

lemma learn_join_still: "learn_join n req s = Some (r, t) \<Longrightarrow> still unpack s t"
proof -
  assume h: "learn_join n req s = Some (r, t)"
  then obtain a v1 v2 v3 p c w and rq :: paxos_request and acc :: paxos_acceptor where
    v: "join_acceptor n s = Some (a, v1)" "alist_insert a v1 = Some v2" "upd_acceptor a (\<lambda>acc. acc\<lparr>pa_desc := pr_data rq\<rparr>) v2 = Some v3"
    and w: "(if p then proposer_welcome a v3 else Some (0, v3)) = Some (c, w)"
    and t: "emit (Learn_join (pr_data rq) (pa_desc acc) (client_data w)) w = t"
    by (simp add: learn_join_def bind_Some_iff split del: if_split) blast
  have "out v1 = out s"
  proof -
    from v(1) obtain f where "acceptor_find (paxid_of s) (adefer s) n = Some f" by (auto simp: join_acceptor_def bind_Some_iff)
    with v(1) show ?thesis by (cases f) (auto simp: join_acceptor_def alloc_acceptor_def)
  qed
  moreover have "out v2 = out v1" using v(2) by (auto simp: alist_insert_def bind_Some_iff)
  moreover have "out v3 = out v2" using v(3) by (auto simp: upd_acceptor_def bind_Some_iff)
  ultimately have "out v3 = out s" by simp
  moreover have "quietly unpack v3 w"
    using w by (auto simp: proposer_welcome_def bind_Some_iff continuation_new_def state_connect_def Let_def emit_def quietly_def
        split: if_splits)
  moreover have "quietly unpack w t" unfolding t [symmetric] by (rule quietly_emit) simp
  ultimately have "quietly unpack s t" by (metis quietly_same quietly_trans)
  with learn_join_frame [OF h] show ?thesis by (auto intro: still_frame)
qed

lemma learn_part_still: "learn_part n s = Some (r, t) \<Longrightarrow> still unpack s t"
proof -
  assume h: "learn_part n s = Some (r, t)"
  then obtain found where found: "acceptor_find (paxid_of s) (alist s) n = Some found" by (auto simp: learn_part_def bind_Some_iff)
  show ?thesis
  proof (cases found)
    case None
    with h found show ?thesis by (simp add: learn_part_def)
  next
    case (Some a)
    with h found obtain acc where acc: "aheap s a = Some acc" by (auto simp: learn_part_def bind_Some_iff)
    let ?e = "emit (Learn_part (pa_desc acc) (pa_desc acc) (client_data s)) s"
    have e: "still unpack s ?e" by (rule still_emit) simp
    show ?thesis
    proof (cases "pa_paxid acc = self_id ?e")
      case True
      with h found Some acc have "paxos_end ?e = Some (r, t)" by (simp add: learn_part_def Let_def)
      with e show ?thesis by (blast intro: still_trans paxos_end_still)
    next
      case False
      with h found Some acc obtain u v where
        u: "part_unlink a ?e = Some u" and v: "part_reelect a u = Some (r, v)" and d: "acceptor_destroy a v = Some t"
        by (auto simp: learn_part_def Let_def bind_Some_iff)
      have "out u = out ?e" using u by (auto simp: part_unlink_def bind_Some_iff Let_def split: if_splits)
      with part_unlink_frame [OF u] have "still unpack ?e u" by (rule frame_out_still)
      moreover have "still unpack v t"
        using acceptor_destroy_frame [OF d] by (auto simp: still_def held_def kept_def hole_kept_marks intro: quietly_destroys)
      ultimately show ?thesis using e reelect_still [OF v] by (blast intro: still_trans)
    qed
  qed
qed

text \<open>Of learning, all but the hole is said here.\<close>

definition learns :: "paxos_session \<Rightarrow> paxos_session \<Rightarrow> bool" where
  "learns s t \<longleftrightarrow> quietly unpack s t \<and> (ended t \<or> kept s t)"

lemma learns_refl: "learns s s"
  by (auto simp: learns_def kept_def)

lemma learns_trans: "learns s t \<Longrightarrow> learns t v \<Longrightarrow> learns s v"
  by (auto simp: learns_def kept_def intro: quietly_trans)

lemma still_learns: "still unpack s t \<Longrightarrow> learns s t"
  by (auto simp: learns_def still_def held_def)

lemma paxos_learn_learns: "paxos_learn i req s = Some (r, t) \<Longrightarrow> learns s t"
proof -
  assume h: "paxos_learn i req s = Some (r, t)"
  then obtain v where v: "upd_instance i (\<lambda>x. x\<lparr>pi_learned := True\<rparr>) s = Some v" by (auto simp: paxos_learn_def bind_Some_iff)
  with h obtain x where x: "iheap v i = Some x" by (auto simp: paxos_learn_def bind_Some_iff)
  have chat: "still unpack v t" if "learn_chat req v = Some (r, t)"
    using learn_chat_frame [OF that] by (auto intro!: still_emit)
  have "still unpack v t"
    using h v x chat by (cases "pv_dkind (pi_val x)") (auto simp: paxos_learn_def intro: learn_join_still learn_part_still)
  moreover have "learns s v"
    using v by (auto simp: upd_instance_def bind_Some_iff learns_def kept_def entry_of_def intro: quietly_same)
  ultimately show ?thesis by (blast intro: learns_trans still_learns)
qed

lemma learn_loop_learns:
  assumes "learn_loop it s = Some (r, t)"
  shows "learns s t"
proof -
  have "learns s (s\<lparr>istart := p\<rparr>)" "learns s (s\<lparr>ihole := h\<rparr>)" for s p h by (auto simp: learns_def kept_def intro: quietly_same)
  from learn_loop_rel [where R = learns, OF learns_refl learns_trans this paxos_learn_learns assms] show ?thesis by simp
qed

lemma commit_cached_still: "commit_cached i s = Some (r, t) \<Longrightarrow> still unpack s t"
proof -
  assume h: "commit_cached i s = Some (r, t)"
  then obtain v x where v: "upd_instance i (\<lambda>x. x\<lparr>pi_cached := True\<rparr>) s = Some v" and x: "iheap v i = Some x"
    by (auto simp: commit_cached_def bind_Some_iff)
  have sv: "still unpack s v" by (rule still_upd_instance [OF v]) (simp add: entry_of_def marked_def)
  show ?thesis
  proof (cases "ph_inum (pi_hdr x) = ihole v")
    case True
    from commit_cached_loop [OF h True v x] obtain u st where u: "u = v \<or> (\<exists>nx. u = v\<lparr>istart := nx\<rparr>)"
      and l: "learn_loop (Some st) u = Some (r, t)" by metis
    have "learns v u" using u by (auto simp: learns_def kept_def intro: quietly_same)
    with learn_loop_learns [OF l] still_learns [OF sv] have "learns s t" by (blast intro: learns_trans)
    moreover have "hole_kept s t \<or> ended t" using commit_cached_hole [OF h] by (auto simp: hole_kept_def)
    ultimately show ?thesis by (auto simp: still_def held_def learns_def)
  next
    case False
    with h v x have "t = v \<or> acceptor_retry (ihole v) v = Some (r, t)"
      by (auto simp: commit_cached_def bind_Some_iff split: if_splits)
    with sv show ?thesis by (auto dest: outbound_still intro: still_trans)
  qed
qed

lemma commit_still: "paxos_commit i s = Some (r, t) \<Longrightarrow> still unpack s t"
proof -
  assume h: "paxos_commit i s = Some (r, t)"
  then obtain v where v: "upd_instance i (\<lambda>x. x\<lparr>pi_committed := True\<rparr>) s = Some v"
    and "paxos_retrieve i v = Some (r, t) \<or> commit_cached i v = Some (r, t)"
    by (auto simp: paxos_commit_def bind_Some_iff split: if_splits)
  then have "still unpack v t" by (auto intro: retrieve_still commit_cached_still)
  moreover have "still unpack s v" by (rule still_upd_instance [OF v]) (simp add: entry_of_def marked_def)
  ultimately show ?thesis by (blast intro: still_trans)
qed

end

end
