(* ===== verification/Told.thy ===== *)
theory Told
  imports Telling
begin

section \<open>What a participant says, and what it takes from others\<close>

text \<open>
  \<open>told u s t\<close>: going from \<open>s\<close> to \<open>t\<close>, a participant loses and changes no entry of its log, new entries
  have greater numbers, the hole stays in order, and every message it sends that tells an entry tells one of its log.  The proposer's operations are like that.
  \<open>heeds u s t E\<close>: it sends nothing that tells an entry, and its log has no entries but old ones and those
  in \<open>E\<close>, which come from the message.  The acceptor's operations are like that.
\<close>

definition log_of :: "paxos_session \<Rightarrow> entry set" where
  "log_of s = {entry_of x | i x. i \<in> set (ilist s) \<and> iheap s i = Some x}"

definition going :: "paxos_session \<Rightarrow> bool" where
  "going s \<longleftrightarrow> log_wf s \<and> \<not> ended s"

definition top_free :: "paxos_session \<Rightarrow> bool" where
  "top_free s \<longleftrightarrow> (\<forall>e\<in>log_of s. fst e \<noteq> - 1)"

definition ascending :: "paxos_instance list \<Rightarrow> bool" where
  "ascending xs \<longleftrightarrow> sorted_wrt (<) (map (\<lambda>x. ph_inum (pi_hdr x)) xs)"

definition honest :: "(pcall list \<Rightarrow> mobj list option) \<Rightarrow> entry set \<Rightarrow> paxos_yak \<Rightarrow> bool" where
  "honest u G py \<longleftrightarrow> (\<forall>e. tells u py e \<longrightarrow> e \<in> G) \<and>
     (\<forall>xs. welcomes u py xs \<longrightarrow> ascending xs \<and> entry_of ` set xs \<subseteq> G)"

definition above :: "entry set \<Rightarrow> entry \<Rightarrow> bool" where
  "above L e \<longleftrightarrow> (\<forall>e'\<in>L. fst e' < fst e)"

definition grown :: "paxos_session \<Rightarrow> paxos_session \<Rightarrow> bool" where
  "grown s t \<longleftrightarrow> log_of s \<subseteq> log_of t \<and> (\<forall>e\<in>log_of t. e \<in> log_of s \<or> above (log_of s) e)"

definition told :: "(pcall list \<Rightarrow> mobj list option) \<Rightarrow> paxos_session \<Rightarrow> paxos_session \<Rightarrow> bool" where
  "told u s t \<longleftrightarrow> log_step s t \<and> (going s \<longrightarrow> \<not> ended t \<longrightarrow> top_free t \<longrightarrow> grown s t \<and> (hole_ok s \<longrightarrow> hole_ok t) \<and>
     (\<exists>es. out t = out s @ es \<and> (\<forall>q py. Send q py \<in> set es \<longrightarrow> honest u (log_of t) py)))"

definition heeds :: "(pcall list \<Rightarrow> mobj list option) \<Rightarrow> entry set \<Rightarrow> paxos_session \<Rightarrow> paxos_session \<Rightarrow> bool" where
  "heeds u E s t \<longleftrightarrow> (going s \<longrightarrow> quietly u s t \<and> (\<not> ended t \<longrightarrow> log_of t \<subseteq> log_of s \<union> E))"

lemma grown_same [intro]: "log_of t = log_of s \<Longrightarrow> grown s t"
  by (simp add: grown_def)

lemma grown_trans: "grown s t \<Longrightarrow> grown t v \<Longrightarrow> grown s v"
  unfolding grown_def above_def by blast

lemma grown_log: "grown s t \<Longrightarrow> log_of s \<subseteq> log_of t"
  by (simp add: grown_def)

lemma honest_quiet: "quiet u py \<Longrightarrow> honest u G py"
  by (simp add: honest_def quiet_tells)

lemma honest_mono: "honest u G py \<Longrightarrow> G \<subseteq> H \<Longrightarrow> honest u H py"
  unfolding honest_def by blast

lemma top_free_mono: "top_free t \<Longrightarrow> log_of s \<subseteq> log_of t \<Longrightarrow> top_free s"
  by (auto simp: top_free_def)

lemma going_step: "log_step s t \<Longrightarrow> going s \<Longrightarrow> \<not> ended t \<Longrightarrow> going t"
  by (auto simp: going_def log_step_def log_inv_def)

lemma not_ended_before: "log_step s t \<Longrightarrow> going s \<Longrightarrow> log_step t v \<Longrightarrow> \<not> ended v \<Longrightarrow> \<not> ended t"
  by (auto simp: going_def log_step_def log_inv_def log_keep_def)

lemma told_refl [simp, intro]: "told u s s"
  by (auto simp: told_def)

lemma told_step: "told u s t \<Longrightarrow> log_step s t"
  by (simp add: told_def)

lemma told_trans:
  assumes "told u s t" "told u t v"
  shows "told u s v"
  unfolding told_def
proof (intro conjI impI)
  note st = told_step [OF assms(1)] told_step [OF assms(2)]
  then show "log_step s v" by (rule log_step_trans)
  assume h: "going s" "\<not> ended v" "top_free v"
  with st have t: "\<not> ended t" "going t" using not_ended_before going_step by blast+
  with h assms(2) obtain es where es: "grown t v" "hole_ok t \<longrightarrow> hole_ok v" "out v = out t @ es" "\<forall>q py. Send q py \<in> set es \<longrightarrow> honest u (log_of v) py"
    by (auto simp: told_def)
  with h t assms(1) obtain ds where ds: "grown s t" "hole_ok s \<longrightarrow> hole_ok t" "out t = out s @ ds" "\<forall>q py. Send q py \<in> set ds \<longrightarrow> honest u (log_of t) py"
    by (auto simp: told_def dest: top_free_mono [OF _ grown_log])
  show "grown s v" using ds(1) es(1) by (rule grown_trans)
  show "hole_ok v" if "hole_ok s" using that ds(2) es(2) by blast
  show "\<exists>fs. out v = out s @ fs \<and> (\<forall>q py. Send q py \<in> set fs \<longrightarrow> honest u (log_of v) py)"
    using ds es by (intro exI [of _ "ds @ es"]) (auto dest: honest_mono [OF _ grown_log])
qed

lemma held_log: "held s t \<Longrightarrow> log_wf s \<Longrightarrow> log_of t = log_of s"
proof -
  assume h: "held s t" and "log_wf s"
  then have "\<forall>j\<in>set (ilist s). map_option entry_of (iheap t j) = map_option entry_of (iheap s j)"
    by (auto simp: held_def kept_def log_wf_def)
  then have "entry_of ` {x. iheap t j = Some x} = entry_of ` {x. iheap s j = Some x}" if "j \<in> set (ilist s)" for j
    using that by (cases "iheap t j"; cases "iheap s j") force+
  moreover have "log_of v = (\<Union>j\<in>set (ilist v). entry_of ` {x. iheap v j = Some x})" for v by (auto simp: log_of_def)
  ultimately show ?thesis using h by (simp add: held_def kept_def)
qed

lemma still_log: "still u s t \<Longrightarrow> going s \<Longrightarrow> \<not> ended t \<Longrightarrow> log_of t = log_of s"
  by (auto simp: still_def going_def dest: held_log)

lemma still_told: "still u s t \<Longrightarrow> log_step s t \<Longrightarrow> told u s t"
  unfolding told_def using still_log [of u s t] held_hole [of s t] log_wf_ok [of s]
  by (auto simp: still_def quietly_def going_def intro!: honest_quiet)

lemma still_heeds: "still u s t \<Longrightarrow> heeds u E s t"
  using still_log [of u s t] by (auto simp: heeds_def still_def)

lemma heeds_then_still:
  assumes "heeds u E s t" "log_step s t" "still u t v" "log_step t v"
  shows "heeds u E s v"
  unfolding heeds_def
proof (intro impI conjI)
  assume s: "going s"
  with assms(1,3) show "quietly u s v" by (auto simp: heeds_def still_def intro: quietly_trans)
  assume v: "\<not> ended v"
  then have t: "\<not> ended t" using not_ended_before [OF assms(2) s assms(4)] by simp
  then have "going t" using going_step [OF assms(2) s] by simp
  from still_log [OF assms(3) this v] assms(1) s t show "log_of v \<subseteq> log_of s \<union> E" by (auto simp: heeds_def)
qed

text \<open>Quiet, and away from the hole.\<close>

definition aside :: "(pcall list \<Rightarrow> mobj list option) \<Rightarrow> paxos_session \<Rightarrow> paxos_session \<Rightarrow> bool" where
  "aside u s t \<longleftrightarrow> quietly u s t \<and> ihole t = ihole s \<and> istart t = istart s"

lemma aside_refl [simp, intro]: "aside u s s"
  by (simp add: aside_def)

lemma aside_trans: "aside u s t \<Longrightarrow> aside u t v \<Longrightarrow> aside u s v"
  by (auto simp: aside_def intro: quietly_trans)

lemma aside_same: "out t = out s \<Longrightarrow> ihole t = ihole s \<Longrightarrow> istart t = istart s \<Longrightarrow> aside u s t"
  by (simp add: aside_def quietly_same)

lemma aside_emits: "out t = out s @ [e] \<Longrightarrow> ihole t = ihole s \<Longrightarrow> istart t = istart s \<Longrightarrow> (\<And>q py. e \<noteq> Send q py) \<Longrightarrow> aside u s t"
  by (auto simp: aside_def quietly_def)

lemma aside_still: "log_same s t \<Longrightarrow> aside u s t \<Longrightarrow> still u s t"
  by (auto simp: aside_def still_def held_def kept_def hole_kept_marks log_same_def)

subsection \<open>Single steps on the log\<close>

definition log_except :: "iref \<Rightarrow> paxos_session \<Rightarrow> entry set" where
  "log_except i s = {entry_of x | j x. j \<in> set (ilist s) \<and> j \<noteq> i \<and> iheap s j = Some x}"

lemma log_except_log: "log_except i s \<subseteq> log_of s"
  unfolding log_except_def log_of_def by blast

lemma log_except_cong: "ilist t = ilist s \<Longrightarrow> \<forall>j. j \<noteq> i \<longrightarrow> iheap t j = iheap s j \<Longrightarrow> log_except i t = log_except i s"
  unfolding log_except_def by (rule Collect_cong) metis

lemma upd_log:
  assumes "upd_instance i f s = Some t" "i \<in> set (ilist s)"
  shows "\<exists>x. iheap s i = Some x \<and> log_of t \<subseteq> insert (entry_of (f x)) (log_except i s)"
proof -
  from assms(1) obtain x where x: "iheap s i = Some x" "t = s\<lparr>iheap := (iheap s)(i \<mapsto> f x)\<rparr>"
    by (auto simp: upd_instance_def bind_Some_iff)
  have "e = entry_of (f x) \<or> e \<in> log_except i s" if "e \<in> log_of t" for e
  proof -
    from that obtain j y where j: "e = entry_of y" "j \<in> set (ilist t)" "iheap t j = Some y" unfolding log_of_def by blast
    with x(2) show ?thesis unfolding log_except_def by (cases "j = i") auto
  qed
  with x(1) show ?thesis by auto
qed

lemma unlisted_still:
  assumes "upd_instance i f s = Some t" "i \<notin> set (ilist s)"
  shows "still u s t"
proof -
  from assms obtain x where t: "t = s\<lparr>iheap := (iheap s)(i \<mapsto> f x)\<rparr>" by (auto simp: upd_instance_def bind_Some_iff)
  then have "marks_kept s t" using assms(2) by (auto simp: marks_kept_def split: if_splits)
  with assms(2) show ?thesis unfolding t by (auto simp: still_def held_def kept_def hole_kept_def intro: quietly_same)
qed

lemma alloc_still: "alloc_instance x s = (i, t) \<Longrightarrow> still u s t"
  by (auto simp: alloc_instance_def intro: still_same)

lemma insert_log:
  assumes "instance_insert_and_upstart i s = Some t" "log_wf s" "iheap s i = Some x"
  shows "log_of s \<subseteq> log_of t" "log_of t \<subseteq> insert (entry_of x) (log_of s)" "out t = out s" "iheap t = iheap s"
    "log_except i t \<subseteq> log_of s" "\<forall>j\<in>set (ilist s). inum_of s j \<noteq> Some (ph_inum (pi_hdr x)) \<Longrightarrow> i \<in> set (ilist t)"
    "set (ilist s) \<subseteq> set (ilist t)" "set (ilist t) \<subseteq> insert i (set (ilist s))"
proof -
  from assms(1,3) obtain xs r where ins: "instance_insert (inum_of s) (ilist s) i = Some (xs, r)"
    and t: "t = (if ph_inum (pi_hdr x) = ihole s then s\<lparr>ilist := xs, istart := Some i\<rparr> else s\<lparr>ilist := xs\<rparr>)"
    by (auto simp: instance_insert_and_upstart_def bind_Some_iff Let_def)
  have ord: "ordered paxid_compare (inum_of s) (ilist s)" using assms(2) by (simp add: log_wf_def)
  have k: "inum_of s i = Some (ph_inum (pi_hdr x))" using assms(3) by (simp add: inum_of_def)
  show "out t = out s" "iheap t = iheap s" using t by simp_all
  have l: "ilist t = xs" using t by simp
  from ord k have "set (ilist s) \<subseteq> set xs \<and> set xs \<subseteq> insert i (set (ilist s))"
  proof (rule instances.insert_cases)
    fix y assume "instance_insert (inum_of s) (ilist s) i = Some (ilist s, y)"
    from trans [OF ins [symmetric] this] show ?thesis by auto
  next
    fix ys zs assume yz: "ilist s = ys @ zs" "instance_insert (inum_of s) (ilist s) i = Some (ys @ i # zs, i)"
    from trans [OF ins [symmetric] yz(2)] yz(1) show ?thesis by auto
  qed
  then have xs: "set (ilist s) \<subseteq> set xs" "set xs \<subseteq> insert i (set (ilist s))" by blast+
  have m: "set (ilist t) = set xs" "iheap t = iheap s" using t by simp_all
  show "log_of s \<subseteq> log_of t" using xs(1) unfolding log_of_def m by blast
  show "set (ilist s) \<subseteq> set (ilist t)" "set (ilist t) \<subseteq> insert i (set (ilist s))" using xs m by simp_all
  show "log_of t \<subseteq> insert (entry_of x) (log_of s)"
  proof
    fix e assume "e \<in> log_of t"
    then obtain j y where j: "e = entry_of y" "j \<in> set xs" "iheap s j = Some y" unfolding log_of_def m by blast
    with xs(2) assms(3) show "e \<in> insert (entry_of x) (log_of s)" by (cases "j = i") (auto simp: log_of_def)
  qed
  show "log_except i t \<subseteq> log_of s" using xs(2) unfolding log_except_def log_of_def m by blast
  show "i \<in> set (ilist t)" if "\<forall>j\<in>set (ilist s). inum_of s j \<noteq> Some (ph_inum (pi_hdr x))"
    using instances.insert_length [OF ord k that ins] instances.insert_set [OF ord _ ins] k l by simp
qed

text \<open>An instance above all others, not learned, goes in: it is not below the hole.\<close>

lemma insert_hole:
  assumes "instance_insert_and_upstart i s = Some t" "log_wf s" "iheap s i = Some x" "above (log_of s) (entry_of x)" "hole_ok s"
    "\<not> pi_learned x" "top_free t"
  shows "hole_ok t"
proof -
  note ins = insert_log [OF assms(1-3)]
  from assms(1,3) obtain xs where t: "ihole t = ihole s" "istart t = (if ph_inum (pi_hdr x) = ihole s then Some i else istart s)"
    by (auto simp: instance_insert_and_upstart_def bind_Some_iff Let_def)
  have below: "k < ph_inum (pi_hdr x)" if j: "j \<in> set (ilist s)" "inum_of s j = Some k" for j k
  proof -
    obtain y where y: "iheap s j = Some y" "k = ph_inum (pi_hdr y)" using j(2) by (auto simp: inum_of_def)
    have "entry_of y \<in> log_of s" using j(1) y(1) unfolding log_of_def by blast
    then have "fst (entry_of y) < fst (entry_of x)" using assms(4) unfolding above_def by blast
    then show ?thesis using y(2) by (simp add: entry_of_def)
  qed
  then have i: "i \<in> set (ilist t)" by (intro ins(6)) fastforce
  have sub: "set (ilist s) \<subseteq> set (ilist t)" by (rule ins(7))
  have nums: "inum_of t j = inum_of s j" for j using ins(4) by (simp add: inum_of_def)
  have n: "inum_of s i = Some (ph_inum (pi_hdr x))" using assms(3) by (simp add: inum_of_def)
  from assms(5) obtain j where j: "j \<in> set (ilist s)" "inum_of s j = Some (ihole s - 1)" by (auto simp: hole_ok_def before_hole_def)
  have "entry_of x \<in> log_of t" using i ins(4) assms(3) unfolding log_of_def by auto
  then have "fst (entry_of x) \<noteq> - 1" using assms(7) unfolding top_free_def by blast
  then have top: "ph_inum (pi_hdr x) \<noteq> - 1" by (simp add: entry_of_def)
  have "\<not> ph_inum (pi_hdr x) < ihole s"
  proof
    assume "ph_inum (pi_hdr x) < ihole s"
    moreover have prev: "ihole s - 1 < ph_inum (pi_hdr x)" by (rule below [OF j])
    then have "ihole s - 1 \<noteq> - 1" by (metis not_less word_order.extremum)
    from next_word [OF this] prev have "ihole s \<le> ph_inum (pi_hdr x)" by simp
    ultimately show False by simp
  qed
  then have new: "settled (ihole t) x" using assms(6) top t(1) by (simp add: settled_def)
  have "settled (ihole t) y" if l: "l \<in> set (ilist t)" "iheap t l = Some y" for l y
  proof (cases "l = i")
    case True
    with new l(2) assms(3) ins(4) show ?thesis by simp
  next
    case False
    with l(1) ins(8) have "l \<in> set (ilist s)" by blast
    then show ?thesis using assms(5) l(2) ins(4) t(1) by (simp add: hole_ok_def before_hole_def)
  qed
  moreover have "start_ok t" using assms(5) t sub i n unfolding hole_ok_def start_ok_def nums by (auto split: if_splits)
  moreover have "\<exists>j\<in>set (ilist t). inum_of t j = Some (ihole t - 1)" using j sub nums t(1) by (intro bexI [of _ j]) auto
  ultimately show ?thesis unfolding hole_ok_def before_hole_def by blast
qed

subsection \<open>The proposer\<close>

lemma next_fresh:
  assumes "next_instance s = Some n" "log_wf s" "top_free s"
  shows "\<forall>j\<in>set (ilist s). \<exists>k. inum_of s j = Some k \<and> k < n"
proof (cases "ilist s" rule: rev_cases)
  case (snoc js l)
  with assms(1) obtain x where x: "iheap s l = Some x" "n = ph_inum (pi_hdr x) + 1"
    by (auto simp: next_instance_def bind_Some_iff)
  have "entry_of x \<in> log_of s" using snoc x by (auto simp: log_of_def)
  with assms(3) have "fst (entry_of x) \<noteq> - 1" unfolding top_free_def by blast
  then have top: "ph_inum (pi_hdr x) \<noteq> - 1" by (simp add: entry_of_def)
  have "the (inum_of s j) \<le> ph_inum (pi_hdr x)" if "j \<in> set (ilist s)" for j
    using that assms(2) snoc x(1) by (auto simp: log_wf_def ordered_def sorted_wrt_append inum_of_def)
  moreover have "\<exists>k. inum_of s j = Some k" if "j \<in> set (ilist s)" for j using that assms(2) by (auto simp: log_wf_def ordered_def)
  ultimately show ?thesis using next_word [OF top] x(2) by fastforce
qed simp

lemma log_of_nums: "\<forall>j\<in>set (ilist s). \<exists>k. inum_of s j = Some k \<and> k < fst e \<Longrightarrow> above (log_of s) e"
  unfolding above_def log_of_def by (force simp: inum_of_def entry_of_def)

context msgpack_unpacker
begin

lemma instance_honest: "i \<in> set (ilist s) \<Longrightarrow> iheap s i = Some x \<Longrightarrow> honest unpack (log_of s) (instance_message x)"
  using instance_message_tells [of x] value_message_welcomes [of "pi_hdr x" "pi_val x"]
  unfolding honest_def log_of_def instance_message_def [symmetric] by blast

lemma mails_told:
  assumes "mails py s t" "honest unpack (log_of s) py"
  shows "told unpack s t"
proof -
  from assms(1) obtain qs where t: "t = s\<lparr>out := out s @ map (\<lambda>q. Send q py) qs\<rparr>" by (auto simp: mails_def)
  have "log_of t = log_of s" by (simp add: log_of_def t)
  then have "honest unpack (log_of t) py" using assms(2) by simp
  moreover have "log_step s t" by (rule log_same_step) (simp add: log_same_def t)
  moreover have "hole_ok t" if "hole_ok s" "log_ok s"
    by (rule hole_ok_cong [OF that]) (simp_all add: t inum_of_def marks_kept_def)
  moreover have "log_ok s" if "going s" using log_wf_ok [of s] that by (simp add: going_def nums_ok_def)
  ultimately show ?thesis using \<open>log_of t = log_of s\<close> by (auto simp: told_def t)
qed

lemma broadcast_instance_told:
  "paxos_broadcast_instance i s = Some (r, t) \<Longrightarrow> i \<in> set (ilist s) \<Longrightarrow> told unpack s t"
  by (auto simp: paxos_broadcast_instance_def bind_Some_iff dest!: broadcast_mails intro: mails_told instance_honest)

lemma proposer_commit_told:
  assumes "proposer_commit i s = Some (r, t)" "i \<in> set (ilist s)"
  shows "told unpack s t"
proof -
  from assms(1) obtain v c u where
    v: "upd_instance i (\<lambda>x. x\<lparr>pi_hdr := (pi_hdr x)\<lparr>ph_opcode := OP_COMMIT\<rparr>\<rparr>) s = Some v"
    and u: "paxos_broadcast_instance i v = Some (c, u)"
    and rest: "(if c \<noteq> 0 then Some (c, u) else paxos_commit i u) = Some (r, t)"
    by (simp add: proposer_commit_def bind_Some_iff split del: if_split) blast
  have "told unpack s v"
    by (rule still_told [OF still_upd_instance [OF v] upd_instance_step [OF v]]) (auto simp: entry_of_def marked_def same_decree_def)
  moreover have "told unpack v u" by (rule broadcast_instance_told [OF u]) (use upd_instance_lists [OF v] assms(2) in simp)
  moreover have "told unpack u t" using rest by (auto intro: still_told commit_still paxos_commit_step split: if_splits)
  ultimately show ?thesis by (blast intro: told_trans)
qed

lemma sends_held: "sends_only s t \<Longrightarrow> \<not> ended s \<Longrightarrow> held s t"
  by (auto simp: sends_only_def held_def kept_def hole_kept_marks)

lemma commit_held:
  assumes "proposer_commit i s = Some (r, t)" "\<not> ended t"
  shows "held s t"
proof -
  from assms(1) obtain v c u where
    v: "upd_instance i (\<lambda>x. x\<lparr>pi_hdr := (pi_hdr x)\<lparr>ph_opcode := OP_COMMIT\<rparr>\<rparr>) s = Some v"
    and u: "paxos_broadcast_instance i v = Some (c, u)"
    and rest: "(if c \<noteq> 0 then Some (c, u) else paxos_commit i u) = Some (r, t)"
    by (simp add: proposer_commit_def bind_Some_iff split del: if_split) blast
  have "still unpack s v" by (rule still_upd_instance [OF v]) (simp add: entry_of_def marked_def)
  moreover have "c = 0" "sends_only v u" using paxos_broadcast_instance_effect [OF u] by auto
  moreover have "still unpack u t" using rest by (auto intro: commit_still split: if_splits)
  moreover have "ended u = ended v" using \<open>sends_only v u\<close> by (auto simp: sends_only_def)
  ultimately show ?thesis using assms(2) sends_held [of v u] held_alive [of u t] unfolding still_def by (blast intro: held_trans)
qed

text \<open>A decree adds one entry and tells it.\<close>

lemma insert_told:
  assumes "instance_insert_and_upstart i s = Some t" "iheap s i = Some x" "unlisted i s"
    "going s \<Longrightarrow> above (log_of s) (entry_of x)" "\<not> pi_learned x"
  shows "told unpack s t"
proof -
  have "log_step s t" by (rule insert_upstart_step [OF assms(1)]) (rule assms(3))
  moreover have "grown s t \<and> out t = out s" if "going s"
    using insert_log(1-3) [OF assms(1) _ assms(2)] assms(4) that unfolding grown_def going_def by blast
  moreover have "hole_ok t" if "going s" "hole_ok s" "top_free t"
    using insert_hole [OF assms(1) _ assms(2)] assms(4,5) that by (simp add: going_def)
  ultimately show ?thesis by (simp add: told_def)
qed

lemma toldI: "log_step s t \<Longrightarrow> (going s \<Longrightarrow> \<not> ended t \<Longrightarrow> top_free t \<Longrightarrow> told u s t) \<Longrightarrow> told u s t"
  by (auto simp: told_def)

lemma proposer_decree_told:
  assumes "proposer_decree i s = Some (r, t)" "unlisted i s"
  shows "told unpack s t"
proof -
  from assms(1) obtain n v u c w where n: "next_instance s = Some n"
    and v: "upd_instance i (\<lambda>x. instance_init_metadata (x\<lparr>pi_hdr := header_init s OP_DECREE n\<rparr>)) s = Some v"
    and u: "instance_insert_and_upstart i v = Some u"
    and w: "paxos_broadcast_instance i u = Some (c, w)"
    and rest: "(if c \<noteq> 0 then Some (c, w) else iheap w i \<bind>
      (\<lambda>inst. if pi_votes inst \<ge> majority w then proposer_commit i w else Some (0, w))) = Some (r, t)"
    by (simp add: proposer_decree_def bind_Some_iff split del: if_split) blast
  note st = upd_unlisted_step [OF v assms(2)]
  from v obtain x where x: "iheap v i = Some x" "ph_inum (pi_hdr x) = n" "\<not> pi_learned x"
    by (auto simp: upd_instance_def bind_Some_iff instance_init_metadata_def header_init_def)
  have c: "c = 0" "sends_only u w" using paxos_broadcast_instance_effect [OF w] by auto
  have su: "log_step v u" by (rule insert_upstart_step [OF u]) (rule st(2))
  have wt: "log_step w t" using rest by (auto simp: bind_Some_iff intro: proposer_commit_step split: if_splits)
  have all: "log_step s t" by (rule proposer_decree_step [OF assms(1)]) (rule assms(2))
  show ?thesis
  proof (rule toldI [OF all])
    assume s: "going s" and t: "\<not> ended t" "top_free t"
    have vi: "i \<notin> set (ilist s)" using assms(2) s by (auto simp: unlisted_def going_def)
    have sv: "still unpack s v" by (rule unlisted_still [OF v vi])
    have uw: "log_step u w" using c(2) by (rule sends_only_step)
    have ends: "\<not> ended w" "\<not> ended u" "\<not> ended v"
    proof -
      note sw = log_step_trans [OF log_step_trans [OF st(1) su] uw]
      show w: "\<not> ended w" by (rule not_ended_before [OF sw s wt t(1)])
      show u: "\<not> ended u" by (rule not_ended_before [OF log_step_trans [OF st(1) su] s uw w])
      show "\<not> ended v" by (rule not_ended_before [OF st(1) s su u])
    qed
    have gv: "going v" by (rule going_step [OF st(1) s ends(3)])
    have same: "log_of v = log_of s" by (rule still_log [OF sv s ends(3)])
    have gu: "going u" by (rule going_step [OF su gv ends(2)])
    have hold: "held u t" using rest c t(1) ends(2)
      by (auto simp: bind_Some_iff dest: sends_held commit_held intro: held_trans split: if_splits)
    have "log_of t = log_of u" using held_log [OF hold] gu by (simp add: going_def)
    moreover have "log_of v \<subseteq> log_of u" using insert_log(1) [OF u _ x(1)] gv by (simp add: going_def)
    ultimately have "top_free v" using t(2) top_free_mono by blast
    then have "top_free s" using same by (simp add: top_free_def)
    moreover have "inum_of v j = inum_of s j" if "j \<in> set (ilist s)" for j
      using that v vi by (auto simp: upd_instance_def bind_Some_iff inum_of_def)
    ultimately have new: "\<forall>j\<in>set (ilist v). \<exists>k. inum_of v j = Some k \<and> k < ph_inum (pi_hdr x)"
      using next_fresh [OF n] s x(2) upd_instance_lists [OF v] by (auto simp: going_def)
    then have iu: "i \<in> set (ilist u)" using insert_log(6) [OF u _ x(1)] gv by (fastforce simp: going_def)
    have vu: "told unpack v u"
      by (rule insert_told [OF u x(1) st(2) log_of_nums x(3)]) (use new in \<open>simp add: entry_of_def\<close>)
    have iw: "i \<in> set (ilist w)" using c(2) iu by (auto simp: sends_only_def)
    have "told unpack w t" using rest c(1) iw by (auto simp: bind_Some_iff intro: proposer_commit_told split: if_splits)
    with vu broadcast_instance_told [OF w iu] still_told [OF sv st(1)]
    show "told unpack s t" by (blast intro: told_trans)
  qed
qed

end

end
