(* ===== verification/Told_Handlers.thy ===== *)
theory Told_Handlers
  imports Told Commit_Facts
begin

section \<open>The handlers\<close>

text \<open>Every operation of a participant is still, told or heeds its message.\<close>

subsection \<open>Operations that leave the log alone\<close>

lemma still_trans_same: "log_same s t \<Longrightarrow> aside u s t \<Longrightarrow> still u t v \<Longrightarrow> still u s v"
  by (rule still_trans [OF aside_still])

lemma attach_still: "attach_peer chan a s = Some (p, t) \<Longrightarrow> still u s t"
proof (rule aside_still [OF attach_peer_same])
  show "attach_peer chan a s = Some (p, t) \<Longrightarrow> aside u s t"
    by (cases chan) (auto simp: attach_peer_def paxos_peer_init_def bind_Some_iff upd_acceptor_def emit_def
        intro: aside_same aside_emits)
qed

lemma reconnect_still: "reconnect f d acc s = Some (r, t) \<Longrightarrow> still u s t"
proof (rule aside_still [OF reconnect_same])
  show "reconnect f d acc s = Some (r, t) \<Longrightarrow> aside u s t"
    by (auto simp: reconnect_def continuation_new_def state_connect_def continuation_bind_def Let_def emit_def
        intro: aside_emits)
qed

lemma cache_still: "cache_request req s = Some t \<Longrightarrow> still u s t"
  by (rule aside_still [OF cache_request_same]) (auto simp: cache_request_def bind_Some_iff intro: aside_same)

lemma hello_still: "paxos_ack_hello src hdr s = Some (r, t) \<Longrightarrow> still u s t"
proof (rule aside_still [OF paxos_ack_hello_same])
  assume h: "paxos_ack_hello src hdr s = Some (r, t)"
  have 1: "aside u s v" if "hello_attach src a s = Some v" for v a s
    using hello_attach_frame [OF that] by (auto intro: aside_same)
  have 2: "aside u s v" if "hello_switch src a s = Some v" for v a s
    using that by (auto simp: hello_switch_def bind_Some_iff upd_acceptor_def paxos_peer_destroy_def emit_def aside_def quietly_def
        split: option.splits)
  have 3: "aside u s v" if "hello_ballot hdr s = Some v" for v s
    using that by (intro aside_same) (auto simp: hello_ballot_def bind_Some_iff split: if_splits)
  have 4: "aside u s v" if "hello_defer src n s = Some (c, v)" for v c n
    using that by (intro aside_same) (auto simp: hello_defer_def alloc_acceptor_def bind_Some_iff)
  from h obtain isp where isp: "is_proposer s = Some isp" by (auto simp: paxos_ack_hello_def bind_Some_iff)
  show "aside u s t"
  proof (cases "isp \<and> prep s = None \<and> ph_inum hdr < self_id s")
    case True
    with h isp show ?thesis by (simp add: paxos_ack_hello_def)
  next
    case False
    with h isp obtain found where f: "acceptor_find (paxid_of s) (alist s) (ph_inum hdr) = Some found"
      and rest: "(case found of None \<Rightarrow> hello_defer src (ph_inum hdr) s
        | Some a \<Rightarrow> aheap s a \<bind> (\<lambda>acc. (if pa_peer acc = None then hello_attach src a s
          else if ph_inum hdr < self_id s then hello_switch src a s else Some s) \<bind>
            (\<lambda>s. hello_ballot hdr s \<bind> (\<lambda>s. Some (0, s))))) = Some (r, t)"
      by (simp add: paxos_ack_hello_def bind_Some_iff split del: if_split) blast
    show ?thesis
    proof (cases found)
      case None
      with rest show ?thesis by (auto intro: 4)
    next
      case (Some a)
      with rest obtain acc :: paxos_acceptor and v where v: "(if pa_peer acc = None then hello_attach src a s
          else if ph_inum hdr < self_id s then hello_switch src a s else Some s) = Some v" and b: "hello_ballot hdr v = Some t"
        by (auto simp: bind_Some_iff split del: if_split)
      from v have "aside u s v" by (auto split: if_splits intro: 1 2)
      with 3 [OF b] show ?thesis by (blast intro: aside_trans)
    qed
  qed
qed

lemma idefer_destroy_still:
  assumes "idefer_destroy s = Some t" "log_wf s \<or> ended s"
  shows "still u s t"
proof -
  from assms(1) have t: "t = s\<lparr>iheap := (\<lambda>i. if i \<in> set (idefer s) then None else iheap s i), idefer := []\<rparr>"
    by (auto simp: idefer_destroy_def bind_Some_iff dest!: container_destroy_frame)
  have *: "j \<notin> set (idefer s)" if "j \<in> set (ilist s)" "log_wf s" for j using that by (auto simp: log_wf_def)
  then have "marks_kept s t" if "log_wf s" using that unfolding t by (auto simp: marks_kept_def split: if_splits)
  with assms(2) * show ?thesis unfolding t by (auto simp: still_def held_def kept_def hole_kept_def intro: quietly_same)
qed

context msgpack_unpacker
begin

lemma resend_still: "paxos_ack_resend hdr o1 s = Some (r, t) \<Longrightarrow> still unpack s t"
proof -
  assume "paxos_ack_resend hdr o1 s = Some (r, t)"
  then have "t = s \<or> (\<exists>i rid v. resend_cache o1 rid s = Some v \<and> paxos_commit i v = Some (r, t))"
    by (fastforce simp: paxos_ack_resend_def bind_Some_iff split: if_splits option.splits)
  moreover have "still unpack s v" if "resend_cache o1 rid s = Some v" for v rid
    using that by (auto simp: resend_cache_def bind_Some_iff dest: cache_still split: option.splits)
  ultimately show ?thesis by (blast intro: commit_still still_trans)
qed

lemma ack_request_still: "acceptor_ack_request src hdr o1 s = Some (r, t) \<Longrightarrow> still unpack s t"
  by (auto simp: acceptor_ack_request_def bind_Some_iff split: if_splits
      dest!: cache_still [where u = unpack] dest: outbound_still intro: still_trans)

lemma ack_refuse_still: "acceptor_ack_refuse hdr o1 s = Some (r, t) \<Longrightarrow> still unpack s t"
  by (auto simp: acceptor_ack_refuse_def bind_Some_iff dest: reconnect_still split: if_splits)

lemma ack_prepare_still: "acceptor_ack_prepare src hdr s = Some (r, t) \<Longrightarrow> still unpack s t"
proof -
  assume "acceptor_ack_prepare src hdr s = Some (r, t)"
  then consider "acceptor_redirect src hdr s = Some (r, t)" | "acceptor_promise hdr s = Some (r, t)"
    by (auto simp: acceptor_ack_prepare_def bind_Some_iff split: if_splits)
  then show ?thesis
  proof cases
    case 2
    let ?s = "s\<lparr>ballot := PPair (pid (ph_ballot hdr)) (gen (ph_ballot hdr)), gen_high := gen (ph_ballot hdr)\<rparr>"
    have "still unpack ?s t" using 2
      by (auto simp: acceptor_promise_def bind_Some_iff Let_def dest!: to_proposer_mails intro: mails_still)
    moreover have "still unpack s ?s" by (rule still_same) simp_all
    ultimately show ?thesis by (blast intro: still_trans)
  qed (rule outbound_still)
qed

lemma send_request_still: "send_request (header_init v OP_REQUEST n) req b s = Some (r, t) \<Longrightarrow> still unpack s t"
  by (auto simp: send_request_def bind_Some_iff split: if_splits dest!: all_mails intro: mails_still)

lemma sync_session_still: "sync_session s = Some (r, t) \<Longrightarrow> still unpack s t"
proof -
  have start: "still unpack v w" if "start_sync v = Some (c, w)" for c v w
  proof -
    from that have "still unpack (v\<lparr>sync := Some \<lparr>ps_total = list_count (alist v), ps_acks = 1, ps_skips = 0, ps_last = 0\<rparr>,
        sync_id := sync_id v + 1\<rparr>) w"
      by (auto simp: start_sync_def Let_def dest!: broadcast_mails intro: mails_still)
    then show ?thesis by (rule still_trans [OF still_same, rotated 7]) simp_all
  qed
  have "still unpack s v" if "proposer_sync s = Some (c, v)" for c v
  proof (cases "sync s")
    case None
    with that start show ?thesis by (auto simp: proposer_sync_def split: if_splits)
  next
    case (Some y)
    let ?t = "s\<lparr>sync := Some (y\<lparr>ps_skips := ps_skips y + 1\<rparr>)\<rparr>"
    have 1: "still unpack s ?t" by (rule still_same) simp_all
    from that Some have "v = s \<or> v = ?t \<or> start_sync ?t = Some (c, v)"
      by (auto simp: proposer_sync_def Let_def split: if_splits)
    then show ?thesis using 1 start still_trans by blast
  qed
  then show "sync_session s = Some (r, t) \<Longrightarrow> still unpack s t" by (auto simp: sync_session_def bind_Some_iff split: if_splits)
qed

text \<open>The continuations, and a lost connection.\<close>

lemma live_count_still: "still u s (s\<lparr>live_count := n\<rparr>)"
  by (rule still_same) simp_all

lemma continue_ack_welcome_still: "do_continue_ack_welcome chan a k s = Some (r, t) \<Longrightarrow> still unpack s t"
proof -
  assume "do_continue_ack_welcome chan a k s = Some (r, t)"
  then obtain p v where v: "attach_peer chan a s = Some (p, v)"
    and rest: "t = v \<or> paxos_hello a (v\<lparr>live_count := live_count v + 1\<rparr>) = Some (r, t)"
    by (auto simp: do_continue_ack_welcome_def bind_Some_iff split: if_splits)
  have "still unpack v t" using rest by (auto intro: still_trans [OF live_count_still] outbound_still)
  with attach_still [OF v] show ?thesis by (rule still_trans)
qed

lemma redirect_connected_heeds: "redirect_connected a s = Some (r, t) \<Longrightarrow> log_inv s \<Longrightarrow> still unpack s t"
proof -
  assume h: "redirect_connected a s = Some (r, t)" and inv: "log_inv s"
  let ?s = "s\<lparr>live_count := live_count s + 1\<rparr>"
  from h obtain b v where v: "idefer_destroy (if b then ?s\<lparr>proposer := Some a\<rparr> else ?s) = Some v"
    and w: "paxos_hello a v = Some (r, t)"
    by (simp add: redirect_connected_def bind_Some_iff Let_def split del: if_split) blast
  let ?u = "if b then ?s\<lparr>proposer := Some a\<rparr> else ?s"
  have "still unpack s ?u" by (rule still_same) simp_all
  moreover have "log_wf ?u \<or> ended ?u" using inv by (auto simp: log_inv_def log_wf_def inum_of_def [abs_def])
  then have "still unpack ?u v" by (rule idefer_destroy_still [OF v])
  moreover have "still unpack v t" by (rule outbound_still(8) [OF w])
  ultimately show ?thesis by (blast intro: still_trans)
qed

lemma continue_ack_redirect_still:
  assumes "do_continue_ack_redirect chan a k s = Some (r, t)" "log_inv s"
  shows "still unpack s t"
proof (cases "t = s")
  case False
  with assms(1) obtain p v where v: "attach_peer chan a (s\<lparr>prep := None\<rparr>) = Some (p, v)"
    and rest: "proposer_prepare None v = Some (r, t) \<or> redirect_connected a v = Some (r, t)"
    by (auto simp: do_continue_ack_redirect_def bind_Some_iff split: if_splits)
  have "log_same s (s\<lparr>prep := None\<rparr>)" by (simp add: log_same_def)
  then have "log_same s v" using attach_peer_same [OF v] by (rule log_same_trans)
  then have "log_inv v" using assms(2) by (rule log_inv_same)
  with rest have "still unpack v t" by (auto intro: prepare_still redirect_connected_heeds)
  moreover have "still unpack s (s\<lparr>prep := None\<rparr>)" by (rule still_same) simp_all
  ultimately show ?thesis using attach_still [OF v] by (blast intro: still_trans)
qed simp

lemma refuse_resend_still: "refuse_resend a k s = Some (r, t) \<Longrightarrow> still unpack s t"
proof -
  assume "refuse_resend a k s = Some (r, t)"
  then have "still unpack (s\<lparr>proposer := Some a\<rparr>) t"
    by (auto simp: refuse_resend_def bind_Some_iff Let_def dest!: to_proposer_mails intro: mails_still)
  moreover have "still unpack s (s\<lparr>proposer := Some a\<rparr>)" by (rule still_same) simp_all
  ultimately show ?thesis by (blast intro: still_trans)
qed

lemma continue_ack_refuse_still:
  assumes "do_continue_ack_refuse chan a k s = Some (r, t)" "log_inv s"
  shows "still unpack s t"
proof (cases "t = s")
  case False
  with assms(1) obtain p v where v: "attach_peer chan a s = Some (p, v)"
    and rest: "t = v \<or> refuse_connected a k v = Some (r, t)"
    by (auto simp: do_continue_ack_refuse_def bind_Some_iff split: if_splits)
  have "still unpack v t" if h: "refuse_connected a k v = Some (r, t)"
  proof -
    let ?u = "v\<lparr>live_count := live_count v + 1, prep := None\<rparr>"
    from h obtain c w x where w: "idefer_destroy ?u = Some w"
      and x: "paxos_hello a w = Some (c, x)" and last: "t = x \<or> (\<exists>d. refuse_resend a k x = Some (d, t))"
      by (auto simp: refuse_connected_def bind_Some_iff split: if_splits)
    have "log_same s ?u" using attach_peer_same [OF v] by (rule log_same_trans) (simp add: log_same_def)
    then have "log_wf ?u \<or> ended ?u" using log_inv_same assms(2) unfolding log_inv_def by blast
    then have "still unpack ?u w" by (rule idefer_destroy_still [OF w])
    moreover have "still unpack v ?u" by (rule still_same) simp_all
    moreover have "still unpack x t" using last by (auto intro: refuse_resend_still)
    ultimately show ?thesis using outbound_still(8) [OF x] by (blast intro: still_trans)
  qed
  with rest have "still unpack v t" by auto
  with attach_still [OF v] show ?thesis by (rule still_trans)
qed simp

lemma drop_acceptor_still:
  assumes "drop_session q a s = Some (r, t)" "is_proposer s \<noteq> Some True"
  shows "still unpack s t"
proof -
  from assms(1) obtain v p where v: "upd_acceptor a (\<lambda>x. x\<lparr>pa_peer := None\<rparr>) (paxos_peer_destroy (Some q) s) = Some v"
    and p: "is_proposer (v\<lparr>live_count := live_count v - 1\<rparr>) = Some p"
    and rest: "(if p then proposer_decree_part a False (v\<lparr>live_count := live_count v - 1\<rparr>)
      else part_reelect a (v\<lparr>live_count := live_count v - 1\<rparr>)) = Some (r, t)"
    by (auto simp: drop_session_def bind_Some_iff Let_def split del: if_split)
  have "is_proposer (v\<lparr>live_count := live_count v - 1\<rparr>) = is_proposer s"
    using v by (auto simp: is_proposer_def upd_acceptor_def paxos_peer_destroy_def emit_def bind_Some_iff split: option.splits)
  with p assms(2) rest have "part_reelect a (v\<lparr>live_count := live_count v - 1\<rparr>) = Some (r, t)" by (cases p) auto
  then have "still unpack (v\<lparr>live_count := live_count v - 1\<rparr>) t" by (rule reelect_still)
  moreover have "still unpack s v"
    using v by (intro aside_still) (auto simp: log_same_def upd_acceptor_def paxos_peer_destroy_def emit_def bind_Some_iff intro: aside_emits)
  ultimately show ?thesis using live_count_still by (blast intro: still_trans)
qed

end

subsection \<open>The proposer\<close>

lemma stepI_told: "(log_inv s \<Longrightarrow> told u s t) \<Longrightarrow> log_step s t \<Longrightarrow> told u s t"
  by (auto simp: told_def going_def log_inv_def)

context msgpack_unpacker
begin

lemma defer_told: "unlisted i s \<Longrightarrow> told unpack s (s\<lparr>idefer := idefer s @ [i]\<rparr>)"
  by (rule still_told [OF still_same defer_step]) simp_all

lemma decree_or_defer_told:
  "(if prep s \<noteq> None then Some (0, s\<lparr>idefer := idefer s @ [i]\<rparr>) else proposer_decree i s) = Some (r, t) \<Longrightarrow> unlisted i s \<Longrightarrow>
    told unpack s t"
  by (auto intro: defer_told proposer_decree_told split: if_splits)

lemma new_decree_told:
  assumes "alloc_instance x s = (i, v)" "(if prep v \<noteq> None then Some (0, v\<lparr>idefer := idefer v @ [i]\<rparr>) else proposer_decree i v) = Some (r, t)"
    "log_step s t"
  shows "told unpack s t"
proof (rule stepI_told [OF _ assms(3)])
  assume "log_inv s"
  with alloc_instance_step [OF assms(1)] have "log_step s v" "unlisted i v" by blast+
  then show "told unpack s t"
    using still_told [OF alloc_still [OF assms(1)]] decree_or_defer_told [OF assms(2)] by (blast intro: told_trans)
qed

lemma decree_part_told: "proposer_decree_part a f s = Some (r, t) \<Longrightarrow> told unpack s t"
proof -
  assume h: "proposer_decree_part a f s = Some (r, t)"
  let ?s = "s\<lparr>req_id := req_id s + 1\<rparr>"
  from h obtain x where rest: "(let (i, s) = alloc_instance x ?s in
      if prep s \<noteq> None then Some (0, s\<lparr>idefer := idefer s @ [i]\<rparr>) else proposer_decree i s) = Some (r, t)"
    by (auto simp: proposer_decree_part_def proposer_decree_part_with_def bind_Some_iff Let_def)
  obtain i v where v: "alloc_instance x ?s = (i, v)" by (cases "alloc_instance x ?s")
  have same: "log_same s ?s" by (simp add: log_same_def)
  have "told unpack ?s t"
  proof (rule stepI_told)
    assume inv: "log_inv ?s"
    note al = alloc_instance_step [OF v]
    show "told unpack ?s t"
      using still_told [OF alloc_still [OF v] al(1)] decree_or_defer_told [of v i r t] al(2) [OF inv] rest v
      by (auto intro: told_trans)
  next
    have "log_inv s" if "log_inv ?s" using that by (auto simp: log_inv_def log_wf_def inum_of_def [abs_def])
    then show "log_step ?s t"
      using proposer_decree_part_step [OF h] by (auto simp: log_step_def log_keep_def log_kept_def)
  qed
  moreover have "told unpack s ?s" by (rule still_told [OF still_same log_same_step [OF same]]) simp_all
  ultimately show ?thesis by (blast intro: told_trans)
qed

lemma decree_request_told: "proposer_decree_request req s = Some (r, t) \<Longrightarrow> told unpack s t"
proof -
  assume h: "proposer_decree_request req s = Some (r, t)"
  obtain i v where v: "alloc_instance (zero_instance\<lparr>pi_val := pr_val req\<rparr>) s = (i, v)"
    by (cases "alloc_instance (zero_instance\<lparr>pi_val := pr_val req\<rparr>) s")
  show ?thesis by (rule new_decree_told [OF v _ proposer_decree_request_step [OF h]]) (use h v in \<open>simp add: proposer_decree_request_def\<close>)
qed

lemma same_told: "log_same s t \<Longrightarrow> still u s t \<Longrightarrow> told u s t"
  by (rule still_told [OF _ log_same_step])

lemma ack_accept_told: "proposer_ack_accept hdr s = Some (r, t) \<Longrightarrow> told unpack s t"
proof (rule stepI_told)
  assume h: "proposer_ack_accept hdr s = Some (r, t)" and inv: "log_inv s"
  then obtain i v where f: "instance_find (inum_of s) (ilist s) (ph_inum hdr) = Some (Some i)"
    and v: "upd_instance i (\<lambda>x. x\<lparr>pi_votes := pi_votes x + 1\<rparr>) s = Some v"
    and rest: "t = v \<or> proposer_commit i v = Some (r, t)"
    by (auto simp: proposer_ack_accept_def bind_Some_iff split: if_splits)
  have sv: "told unpack s v"
    by (rule still_told [OF still_upd_instance [OF v] upd_instance_step [OF v]]) (auto simp: entry_of_def marked_def same_decree_def)
  show "told unpack s t"
  proof (cases "ended s")
    case True
    have "log_step s t" using h by (rule proposer_ack_accept_step)
    then show ?thesis using True by (simp add: told_def going_def)
  next
    case False
    with inv have "i \<in> set (ilist s)" using find_inum [OF f] by (simp add: log_inv_def)
    with upd_instance_lists [OF v] have "i \<in> set (ilist v)" by simp
    with rest have "told unpack v t" by (auto intro: proposer_commit_told)
    with sv show ?thesis by (rule told_trans)
  qed
qed (rule proposer_ack_accept_step)

lemma ack_request_told: "proposer_ack_request hdr o1 s = Some (r, t) \<Longrightarrow> told unpack s t"
proof -
  assume "proposer_ack_request hdr o1 s = Some (r, t)"
  then obtain req a v where "proposer_decree_part a True s = Some (r, t) \<or>
     (v = s \<or> cache_request req s = Some v) \<and> proposer_decree_request req v = Some (r, t)"
    by (auto simp: proposer_ack_request_def bind_Some_iff split: if_splits)
  moreover have "told unpack s v" if "cache_request req s = Some v"
    using that by (blast intro: same_told cache_request_same cache_still)
  ultimately show ?thesis by (blast intro: decree_part_told decree_request_told told_trans)
qed

lemma request_told: "paxos_request k m s = Some (r, t) \<Longrightarrow> told unpack s t"
proof -
  assume "paxos_request k m s = Some (r, t)"
  then obtain n req v c w where
    v: "(if request_needs_cached k then cache_request req (s\<lparr>req_id := req_id s + 1\<rparr>)
      else Some (s\<lparr>req_id := req_id s + 1\<rparr>)) = Some v"
    and w: "send_request (header_init s OP_REQUEST n) req (request_needs_cached k) v = Some (c, w)"
    and rest: "t = w \<or> proposer_decree_request req w = Some (r, t)"
    by (auto simp: paxos_request_def bind_Some_iff Let_def split: if_splits)
  have "told unpack s (s\<lparr>req_id := req_id s + 1\<rparr>)" by (rule same_told) (auto simp: log_same_def intro: still_same)
  moreover have "told unpack (s\<lparr>req_id := req_id s + 1\<rparr>) v"
    using v by (auto intro: same_told cache_request_same cache_still split: if_splits)
  moreover have "told unpack v w"
    by (rule still_told [OF send_request_still [OF w] sends_only_step [OF send_request_effect [OF w]]])
  moreover have "told unpack w t" using rest by (auto intro: decree_request_told)
  ultimately show ?thesis by (blast intro: told_trans)
qed

lemma request_acceptor_still:
  assumes "paxos_request k m s = Some (r, t)" "is_proposer s \<noteq> Some True"
  shows "still unpack s t"
proof -
  from assms(1) obtain n req v c w where
    v: "(if request_needs_cached k then cache_request req (s\<lparr>req_id := req_id s + 1\<rparr>)
      else Some (s\<lparr>req_id := req_id s + 1\<rparr>)) = Some v"
    and w: "send_request (header_init s OP_REQUEST n) req (request_needs_cached k) v = Some (c, w)"
    and rest: "t = w \<or> is_proposer w = Some True"
    by (auto simp: paxos_request_def bind_Some_iff Let_def split: if_splits)
  have "is_proposer v = is_proposer s"
    using v by (auto simp: cache_request_def bind_Some_iff is_proposer_def split: if_splits option.splits)
  moreover have "is_proposer w = is_proposer v" using send_request_effect [OF w] by (auto simp: sends_only_def is_proposer_def split: option.splits)
  ultimately have "t = w" using rest assms(2) by auto
  moreover have "still unpack s (s\<lparr>req_id := req_id s + 1\<rparr>)" by (rule still_same) simp_all
  moreover have "still unpack (s\<lparr>req_id := req_id s + 1\<rparr>) v" using v by (auto intro: cache_still split: if_splits)
  ultimately show ?thesis using send_request_still [OF w] by (blast intro: still_trans)
qed

lemma ack_retry_told: "proposer_ack_retry hdr s = Some (r, t) \<Longrightarrow> told unpack s t"
proof (rule stepI_told)
  assume h: "proposer_ack_retry hdr s = Some (r, t)" and inv: "log_inv s"
  then obtain i x where f: "instance_find (inum_of s) (ilist s) (ph_inum hdr) = Some (Some i)" and x: "iheap s i = Some x"
    and rest: "t = s \<or> proposer_recommit hdr i s = Some (r, t)"
    by (auto simp: proposer_ack_retry_def bind_Some_iff split: if_splits)
  show "told unpack s t"
  proof (cases "ended s")
    case True
    have "log_step s t" using h by (rule proposer_ack_retry_step)
    then show ?thesis using True by (simp add: told_def going_def)
  next
    case False
    with inv have i: "i \<in> set (ilist s)" "inum_of s i = Some (ph_inum hdr)" using find_inum [OF f] by (auto simp: log_inv_def)
    let ?py = "paxos_payload_init 2 @ paxos_header_pack (hdr\<lparr>ph_opcode := OP_RECOMMIT\<rparr>) @ paxos_value_pack (pi_val x)"
    have "honest unpack (log_of s) ?py"
      unfolding honest_def
    proof (intro conjI allI impI)
      fix e assume "tells unpack ?py e"
      from value_message_tells_entry [OF this] i(2) x have "e = entry_of x" by (simp add: entry_of_def inum_of_def)
      with i(1) x show "e \<in> log_of s" by (auto simp: log_of_def)
    qed (use value_message_welcomes in blast)+
    with rest x show ?thesis
      by (auto simp: proposer_recommit_def bind_Some_iff Let_def dest!: broadcast_mails intro: mails_told)
  qed
qed (rule proposer_ack_retry_step)

lemma ack_reject_told: "proposer_ack_reject hdr s = Some (r, t) \<Longrightarrow> told unpack s t"
proof (rule stepI_told)
  assume h: "proposer_ack_reject hdr s = Some (r, t)" and inv: "log_inv s"
  then obtain i v where f: "instance_find (inum_of s) (ilist s) (ph_inum hdr) = Some (Some i)"
    and v: "upd_instance i (\<lambda>x. x\<lparr>pi_rejects := pi_rejects x + 1\<rparr>) s = Some v" and rest: "t = v \<or> reject_resolve i v = Some (r, t)"
    by (auto simp: proposer_ack_reject_def bind_Some_iff split: if_splits)
  show "told unpack s t"
  proof (cases "ended s")
    case True
    have "log_step s t" using h by (rule proposer_ack_reject_step)
    then show ?thesis using True by (simp add: told_def going_def)
  next
    case False
    with inv have "i \<in> set (ilist s)" using find_inum [OF f] by (simp add: log_inv_def)
    with upd_instance_lists [OF v] have i: "i \<in> set (ilist v)" by simp
    have "told unpack v t" if "reject_resolve i v = Some (r, t)"
      using that i by (auto simp: reject_resolve_def bind_Some_iff split: if_splits
        intro: same_told reconnect_same reconnect_still broadcast_instance_told)
    with rest have "told unpack v t" by auto
    moreover have "told unpack s v"
      by (rule still_told [OF still_upd_instance [OF v] upd_instance_step [OF v]]) (auto simp: entry_of_def marked_def same_decree_def)
    ultimately show ?thesis by (blast intro: told_trans)
  qed
qed (rule proposer_ack_reject_step)

lemma force_kill_told: "proposer_force_kill src s = Some (r, t) \<Longrightarrow> told unpack s t"
  by (auto simp: proposer_force_kill_def bind_Some_iff intro: decree_part_told split: option.splits)

text \<open>The welcome hands over the log as it stands.\<close>

lemma welcome_honest:
  assumes "welcome_message n s = Some py" "log_wf s"
  shows "honest unpack (log_of s) py"
  unfolding honest_def
proof (intro conjI allI impI)
  fix xs assume "welcomes unpack py xs"
  from welcome_message_welcomes [OF assms(1) this] have m: "map entry_of xs = map entry_of (insts s (ilist s))" .
  have "map (\<lambda>x. ph_inum (pi_hdr x)) xs = map fst (map entry_of xs)" by (simp add: entry_of_def)
  also have "\<dots> = map (\<lambda>x. ph_inum (pi_hdr x)) (insts s (ilist s))" by (simp add: m entry_of_def)
  finally show "ascending xs" using insts_sorted [OF assms(2)] by (simp add: ascending_def sorted_wrt_map)
  have "entry_of ` set xs = entry_of ` set (insts s (ilist s))" using arg_cong [OF m, of set] by simp
  also have "\<dots> \<subseteq> log_of s" using log_wf_alloc [OF assms(2)] by (force simp: insts_def log_of_def)
  finally show "entry_of ` set xs \<subseteq> log_of s" .
qed (use welcome_message_tells [OF assms(1)] in blast)

lemma continue_welcome_told: "do_continue_welcome chan a k s = Some (r, t) \<Longrightarrow> told unpack s t"
proof (rule stepI_told)
  assume h: "do_continue_welcome chan a k s = Some (r, t)" and inv: "log_inv s"
  then obtain p v n py where v: "attach_peer chan a s = Some (p, v)"
    and rest: "proposer_decree_part a False v = Some (r, t) \<or>
      welcome_message n (v\<lparr>live_count := live_count v + 1\<rparr>) = Some py \<and> paxos_send a py (v\<lparr>live_count := live_count v + 1\<rparr>) = Some (r, t)"
    by (auto simp: do_continue_welcome_def bind_Some_iff Let_def split: if_splits)
  let ?v = "v\<lparr>live_count := live_count v + 1\<rparr>"
  have sv: "told unpack s v" by (rule same_told [OF attach_peer_same [OF v] attach_still [OF v]])
  have vv: "told unpack v ?v" by (rule same_told) (simp_all add: log_same_def live_count_still)
  show "told unpack s t"
  proof (cases "proposer_decree_part a False v = Some (r, t)")
    case True
    with sv show ?thesis by (blast intro: told_trans decree_part_told)
  next
    case False
    with rest have m: "welcome_message n ?v = Some py" "mails py ?v t" by (auto dest: send_mails)
    have "log_same s ?v" using attach_peer_same [OF v] by (simp add: log_same_def)
    with inv have "log_inv ?v" by (blast intro: log_inv_same)
    then consider "ended ?v" | "log_wf ?v" by (auto simp: log_inv_def)
    then have "told unpack ?v t"
    proof cases
      case 1
      have "log_step ?v t" using m(2) by (intro log_same_step) (auto simp: mails_def log_same_def)
      then show ?thesis using 1 by (simp add: told_def going_def)
    next
      case 2
      from mails_told [OF m(2) welcome_honest [OF m(1) this]] show ?thesis .
    qed
    with sv vv show ?thesis by (blast intro: told_trans)
  qed
qed (rule do_continue_welcome_step)

lemma proposer_dispatch_told:
  assumes "proposer_dispatch src hdr o1 s = Some (r, t)" "prep s = None" "ph_opcode hdr \<noteq> OP_LAST"
  shows "told unpack s t"
proof (cases "ph_opcode hdr")
  case OP_REFUSE
  with assms(1) obtain c v where "proposer_force_kill src s = Some (c, v)" "proposer_ack_reject hdr v = Some (r, t)"
    by (auto simp: proposer_dispatch_def bind_Some_iff split: if_splits)
  then show ?thesis by (blast intro: told_trans force_kill_told ack_reject_told)
next
  case OP_PROMISE
  with assms show ?thesis by (simp add: proposer_dispatch_def proposer_ack_promise_def)
next
  case OP_REDIRECT
  with assms show ?thesis by (auto simp: proposer_dispatch_def proposer_ack_redirect_def split: if_splits)
next
  case OP_RETRIEVE
  with assms(1) have h: "paxos_ack_retrieve hdr o1 s = Some (r, t)" by (simp add: proposer_dispatch_def)
  show ?thesis by (rule still_told [OF ack_retrieve_still [OF h] paxos_ack_retrieve_step [OF h]])
next
  case OP_RESEND
  with assms(1) have h: "paxos_ack_resend hdr o1 s = Some (r, t)" by (simp add: proposer_dispatch_def)
  show ?thesis by (rule still_told [OF resend_still [OF h] paxos_ack_resend_step [OF h]])
next
  case OP_HELLO
  with assms(1) have h: "paxos_ack_hello (Some src) hdr s = Some (r, t)" by (simp add: proposer_dispatch_def)
  show ?thesis by (rule same_told [OF paxos_ack_hello_same [OF h] hello_still [OF h]])
qed (use assms in \<open>auto simp: proposer_dispatch_def intro: force_kill_told ack_accept_told ack_request_told
    ack_reject_told ack_retry_told\<close>)

lemma drop_told: "drop_session q a s = Some (r, t) \<Longrightarrow> told unpack s t"
proof -
  assume h: "drop_session q a s = Some (r, t)"
  then obtain v p where v: "upd_acceptor a (\<lambda>x. x\<lparr>pa_peer := None\<rparr>) (paxos_peer_destroy (Some q) s) = Some v"
    and rest: "(if p then proposer_decree_part a False (v\<lparr>live_count := live_count v - 1\<rparr>)
      else part_reelect a (v\<lparr>live_count := live_count v - 1\<rparr>)) = Some (r, t)"
    by (auto simp: drop_session_def bind_Some_iff Let_def split del: if_split)
  let ?v = "v\<lparr>live_count := live_count v - 1\<rparr>"
  have same: "log_same s v"
    using v by (auto simp: log_same_def upd_acceptor_def paxos_peer_destroy_def emit_def bind_Some_iff)
  have q: "aside unpack s v"
    using v by (auto simp: upd_acceptor_def paxos_peer_destroy_def emit_def bind_Some_iff intro: aside_emits)
  have "told unpack s v" by (rule same_told [OF same aside_still [OF same q]])
  moreover have "told unpack v ?v" by (rule same_told) (simp_all add: log_same_def live_count_still)
  moreover have "told unpack ?v t"
    using rest by (auto intro: decree_part_told still_told reelect_still log_frame_step log_step_ended
        dest: part_reelect_frame split: if_splits)
  ultimately show ?thesis by (blast intro: told_trans)
qed

lemma continuation_told:
  assumes "run_continuation f chan a k s = Some (r, t)" "f \<noteq> Continue_ack_reject"
  shows "told unpack s t"
proof (rule stepI_told [OF _ run_continuation_step [OF assms]])
  assume inv: "log_inv s"
  note st = run_continuation_step [OF assms]
  show "told unpack s t"
  proof (cases f)
    case Continue_welcome
    with assms show ?thesis by (auto simp: run_continuation_def intro: continue_welcome_told)
  next
    case Continue_ack_welcome
    with assms show ?thesis by (auto simp: run_continuation_def intro: still_told [OF _ st] continue_ack_welcome_still)
  next
    case Continue_ack_redirect
    with assms inv show ?thesis by (auto simp: run_continuation_def intro: still_told [OF _ st] continue_ack_redirect_still)
  next
    case Continue_ack_refuse
    with assms inv show ?thesis by (auto simp: run_continuation_def intro: still_told [OF _ st] continue_ack_refuse_still)
  qed (use assms in simp)
qed

end

subsection \<open>The acceptor\<close>

text \<open>The entries that a message hands to an acceptor.\<close>

definition handed :: "paxos_header \<Rightarrow> mobj option \<Rightarrow> entry set" where
  "handed hdr o1 = {(ph_inum hdr, raw_value v) | v o2. telling (ph_opcode hdr) \<and> o1 = Some o2 \<and> paxos_value_unpack o2 = Some v}"

lemma handedI: "telling (ph_opcode hdr) \<Longrightarrow> paxos_value_unpack o2 = Some v \<Longrightarrow> (ph_inum hdr, raw_value v) \<in> handed hdr (Some o2)"
  by (auto simp: handed_def)

lemma heedsI: "(going s \<Longrightarrow> out t = out s) \<Longrightarrow> (going s \<Longrightarrow> \<not> ended t \<Longrightarrow> log_of t \<subseteq> log_of s \<union> E) \<Longrightarrow> heeds u E s t"
  by (auto simp: heeds_def intro: quietly_same)

lemma commit_instance_except:
  assumes "commit_instance hdr s = Some (i, t)" "going s"
  shows "log_except i t \<subseteq> log_of s" "out t = out s"
proof -
  from assms(1) obtain f where f: "instance_find (inum_of s) (ilist s) (ph_inum hdr) = Some f"
    by (auto simp: commit_instance_def bind_Some_iff)
  have "log_except i t \<subseteq> log_of s \<and> out t = out s"
  proof (cases f)
    case None
    let ?u = "s\<lparr>iheap := (iheap s)(brk s \<mapsto> zero_instance\<lparr>pi_hdr := hdr\<rparr>), brk := Suc (brk s)\<rparr>"
    have ins: "instance_insert_and_upstart (brk s) ?u = Some t" and i: "i = brk s"
      using assms(1) f None by (auto simp: commit_instance_def alloc_instance_def bind_Some_iff)
    have al: "alloc_instance (zero_instance\<lparr>pi_hdr := hdr\<rparr>) s = (brk s, ?u)" by (simp add: alloc_instance_def)
    note st = alloc_instance_step(1) [OF al]
    have "going ?u" by (rule going_step [OF st assms(2)]) (use assms(2) in \<open>simp add: going_def\<close>)
    moreover have "log_of ?u = log_of s" by (rule still_log [OF alloc_still [OF al] assms(2)]) (use assms(2) in \<open>simp add: going_def\<close>)
    ultimately show ?thesis using insert_log(3,5) [OF ins] i by (simp add: going_def)
  next
    case (Some j)
    with assms(1) f show ?thesis using log_except_log [of i s] by (auto simp: commit_instance_def)
  qed
  then show "log_except i t \<subseteq> log_of s" "out t = out s" by auto
qed

text \<open>Setting the value of the instance a message is about.\<close>

lemma set_value_heeds:
  assumes "log_except i t \<subseteq> log_of s" "out t = out s" "at_num n i t x" "upd_instance i (\<lambda>x. x\<lparr>pi_val := val\<rparr>) t = Some v"
    "(n, raw_value val) \<in> E"
  shows "heeds u E s v"
proof (rule heedsI)
  show "out v = out s" using assms(2,4) by (auto simp: upd_instance_def bind_Some_iff)
  from assms(3) have i: "i \<in> set (ilist t)" "iheap t i = Some x" "ph_inum (pi_hdr x) = n" by (auto simp: at_num_def)
  have "entry_of (x\<lparr>pi_val := val\<rparr>) = (n, raw_value val)" using i(3) by (simp add: entry_of_def)
  then show "log_of v \<subseteq> log_of s \<union> E" using upd_log [OF assms(4) i(1)] i(2) assms(1,5) by auto
qed

context msgpack_unpacker
begin

lemma value_then_commit_heeds:
  assumes "going s" "log_step s t" "log_except i t \<subseteq> log_of s" "out t = out s" "at_num n i t x" "\<not> pi_committed x"
    "upd_instance i (\<lambda>x. x\<lparr>pi_val := val\<rparr>) t = Some v" "paxos_commit i v = Some (r, s')" "(n, raw_value val) \<in> E"
  shows "heeds unpack E s s'"
proof -
  have "log_step t v" by (rule upd_instance_step [OF assms(7)]) (use assms(5,6) in \<open>auto simp: at_num_def same_decree_def\<close>)
  with assms(2) have "log_step s v" by (rule log_step_trans)
  from heeds_then_still [OF set_value_heeds [OF assms(3-5,7,9)] this commit_still [OF assms(8)] paxos_commit_step [OF assms(8)]]
  show ?thesis .
qed

lemma ack_commit_heeds:
  assumes "acceptor_ack_commit hdr o1 s = Some (r, s')" "ph_opcode hdr = OP_COMMIT"
  shows "heeds unpack (handed hdr o1) s s'"
proof (cases "going s")
  case True
  from assms(1) obtain i t inst where t: "commit_instance hdr s = Some (i, t)" "iheap t i = Some inst"
    and rest: "if pi_committed inst then Some (0, t) = Some (r, s')
      else \<exists>o2 v w. o1 = Some o2 \<and> paxos_value_unpack o2 = Some v \<and>
        upd_instance i (\<lambda>x. x\<lparr>pi_val := v\<rparr>) t = Some w \<and> paxos_commit i w = Some (r, s')"
    by (fastforce simp: acceptor_ack_commit_def bind_Some_iff split: if_splits)
  have s: "log_wf s" "\<not> ended s" using True by (simp_all add: going_def)
  from commit_instance_at [OF t(1) s] t(2) have x: "at_num (ph_inum hdr) i t inst"
    and old: "case instance_at s (ph_inum hdr) of None \<Rightarrow> \<not> pi_committed inst | Some y \<Rightarrow> inst = y"
    by (auto simp: at_num_def)
  note e = commit_instance_except [OF t(1) True]
  show ?thesis
  proof (cases "pi_committed inst")
    case com: True
    with rest old obtain "s' = t" "instance_at s (ph_inum hdr) = Some inst" by (auto split: option.splits)
    then have "entry_of inst \<in> log_of s" by (auto simp: instance_at_iff [OF s(1)] log_of_def)
    moreover have "log_of t \<subseteq> insert (entry_of inst) (log_except i t)"
    proof
      fix en assume "en \<in> log_of t"
      then obtain j y where "en = entry_of y" "j \<in> set (ilist t)" "iheap t j = Some y" unfolding log_of_def by blast
      with t(2) show "en \<in> insert (entry_of inst) (log_except i t)" unfolding log_except_def by (cases "j = i") auto
    qed
    ultimately show ?thesis using e \<open>s' = t\<close> by (intro heedsI) auto
  next
    case False
    with rest obtain o2 v w where w: "o1 = Some o2" "paxos_value_unpack o2 = Some v"
      "upd_instance i (\<lambda>x. x\<lparr>pi_val := v\<rparr>) t = Some w" "paxos_commit i w = Some (r, s')" by auto
    show ?thesis
      by (rule value_then_commit_heeds [OF True commit_instance_step [OF t(1)] e x False w(3,4)])
        (use assms(2) w(1,2) in \<open>auto intro!: handedI simp: telling_def\<close>)
  qed
qed (simp add: heeds_def)

lemma recommit_instance_except:
  assumes "recommit_instance hdr f s = Some (i, t)" "going s"
  shows "log_except i t \<subseteq> log_of s" "out t = out s"
proof -
  have "log_except i t \<subseteq> log_of s \<and> out t = out s"
  proof (cases f)
    case None
    let ?u = "s\<lparr>iheap := (iheap s)(brk s \<mapsto> zero_instance\<lparr>pi_hdr := hdr\<rparr>), brk := Suc (brk s)\<rparr>"
    have ins: "instance_insert_and_upstart (brk s) ?u = Some t" and i: "i = brk s"
      using assms(1) None by (auto simp: recommit_instance_def alloc_instance_def bind_Some_iff)
    have al: "alloc_instance (zero_instance\<lparr>pi_hdr := hdr\<rparr>) s = (brk s, ?u)" by (simp add: alloc_instance_def)
    have "going ?u" by (rule going_step [OF alloc_instance_step(1) [OF al] assms(2)]) (use assms(2) in \<open>simp add: going_def\<close>)
    moreover have "log_of ?u = log_of s" by (rule still_log [OF alloc_still [OF al] assms(2)]) (use assms(2) in \<open>simp add: going_def\<close>)
    ultimately show ?thesis using insert_log(3,5) [OF ins] i by (simp add: going_def)
  next
    case (Some j)
    with assms(1) have i: "upd_instance i (\<lambda>x. x\<lparr>pi_hdr := hdr\<rparr>) s = Some t" by (auto simp: recommit_instance_def bind_Some_iff)
    then have "ilist t = ilist s" "\<forall>j. j \<noteq> i \<longrightarrow> iheap t j = iheap s j" "out t = out s"
      by (auto simp: upd_instance_def bind_Some_iff)
    then have "log_except i t = log_except i s \<and> out t = out s" using log_except_cong [of t s i] by blast
    then show ?thesis using log_except_log [of i s] by simp
  qed
  then show "log_except i t \<subseteq> log_of s" "out t = out s" by auto
qed

lemma ack_recommit_heeds:
  assumes "acceptor_ack_recommit hdr o1 s = Some (r, s')" "ph_opcode hdr = OP_RECOMMIT"
  shows "heeds unpack (handed hdr o1) s s'"
proof (cases "going s")
  case True
  from assms(1) obtain f d where f: "instance_find (inum_of s) (ilist s) (ph_inum hdr) = Some f"
    and d: "(case f of None \<Rightarrow> Some False | Some i \<Rightarrow> map_option pi_committed (iheap s i)) = Some d"
    and rest: "if d then Some (0, s) = Some (r, s')
      else \<exists>i t o2 v w. recommit_instance hdr f s = Some (i, t) \<and> o1 = Some o2 \<and> paxos_value_unpack o2 = Some v \<and>
        upd_instance i (\<lambda>x. x\<lparr>pi_val := v\<rparr>) t = Some w \<and> paxos_commit i w = Some (r, s')"
    by (auto simp: acceptor_ack_recommit_def bind_Some_iff split: if_splits)
  have s: "log_wf s" "\<not> ended s" using True by (simp_all add: going_def)
  show ?thesis
  proof (cases d)
    case False
    with rest obtain i t o2 v w where w: "recommit_instance hdr f s = Some (i, t)" "o1 = Some o2" "paxos_value_unpack o2 = Some v"
      "upd_instance i (\<lambda>x. x\<lparr>pi_val := v\<rparr>) t = Some w" "paxos_commit i w = Some (r, s')" by auto
    have nc: "\<not> pi_committed y" if "f = Some j" "iheap s j = Some y" for j y using that d False by auto
    have cs: "\<forall>y. instance_at s (ph_inum hdr) = Some y \<longrightarrow> \<not> pi_committed y"
      using d False instance_find_at [OF s(1) f] by (auto split: option.splits)
    from recommit_instance_at [OF w(1) f s cs] obtain x where x: "at_num (ph_inum hdr) i t x" "\<not> pi_committed x" by blast
    note e = recommit_instance_except [OF w(1) True]
    show ?thesis
      by (rule value_then_commit_heeds [OF True recommit_instance_step [OF w(1) f nc] e x w(4,5)])
        (use assms(2) w(2,3) in \<open>auto intro!: handedI simp: telling_def\<close>)
  qed (use rest in \<open>simp add: heedsI\<close>)
qed (simp add: heeds_def)

lemma then_accept_heeds:
  assumes "heeds unpack E s t" "log_step s t" "acceptor_accept hdr t = Some (r, s')"
  shows "heeds unpack E s s'"
  by (rule heeds_then_still [OF assms(1,2) outbound_still(1) [OF assms(3)]])
    (use acceptor_accept_effect [OF assms(3)] in \<open>blast intro: sends_only_step\<close>)

lemma decree_new_heeds:
  assumes t: "decree_new hdr val s = Some t" and g: "going s" and E: "(ph_inum hdr, raw_value val) \<in> E"
  shows "heeds unpack E s t"
proof -
  let ?x = "zero_instance\<lparr>pi_hdr := hdr, pi_val := val\<rparr>"
  let ?u = "s\<lparr>iheap := (iheap s)(brk s \<mapsto> ?x), brk := Suc (brk s)\<rparr>"
  have ins: "instance_insert_and_upstart (brk s) ?u = Some t" using t by (simp add: decree_new_def alloc_instance_def)
  have al: "alloc_instance ?x s = (brk s, ?u)" by (simp add: alloc_instance_def)
  have gu: "going ?u" by (rule going_step [OF alloc_instance_step(1) [OF al] g]) (use g in \<open>simp add: going_def\<close>)
  have "log_of ?u = log_of s" by (rule still_log [OF alloc_still [OF al] g]) (use g in \<open>simp add: going_def\<close>)
  then show ?thesis using insert_log(2,3) [OF ins, of ?x] gu E by (intro heedsI) (auto simp: going_def entry_of_def)
qed

lemma decree_found_heeds:
  assumes df: "decree_found hdr val i s = Some (r, s')" and g: "going s" and E: "(ph_inum hdr, raw_value val) \<in> E"
    and f: "instance_find (inum_of s) (ilist s) (ph_inum hdr) = Some (Some i)"
  shows "heeds unpack E s s'"
proof -
  from find_inum [of s "ph_inum hdr" i] f g have i: "i \<in> set (ilist s)" "inum_of s i = Some (ph_inum hdr)" by (simp_all add: going_def)
  from df obtain x where x: "iheap s i = Some x" by (auto simp: decree_found_def bind_Some_iff)
  show ?thesis
  proof (cases "pi_committed x \<or> ph_ballot hdr < ph_ballot (pi_hdr x)")
    case True
    with df x have "s' = s \<or> acceptor_accept hdr s = Some (r, s')"
      by (auto simp: decree_found_def bind_Some_iff split: if_splits)
    then show ?thesis by (auto intro: still_heeds outbound_still)
  next
    case False
    with df x obtain t where t: "upd_instance i (\<lambda>x. x\<lparr>pi_hdr := hdr, pi_val := val\<rparr>) s = Some t"
      and a: "acceptor_accept hdr t = Some (r, s')" by (auto simp: decree_found_def bind_Some_iff split: if_splits)
    have "log_of t \<subseteq> log_of s \<union> E" using upd_log [OF t i(1)] E log_except_log [of i s] by (auto simp: entry_of_def)
    then have "heeds unpack E s t" using t by (intro heedsI) (auto simp: upd_instance_def bind_Some_iff)
    moreover have "log_step s t"
      using False x i(2) by (intro upd_instance_step [OF t]) (auto simp: same_decree_def inum_of_def)
    ultimately show ?thesis using a by (rule then_accept_heeds)
  qed
qed

lemma ack_decree_heeds:
  assumes "acceptor_ack_decree hdr o1 s = Some (r, s')" "ph_opcode hdr = OP_DECREE"
  shows "heeds unpack (handed hdr o1) s s'"
proof (cases "s' = s \<or> \<not> going s")
  case False
  then have g: "going s" by simp
  from False assms(1) have "ballot_compare (ph_ballot hdr) (ballot s) = 0"
    by (auto simp: acceptor_ack_decree_def split: if_splits)
  with assms(1) obtain o2 val rejected where o: "o1 = Some o2" "paxos_value_unpack o2 = Some val" and
    c: "(if rejected then acceptor_reject hdr s else instance_find (inum_of s) (ilist s) (ph_inum hdr) \<bind>
      (\<lambda>found. case found of None \<Rightarrow> decree_new hdr val s \<bind> (\<lambda>s. acceptor_accept hdr s)
        | Some i \<Rightarrow> decree_found hdr val i s)) = Some (r, s')"
    by (simp add: acceptor_ack_decree_def bind_Some_iff if_None_iff split del: if_split) blast
  have E: "(ph_inum hdr, raw_value val) \<in> handed hdr o1"
    unfolding o(1) by (rule handedI [OF _ o(2)]) (simp add: telling_def assms(2))
  show ?thesis
  proof (cases rejected)
    case True
    with c show ?thesis by (auto intro: still_heeds outbound_still)
  next
    case False
    with c obtain found where f: "instance_find (inum_of s) (ilist s) (ph_inum hdr) = Some found"
      and rest: "(case found of None \<Rightarrow> decree_new hdr val s \<bind> (\<lambda>s. acceptor_accept hdr s)
        | Some i \<Rightarrow> decree_found hdr val i s) = Some (r, s')" by (auto simp: bind_Some_iff)
    show ?thesis
    proof (cases found)
      case None
      with rest obtain t where t: "decree_new hdr val s = Some t" "acceptor_accept hdr t = Some (r, s')"
        by (auto simp: bind_Some_iff)
      show ?thesis by (rule then_accept_heeds [OF decree_new_heeds [OF t(1) g E] decree_new_step [OF t(1)] t(2)])
    next
      case (Some i)
      with rest f decree_found_heeds [OF _ g E] show ?thesis by simp
    qed
  qed
qed (auto simp: heeds_def)

lemma ack_truncate_heeds: "acceptor_ack_truncate hdr o1 s = Some (r, s') \<Longrightarrow> heeds unpack E s s'"
proof -
  assume "acceptor_ack_truncate hdr o1 s = Some (r, s')"
  then obtain n where n: "truncate_walk (ilist s) n (s\<lparr>ibase := n\<rparr>) = Some s'"
    by (auto simp: acceptor_ack_truncate_def ilist_truncate_prefix_def bind_Some_iff)
  show ?thesis
  proof (rule heedsI)
    assume g: "going s"
    then have "distinct (ilist s)" by (simp add: going_def log_wf_def)
    note r = truncate_walk_result [OF n _ this]
    show "out s' = out s" using r by simp
    have "set (ilist s') \<subseteq> set (ilist s)" using r by (auto dest: set_dropWhileD)
    moreover have "iheap s' j = iheap s j" if "j \<in> set (ilist s')" for j using r that by simp
    ultimately have "log_of s' \<subseteq> log_of s" unfolding log_of_def by fastforce
    then show "log_of s' \<subseteq> log_of s \<union> E" by blast
  qed
qed

lemma acceptor_handle_heeds:
  assumes "acceptor_handle src hdr o1 s = Some (r, t)"
  shows "heeds unpack (handed hdr o1) s t"
  using assms
  by (cases "ph_opcode hdr")
    (auto simp: acceptor_handle_def intro: ack_decree_heeds ack_commit_heeds ack_recommit_heeds ack_truncate_heeds
      still_heeds ack_prepare_still ack_request_still ack_retrieve_still resend_still hello_still ack_refuse_still ack_sync_still)

end

subsection \<open>Truncation at the proposer\<close>

text \<open>\<open>shed s t\<close>: the log of \<open>t\<close> is that of \<open>s\<close> but for entries below all that are left.  The instance before
  the hole is never truncated.\<close>

definition shed :: "paxos_session \<Rightarrow> paxos_session \<Rightarrow> bool" where
  "shed s t \<longleftrightarrow> log_of t \<subseteq> log_of s \<and> (\<forall>e\<in>log_of s. e \<in> log_of t \<or> (\<forall>e'\<in>log_of t. fst e < fst e'))"

lemma shed_same: "log_of t = log_of s \<Longrightarrow> shed s t"
  by (simp add: shed_def)

lemma going_same: "log_same s t \<Longrightarrow> going s \<Longrightarrow> going t"
  using log_inv_same [of s t] by (simp add: going_def log_inv_def log_same_def)

lemma in_log:
  assumes "log_wf s"
  shows "e \<in> log_of s \<longleftrightarrow> (\<exists>x. instance_at s (fst e) = Some x \<and> raw_value (pi_val x) = snd e)"
proof -
  have "e \<in> log_of s \<longleftrightarrow> (\<exists>i\<in>set (ilist s). \<exists>x. iheap s i = Some x \<and> e = entry_of x)" unfolding log_of_def by blast
  moreover have "e = entry_of x \<longleftrightarrow> ph_inum (pi_hdr x) = fst e \<and> raw_value (pi_val x) = snd e" for x
    by (cases e) (auto simp: entry_of_def)
  ultimately show ?thesis unfolding instance_at_iff [OF assms] by blast
qed

lemma truncate_shed:
  assumes "ilist_truncate_prefix n s = Some t" "going s"
  shows "shed s t" "out t = out s"
proof -
  have s: "log_wf s" "\<not> ended s" using assms(2) by (simp_all add: going_def)
  note t = truncate_instance_at [OF assms(1) s]
  show "shed s t" unfolding shed_def using in_log [OF s(1)] in_log [OF t(1)] t(2) by (auto split: if_splits)
  have "distinct (ilist s)" using s(1) by (simp add: log_wf_def)
  from truncate_walk_result [OF _ refl this] assms(1) show "out t = out s" by (simp add: ilist_truncate_prefix_def)
qed

lemma dropWhile_keeps: "x \<in> set xs \<Longrightarrow> \<not> P x \<Longrightarrow> x \<in> set (dropWhile P xs)"
  by (induction xs) auto

lemma truncate_hole:
  assumes "ilist_truncate_prefix n s = Some t" "going s" "hole_ok s" "n \<le> ihole s - 1" "top_free t"
  shows "hole_ok t" "ilist t \<noteq> []"
proof -
  have "distinct (ilist s)" using assms(2) by (simp add: going_def log_wf_def)
  note r = truncate_walk_result [OF assms(1) [unfolded ilist_truncate_prefix_def] refl this]
  have keep: "i \<in> set (ilist t) \<and> inum_of t i = Some k" if "i \<in> set (ilist s)" "inum_of s i = Some k" "n \<le> k" for i k
  proof -
    have "i \<in> set (ilist t)" using r that by (auto intro: dropWhile_keeps)
    moreover have "inum_of t i = inum_of s i" using r \<open>i \<in> set (ilist t)\<close> by (simp add: inum_of_def)
    ultimately show ?thesis using that(2) by simp
  qed
  from assms(3) obtain j where j: "j \<in> set (ilist s)" "inum_of s j = Some (ihole s - 1)" by (auto simp: hole_ok_def before_hole_def)
  from keep [OF j assms(4)] have kj: "j \<in> set (ilist t)" "inum_of t j = Some (ihole s - 1)" by auto
  then obtain x where x: "iheap t j = Some x" "ph_inum (pi_hdr x) = ihole s - 1" by (auto simp: inum_of_def)
  then have "entry_of x \<in> log_of t" using kj(1) unfolding log_of_def by blast
  then have "fst (entry_of x) \<noteq> - 1" using assms(5) unfolding top_free_def by blast
  then have "ihole s - 1 \<noteq> - 1" using x(2) by (simp add: entry_of_def)
  then have "ihole s - 1 \<le> ihole s" using next_word [of "ihole s - 1"] by (simp add: less_imp_le)
  with assms(4) have le: "n \<le> ihole s" by simp
  from assms(3) obtain i where i: "i \<in> set (ilist s)" "istart s = Some i"
    "inum_of s i = Some (ihole s - 1) \<or> inum_of s i = Some (ihole s)" by (auto simp: hole_ok_def start_ok_def)
  then have "i \<in> set (ilist t) \<and> inum_of t i = inum_of s i" using keep [OF i(1)] assms(4) le by auto
  with i r have "start_ok t" unfolding start_ok_def by auto
  moreover have "settled (ihole t) y" if l: "l \<in> set (ilist t)" "iheap t l = Some y" for l y
  proof -
    have "l \<in> set (ilist s)" "iheap s l = Some y" "ihole t = ihole s" using r l by (auto dest: set_dropWhileD)
    then show ?thesis using assms(3) by (simp add: hole_ok_def before_hole_def)
  qed
  ultimately show "hole_ok t" using kj r unfolding hole_ok_def before_hole_def by auto
  show "ilist t \<noteq> []" using kj(1) by auto
qed

lemma hole_ok_simps [simp]: "hole_ok (s\<lparr>sync := y\<rparr>) = hole_ok s" "top_free (s\<lparr>sync := y\<rparr>) = top_free s"
  by (simp_all add: hole_ok_def before_hole_def start_ok_def inum_of_def [abs_def] top_free_def log_of_def)

lemma proposer_truncate_hole:
  assumes "proposer_truncate hdr s = Some (r, s')" "going s" "hole_ok s" "top_free s'"
  shows "hole_ok s'" "ilist s' \<noteq> []"
proof -
  from assms(1) obtain y t c u where t: "truncate_start y s = Some t"
    and u: "paxos_broadcast (truncate_message hdr (ibase t)) t = Some (c, u)"
    and rest: "(if c \<noteq> 0 then Some (c, u) else ilist_truncate_prefix (ibase u) u \<bind>
      (\<lambda>s. Some (0, s\<lparr>sync := None\<rparr>))) = Some (r, s')"
    by (simp add: proposer_truncate_def bind_Some_iff split del: if_split) blast
  from t have t: "ilist t = ilist s" "iheap t = iheap s" "ihole t = ihole s" "istart t = istart s" "idefer t = idefer s"
    "brk t = brk s" "ended t = ended s" "ibase t \<le> ihole s - 1"
    by (auto simp: truncate_start_def Let_def split: if_splits)
  from broadcast_mails [OF u] t have u': "log_same s u" "ihole u = ihole s" "istart u = istart s" "ibase u \<le> ihole s - 1"
    by (auto simp: mails_def log_same_def)
  have g: "going u" by (rule going_same [OF u'(1) assms(2)])
  have "log_ok s" using log_wf_ok [of s] assms(2) by (simp add: going_def nums_ok_def)
  then have h: "hole_ok u"
    by (intro hole_ok_cong [OF assms(3)]) (use u' in \<open>auto simp: log_same_def inum_of_def marks_kept_def\<close>)
  have "c = 0" using paxos_broadcast_effect [OF u] by simp
  with rest obtain v where v: "ilist_truncate_prefix (ibase u) u = Some v" "s' = v\<lparr>sync := None\<rparr>"
    by (auto simp: bind_Some_iff)
  have "top_free v" using assms(4) v(2) by simp
  from truncate_hole [OF v(1) g h _ this] u' v(2) show "hole_ok s'" "ilist s' \<noteq> []" by simp_all
qed

context msgpack_unpacker
begin

lemma proposer_truncate_shed:
  assumes "proposer_truncate hdr s = Some (r, s')" "going s"
  shows "quietly unpack s s' \<and> shed s s'"
proof -
  from assms(1) obtain y t c u where t: "truncate_start y s = Some t"
    and u: "paxos_broadcast (truncate_message hdr (ibase t)) t = Some (c, u)"
    and rest: "(if c \<noteq> 0 then Some (c, u) else ilist_truncate_prefix (ibase u) u \<bind>
      (\<lambda>s. Some (0, s\<lparr>sync := None\<rparr>))) = Some (r, s')"
    by (simp add: proposer_truncate_def bind_Some_iff split del: if_split) blast
  from t have same: "log_same s t" "out t = out s" by (auto simp: truncate_start_def Let_def log_same_def split: if_splits)
  from broadcast_mails [OF u] have mu: "log_same t u" by (auto simp: mails_def log_same_def)
  have "quiet unpack (truncate_message hdr (ibase t))"
    unfolding truncate_message_def by (rule quiet_message) (simp_all add: known_op_def paxops_def telling_def)
  from mails_still [OF broadcast_mails [OF u] this] have q: "quietly unpack s u"
    using same(2) by (auto simp: still_def intro: quietly_trans quietly_same)
  have su: "log_same s u" using same(1) mu by (rule log_same_trans)
  then have g: "going u" and eq: "log_of u = log_of s" using assms(2) by (auto intro: going_same simp: log_same_def log_of_def)
  have "c = 0" using paxos_broadcast_effect [OF u] by simp
  with rest obtain v where v: "ilist_truncate_prefix (ibase u) u = Some v" "s' = v\<lparr>sync := None\<rparr>"
    by (auto simp: bind_Some_iff)
  have e: "log_of s' = log_of v" "out s' = out v" by (simp_all add: v(2) log_of_def)
  from truncate_shed [OF v(1) g] eq q e show ?thesis by (simp add: shed_def quietly_def)
qed

lemma ack_last_shed:
  assumes "proposer_ack_last hdr o1 s = Some (r, t)" "going s" "hole_ok s" "top_free t"
  shows "quietly unpack s t \<and> shed s t \<and> hole_ok t"
proof -
  from assms(1) consider "t = s" | y where "t = s\<lparr>sync := Some y\<rparr>" | y where "proposer_truncate hdr (s\<lparr>sync := Some y\<rparr>) = Some (r, t)"
    by (auto simp: proposer_ack_last_def bind_Some_iff Let_def split: if_splits)
  then show ?thesis
  proof cases
    case (3 y)
    have "log_same s (s\<lparr>sync := Some y\<rparr>)" by (simp add: log_same_def)
    then have "going (s\<lparr>sync := Some y\<rparr>)" using assms(2) by (rule going_same)
    from proposer_truncate_shed [OF 3 this] proposer_truncate_hole(1) [OF 3 this _ assms(4)] assms(3)
    show ?thesis by (simp add: quietly_def shed_def log_of_def)
  qed (use assms(3) in \<open>auto intro: shed_same quietly_same simp: log_of_def\<close>)
qed

end

end
