(* ===== verification/Agreement.thy ===== *)
theory Agreement
  imports Told_Handlers
begin

section \<open>Agreement between participants\<close>

text \<open>
  A whole chat: participants, each with its session, and everything that has ever been sent.  Anything sent
  may be delivered to anyone, at any time, any number of times or never; client requests, timers, lost
  connections and continuations happen in any order; newcomers enter from a welcome.  One participant \<open>p\<close>
  presides: it is the only proposer, and it has no prepare pending.  Nothing is assumed of how long it does;
  the theorem speaks of runs in which it does.

  One of its operations is left out because it changes an entry of the presiding participant's log: the
  continuation of a reject.  Its log may be truncated after a sync, but never to nothing, as the
  instance before the hole stays; else the next decree would start again at 1.
\<close>

record chat =
  member :: "nat \<Rightarrow> paxos_session"
  in_flight :: "paxos_yak set"

definition sends :: "paxos_session \<Rightarrow> paxos_yak set" where
  "sends s = {py. \<exists>q. Send q py \<in> set (out s)}"

definition put_member :: "nat \<Rightarrow> paxos_session \<Rightarrow> chat \<Rightarrow> chat" where
  "put_member i s c = \<lparr>member = (member c)(i := s), in_flight = in_flight c \<union> sends s\<rparr>"

text \<open>What may happen to a participant: a message must have been sent, and \<open>reply\<close> restricts the rest.\<close>

definition authentic :: "(pcall list \<Rightarrow> mobj list option) \<Rightarrow> chat \<Rightarrow> event \<Rightarrow> bool" where
  "authentic u c e \<longleftrightarrow> (case e of
     E_message q hdr o1 \<Rightarrow> \<exists>py\<in>in_flight c. delivered u py hdr o1
   | _ \<Rightarrow> True)"

definition kont_of :: "paxos_session \<Rightarrow> event \<Rightarrow> continuation_func option" where
  "kont_of s e = (case e of E_continue k chan \<Rightarrow> map_option pk_func (map_of (clist s) k) | _ \<Rightarrow> None)"

definition presiding :: "paxos_session \<Rightarrow> event \<Rightarrow> bool" where
  "presiding s e \<longleftrightarrow> is_proposer s = Some True \<and> prep s = None \<and> kont_of s e \<noteq> Some Continue_ack_reject"

definition following :: "paxos_session \<Rightarrow> event \<Rightarrow> bool" where
  "following s e \<longleftrightarrow> is_proposer s \<noteq> Some True \<and> kont_of s e \<noteq> Some Continue_ack_reject \<and> kont_of s e \<noteq> Some Continue_welcome"

inductive chat_step :: "(pcall list \<Rightarrow> mobj list option) \<Rightarrow> nat \<Rightarrow> chat \<Rightarrow> chat \<Rightarrow> bool" for u p where
  preside: "authentic u c e \<Longrightarrow> presiding (member c p) e \<Longrightarrow> handle e (member c p) = Some (r, t) \<Longrightarrow> \<not> ended t \<Longrightarrow> top_free t \<Longrightarrow>
    chat_step u p c (put_member p t c)"
| follow: "i \<noteq> p \<Longrightarrow> \<not> ended (member c i) \<Longrightarrow> authentic u c e \<Longrightarrow> following (member c i) e \<Longrightarrow> handle e (member c i) = Some (r, t) \<Longrightarrow>
    chat_step u p c (put_member i t c)"
| enter: "i \<noteq> p \<Longrightarrow> py \<in> in_flight c \<Longrightarrow> delivered u py hdr o1 \<Longrightarrow> ph_opcode hdr = OP_WELCOME \<Longrightarrow>
    acceptor_ack_welcome conn data src hdr o1 = Some (r, t) \<Longrightarrow> chat_step u p c (put_member i t c)"

inductive chat_run :: "(pcall list \<Rightarrow> mobj list option) \<Rightarrow> nat \<Rightarrow> chat \<Rightarrow> chat \<Rightarrow> bool" for u p where
  run_refl: "chat_run u p c c"
| run_more: "chat_run u p c d \<Longrightarrow> chat_step u p d e \<Longrightarrow> chat_run u p c e"

text \<open>
  The invariant: everyone's log, and everything said, is part of the ledger \<open>G\<close>, which gives a number one
  value, and whose entries the presiding participant still has or has truncated.
\<close>

definition functional :: "entry set \<Rightarrow> bool" where
  "functional G \<longleftrightarrow> (\<forall>n a b. (n, a) \<in> G \<longrightarrow> (n, b) \<in> G \<longrightarrow> a = b)"

definition ledger :: "entry set \<Rightarrow> paxos_session \<Rightarrow> bool" where
  "ledger G s \<longleftrightarrow> going s \<and> functional G \<and> log_of s \<subseteq> G \<and> hole_ok s \<and>
     (\<forall>e\<in>G. e \<in> log_of s \<or> (\<forall>e'\<in>log_of s. fst e < fst e'))"

definition agreed_on :: "(pcall list \<Rightarrow> mobj list option) \<Rightarrow> nat \<Rightarrow> entry set \<Rightarrow> chat \<Rightarrow> bool" where
  "agreed_on u p G c \<longleftrightarrow> ledger G (member c p) \<and>
     (\<forall>i. \<not> ended (member c i) \<longrightarrow> log_wf (member c i) \<and> log_of (member c i) \<subseteq> G) \<and>
     (\<forall>py\<in>in_flight c. honest u G py) \<and> (\<forall>i. sends (member c i) \<subseteq> in_flight c)"

subsection \<open>One step\<close>

text \<open>The reports of a sync are the messages on which the log may be truncated.\<close>

definition reports :: "event \<Rightarrow> bool" where
  "reports e \<longleftrightarrow> (case e of E_message q hdr o1 \<Rightarrow> ph_opcode hdr = OP_LAST | _ \<Rightarrow> False)"

definition event_entries :: "event \<Rightarrow> entry set" where
  "event_entries e = (case e of E_message q hdr o1 \<Rightarrow> handed hdr o1 | _ \<Rightarrow> {})"

context msgpack_unpacker
begin

lemma preside_told:
  assumes "handle e s = Some (r, t)" "presiding s e" "\<not> reports e"
  shows "told unpack s t"
proof (cases e)
  case (E_request k m)
  with assms show ?thesis by (auto simp: handle_def intro: request_told)
next
  case (E_message q hdr o1)
  with assms have "proposer_dispatch q hdr o1 s = Some (r, t)" "prep s = None" "ph_opcode hdr \<noteq> OP_LAST"
    by (auto simp: handle_def presiding_def session_dispatch_def reports_def)
  then show ?thesis by (rule proposer_dispatch_told)
next
  case (E_continue k chan)
  with assms(1) have "continue_session k chan s = Some (r, t)" by (simp add: handle_def)
  then obtain kont :: paxos_continuation and found v where k: "map_of (clist s) k = Some kont" and
    v: "(case found of None \<Rightarrow> Some (0, s) | Some a \<Rightarrow> run_continuation (pk_func kont) chan a kont s) = Some (r, v)"
    and t: "v\<lparr>clist := filter (\<lambda>(k', _). k' \<noteq> k) (clist v)\<rparr> = t"
    by (simp add: continue_session_def bind_Some_iff if_None_iff) blast
  have "pk_func kont \<noteq> Continue_ack_reject" using assms(2) k E_continue by (simp add: presiding_def kont_of_def)
  then have "told unpack s v" using v by (auto intro: continuation_told split: option.splits)
  moreover have "told unpack v t" unfolding t [symmetric] by (rule same_told) (auto simp: log_same_def intro: still_same)
  ultimately show ?thesis by (rule told_trans)
next
  case (E_drop q)
  with assms(1) show ?thesis by (auto simp: handle_def bind_Some_iff intro: drop_told split: option.splits)
next
  case E_timer
  with assms(1) have h: "sync_session s = Some (r, t)" by (simp add: handle_def)
  show ?thesis by (rule still_told [OF sync_session_still [OF h] sync_session_step [OF h]])
qed

lemma preside_shed:
  assumes "handle e s = Some (r, t)" "presiding s e" "reports e" "going s" "hole_ok s" "top_free t"
  shows "quietly unpack s t \<and> shed s t \<and> hole_ok t"
proof -
  from assms(3) obtain q hdr o1 where e: "e = E_message q hdr o1" "ph_opcode hdr = OP_LAST"
    by (auto simp: reports_def split: event.splits)
  with assms(1,2) have "proposer_ack_last hdr o1 s = Some (r, t)"
    by (auto simp: handle_def presiding_def session_dispatch_def proposer_dispatch_def)
  then show ?thesis using assms(4-) by (rule ack_last_shed)
qed

lemma follow_heeds:
  assumes "handle e s = Some (r, t)" "following s e" "log_inv s"
  shows "heeds unpack (event_entries e) s t"
proof (cases e)
  case (E_request k m)
  with assms show ?thesis by (auto simp: handle_def following_def intro: still_heeds request_acceptor_still)
next
  case (E_message q hdr o1)
  with assms obtain c where "acceptor_handle q hdr o1 s = Some (c, t)"
    by (auto simp: handle_def following_def session_dispatch_def acceptor_dispatch_def bind_Some_iff split: if_splits)
  then show ?thesis unfolding E_message event_entries_def by (simp add: acceptor_handle_heeds)
next
  case (E_continue k chan)
  with assms(1) have "continue_session k chan s = Some (r, t)" by (simp add: handle_def)
  then obtain kont :: paxos_continuation and found v where k: "map_of (clist s) k = Some kont" and
    v: "(case found of None \<Rightarrow> Some (0, s) | Some a \<Rightarrow> run_continuation (pk_func kont) chan a kont s) = Some (r, v)"
    and t: "v\<lparr>clist := filter (\<lambda>(k', _). k' \<noteq> k) (clist v)\<rparr> = t"
    by (simp add: continue_session_def bind_Some_iff if_None_iff) blast
  have f: "pk_func kont \<noteq> Continue_ack_reject" "pk_func kont \<noteq> Continue_welcome"
    using assms(2) k E_continue by (simp_all add: following_def kont_of_def)
  have "still unpack s v"
  proof (cases found)
    case (Some a)
    with v f assms(3) show ?thesis
      by (cases "pk_func kont") (auto simp: run_continuation_def intro: continue_ack_welcome_still continue_ack_redirect_still
          continue_ack_refuse_still)
  qed (use v in simp)
  moreover have "still unpack v t" unfolding t [symmetric] by (rule still_same) simp_all
  ultimately show ?thesis by (blast intro: still_heeds still_trans)
next
  case (E_drop q)
  with assms(1,2) show ?thesis
    by (auto simp: handle_def following_def bind_Some_iff intro: still_heeds drop_acceptor_still split: option.splits)
next
  case E_timer
  with assms(1) show ?thesis by (auto simp: handle_def intro: still_heeds sync_session_still)
qed

end

subsection \<open>The newcomer\<close>

text \<open>Whatever the objects of the welcome are: if the session is built, the log it starts with is the one handed over.\<close>

lemma welcome_acceptors_log:
  "welcome_acceptors ps src b s = Some (r, t) \<Longrightarrow> log_same s t \<and> quietly u s t"
proof (induction ps arbitrary: s)
  case (Cons p ps)
  then obtain acc where acc: "paxos_acceptor_unpack p = Some acc" by (auto simp: bind_Some_iff)
  let ?s = "s\<lparr>aheap := (aheap s)(brk s \<mapsto> acc), brk := Suc (brk s), alist := alist s @ [brk s]\<rparr>"
  show ?case
  proof (cases "pa_paxid acc = b \<or> pa_paxid acc = self_id s")
    case True
    then obtain v where "welcome_acceptors ps src b v = Some (r, t)" "log_same s v" "out v = out s"
      using Cons.prems acc
      by (auto simp: alloc_acceptor_def upd_acceptor_def log_same_def Let_def split: if_splits)
    with Cons.IH [of v] show ?thesis by (blast intro: log_same_trans quietly_trans quietly_same)
  next
    case False
    let ?v = "snd (state_connect (pa_desc acc) (brk ?s) (snd (continuation_new Continue_ack_welcome (pa_paxid acc) ?s)))"
    have v: "log_same s ?v" "quietly u s ?v"
      by (auto simp: log_same_def state_connect_def continuation_new_def quietly_def emit_def Let_def)
    have "welcome_acceptors ps src b ?v = Some (r, t) \<or> t = ?v"
      using False Cons.prems acc
      by (auto simp: alloc_acceptor_def state_connect_def continuation_new_def Let_def split: if_splits)
    with v Cons.IH [of ?v] show ?thesis by (blast intro: log_same_trans quietly_trans)
  qed
qed (simp add: quietly_refl)

lemma welcome_instances_log:
  "welcome_instances ps s = Some t \<Longrightarrow> \<exists>xs. map paxos_instance_unpack ps = map Some xs \<and>
     ilist t = ilist s @ [brk s..<brk s + length xs] \<and> idefer t = idefer s \<and> ended t = ended s \<and> out t = out s \<and>
     brk t = brk s + length xs \<and> (\<forall>i<brk s. iheap t i = iheap s i) \<and> (\<forall>k<length xs. iheap t (brk s + k) = Some (xs ! k))"
proof (induction ps arbitrary: s)
  case Nil
  then show ?case by (intro exI [of _ "[]"]) simp
next
  case (Cons p ps)
  then obtain x where x: "paxos_instance_unpack p = Some x" by (auto simp: bind_Some_iff)
  let ?v = "s\<lparr>iheap := (iheap s)(brk s \<mapsto> x), brk := Suc (brk s), ilist := ilist s @ [brk s]\<rparr>"
  have "welcome_instances ps ?v = Some t" using Cons.prems x by (simp add: alloc_instance_def)
  from Cons.IH [OF this] obtain xs where xs: "map paxos_instance_unpack ps = map Some xs"
    "ilist t = ilist s @ [brk s] @ [Suc (brk s)..<Suc (brk s) + length xs]" "idefer t = idefer s" "ended t = ended s" "out t = out s"
    "brk t = Suc (brk s) + length xs" "\<forall>i<Suc (brk s). iheap t i = iheap ?v i" "\<forall>k<length xs. iheap t (Suc (brk s) + k) = Some (xs ! k)"
    by auto
  have "iheap t (brk s + k) = Some ((x # xs) ! k)" if "k < length (x # xs)" for k
    using that xs(7,8) by (cases k) auto
  moreover have "[brk s..<brk s + length (x # xs)] = brk s # [Suc (brk s)..<Suc (brk s) + length xs]" by (simp add: upt_rec)
  ultimately show ?case using x xs by (intro exI [of _ "x # xs"]) auto
qed

lemma find_hole_log:
  "find_hole p is s = Some t \<Longrightarrow> ilist t = ilist s \<and> idefer t = idefer s \<and> ended t = ended s \<and> out t = out s \<and> brk t = brk s \<and>
     (\<forall>i. map_option entry_of (iheap t i) = map_option entry_of (iheap s i))"
proof (induction p "is" s rule: find_hole.induct)
  case (2 p i rest s)
  then obtain x where x: "iheap s i = Some x" by (auto simp: bind_Some_iff)
  show ?case
  proof (cases "ph_inum (pi_hdr x) = ihole s \<and> pi_committed x")
    case True
    let ?v = "s\<lparr>iheap := (iheap s)(i \<mapsto> x\<lparr>pi_cached := True, pi_learned := True\<rparr>)\<rparr>"
    have u: "upd_instance i (\<lambda>x. x\<lparr>pi_cached := True, pi_learned := True\<rparr>) s = Some ?v" using x by (simp add: upd_instance_def)
    have "find_hole (Some i) rest (?v\<lparr>ihole := ihole ?v + 1\<rparr>) = Some t" using 2(2) x True by (simp add: upd_instance_def)
    from 2(1) [OF x _ _ u this] True have h: "ilist t = ilist ?v" "idefer t = idefer ?v" "ended t = ended ?v" "out t = out ?v" "brk t = brk ?v"
      "\<forall>i. map_option entry_of (iheap t i) = map_option entry_of (iheap ?v i)" by simp_all
    moreover have "map_option entry_of (iheap ?v j) = map_option entry_of (iheap s j)" for j
      using x by (simp add: entry_of_def)
    ultimately show ?thesis by simp
  next
    case False
    with 2(2) x show ?thesis by (auto split: if_splits)
  qed
qed auto

text \<open>The log of \<open>t\<close> when its list is \<open>[b..<b + n]\<close>.\<close>

lemma fresh_log:
  assumes "ilist t = [b..<b + length xs]" "idefer t = []" "brk t = b + length xs"
    "\<forall>k<length xs. map_option entry_of (iheap t (b + k)) = Some (entry_of (xs ! k))"
  shows "log_of t = entry_of ` set xs" "ascending xs \<Longrightarrow> log_wf t"
proof -
  have n: "\<exists>y. iheap t (b + k) = Some y \<and> entry_of y = entry_of (xs ! k)" if "k < length xs" for k
    using assms(4) that by auto
  show "log_of t = entry_of ` set xs"
  proof (intro equalityI subsetI)
    fix e assume "e \<in> log_of t"
    then obtain i y where i: "e = entry_of y" "i \<in> set (ilist t)" "iheap t i = Some y" unfolding log_of_def by blast
    define k where "k = i - b"
    from i(2) assms(1) have k: "i = b + k" "k < length xs" by (auto simp: k_def)
    with n [OF k(2)] i have "e = entry_of (xs ! k)" by auto
    with k(2) show "e \<in> entry_of ` set xs" by simp
  next
    fix e assume "e \<in> entry_of ` set xs"
    then obtain k where k: "k < length xs" "e = entry_of (xs ! k)" by (auto simp: in_set_conv_nth)
    from n [OF k(1)] obtain y where y: "iheap t (b + k) = Some y" "entry_of y = e" using k(2) by auto
    have "b + k \<in> set (ilist t)" using assms(1) k(1) by simp
    with y show "e \<in> log_of t" unfolding log_of_def by blast
  qed
  assume asc: "ascending xs"
  have num: "inum_of t (b + k) = Some (ph_inum (pi_hdr (xs ! k)))" if "k < length xs" for k
    using n [OF that] by (auto simp: inum_of_def entry_of_def)
  have "ordered paxid_compare (inum_of t) [b..<b + length xs]"
    unfolding ordered_def
  proof
    show "\<forall>i\<in>set [b..<b + length xs]. inum_of t i \<noteq> None"
    proof
      fix i assume "i \<in> set [b..<b + length xs]"
      then have "b + (i - b) = i" "i - b < length xs" by auto
      with num [of "i - b"] show "inum_of t i \<noteq> None" by simp
    qed
    show "sorted_wrt (\<lambda>x y. paxid_compare (the (inum_of t x)) (the (inum_of t y)) < 0) [b..<b + length xs]"
      using asc num by (simp add: ascending_def sorted_wrt_iff_nth_less)
  qed
  then show "log_wf t" using assms(1,2,3) by (simp add: log_wf_def)
qed

lemma welcomed_log:
  assumes "acceptor_ack_welcome conn data src hdr o1 = Some (r, t)" "delivered u py hdr o1" "ph_opcode hdr = OP_WELCOME"
    "honest u G py"
  shows "log_wf t \<and> log_of t \<subseteq> G" "\<forall>q py. Send q py \<in> set (out t) \<longrightarrow> quiet u py"
proof -
  let ?s = "welcome_start conn data hdr"
  from assms(1) obtain o2 arr s1 as c w where o1: "o1 = Some o2" and arr: "array_of_size 3 o2 = Some arr"
    and s1: "welcome_info (arr ! 0) ?s = Some s1"
    and w: "welcome_acceptors as src (pid (ph_ballot hdr)) (s1\<lparr>live_count := 1\<rparr>) = Some (c, w)"
    and rest: "if c \<noteq> 0 then Some (c, w) = Some (r, t) else \<exists>ps x. array (arr ! 2) = Some ps \<and> welcome_instances ps w = Some x \<and>
      find_hole None (ilist x) (x\<lparr>ihole := ibase x\<rparr>) = Some t"
    by (auto simp: acceptor_ack_welcome_def bind_Some_iff Let_def split: if_splits)
  have s: "ilist ?s = []" "idefer ?s = []" "\<forall>q py. Send q py \<notin> set (out ?s)"
    by (simp_all add: welcome_start_def session_new_def zero_session_def emit_def Let_def)
  have one: "ilist s1 = []" "idefer s1 = []" "\<forall>q py. Send q py \<notin> set (out s1)"
    using s1 s by (auto simp: welcome_info_def bind_Some_iff emit_def Let_def)
  from welcome_acceptors_log [OF w, of u] one have two: "ilist w = []" "idefer w = []" "\<forall>q py. Send q py \<in> set (out w) \<longrightarrow> quiet u py"
    by (auto simp: log_same_def quietly_def)
  have "(log_wf t \<and> log_of t \<subseteq> G) \<and> (\<forall>q py. Send q py \<in> set (out t) \<longrightarrow> quiet u py)"
  proof (cases "c = 0")
    case False
    with rest have "t = w" by simp
    with two show ?thesis by (simp add: log_wf_def log_of_def)
  next
    case True
    with rest obtain ps x where ps: "array (arr ! 2) = Some ps" and x: "welcome_instances ps w = Some x"
      and t: "find_hole None (ilist x) (x\<lparr>ihole := ibase x\<rparr>) = Some t" by auto
    from welcome_instances_log [OF x] two obtain xs where xs: "map paxos_instance_unpack ps = map Some xs"
      "ilist x = [brk w..<brk w + length xs]" "idefer x = []" "out x = out w" "brk x = brk w + length xs"
      "\<forall>k<length xs. iheap x (brk w + k) = Some (xs ! k)" by auto
    note h = find_hole_log [OF t]
    have "welcomes u py xs"
      using assms(2,3) o1 arr ps xs(1) unfolding welcomes_def
      by (cases o2; cases "arr ! 2") (auto simp: array_of_size_def split: if_splits)
    with assms(4) have honest: "ascending xs" "entry_of ` set xs \<subseteq> G" by (auto simp: honest_def)
    have "ilist t = [brk w..<brk w + length xs]" "idefer t = []" "brk t = brk w + length xs"
      "\<forall>k<length xs. map_option entry_of (iheap t (brk w + k)) = Some (entry_of (xs ! k))"
      using h xs by simp_all
    from fresh_log [OF this] honest h xs(4) two(3) show ?thesis by auto
  qed
  then show "log_wf t \<and> log_of t \<subseteq> G" "\<forall>q py. Send q py \<in> set (out t) \<longrightarrow> quiet u py" by auto
qed

subsection \<open>The ledger\<close>

lemma log_functional: "log_wf s \<Longrightarrow> functional (log_of s)"
  unfolding functional_def using in_log [of s] by (metis fst_conv option.inject snd_conv)

lemma hole_log: "hole_ok s \<Longrightarrow> log_of s \<noteq> {}"
proof -
  assume "hole_ok s"
  then obtain j x where "j \<in> set (ilist s)" "iheap s j = Some x" by (auto simp: hole_ok_def before_hole_def inum_of_def)
  then have "entry_of x \<in> log_of s" unfolding log_of_def by blast
  then show "log_of s \<noteq> {}" by blast
qed

lemma ledger_grown:
  assumes "ledger G s" "going t" "grown s t" "hole_ok t"
  shows "ledger (G \<union> log_of t) t"
proof -
  from assms(1) obtain e0 where e0: "e0 \<in> log_of s" using hole_log [of s] by (auto simp: ledger_def)
  have G: "functional G" "log_of s \<subseteq> G" "\<And>e. e \<in> G \<Longrightarrow> e \<in> log_of s \<or> (\<forall>e'\<in>log_of s. fst e < fst e')"
    using assms(1) by (auto simp: ledger_def)
  have T: "functional (log_of t)" using assms(2) log_functional by (simp add: going_def)
  have st: "log_of s \<subseteq> log_of t" "\<And>e. e \<in> log_of t \<Longrightarrow> e \<in> log_of s \<or> (\<forall>e'\<in>log_of s. fst e' < fst e)"
    using assms(3) by (auto simp: grown_def above_def)
  have mixed: "a = b" if "(n, a) \<in> G" "(n, b) \<in> log_of t" for n a b
  proof (cases "(n, a) \<in> log_of s \<or> (n, b) \<in> log_of s")
    case True
    with that st(1) G(1,2) T show ?thesis unfolding functional_def by blast
  next
    case False
    with G(3) [OF that(1)] st(2) [OF that(2)] e0 have "n < fst e0" "fst e0 < n" by fastforce+
    then show ?thesis by simp
  qed
  have "functional (G \<union> log_of t)" using G(1) T mixed unfolding functional_def by blast
  moreover have "e \<in> log_of t \<or> (\<forall>e'\<in>log_of t. fst e < fst e')" if "e \<in> G" for e
    using G(3) [OF that] st e0 by (meson less_trans subsetD)
  ultimately show ?thesis using assms(2,4) unfolding ledger_def by blast
qed

lemma ledger_shed:
  assumes "ledger G s" "going t" "shed s t" "hole_ok t"
  shows "ledger G t"
  using assms unfolding ledger_def shed_def by blast

subsection \<open>The invariant\<close>

lemma agreed_other:
  assumes "agreed_on u p G c" "i \<noteq> p" "\<not> ended t \<Longrightarrow> log_wf t \<and> log_of t \<subseteq> G" "\<forall>py\<in>sends t. honest u G py"
  shows "agreed_on u p G (put_member i t c)"
  using assms by (auto simp: agreed_on_def put_member_def)

lemma agreed_presiding:
  assumes "agreed_on u p G c" "ledger H t" "G \<subseteq> H" "\<forall>py\<in>sends t. honest u H py"
  shows "agreed_on u p H (put_member p t c)"
proof -
  have "log_wf t" "log_of t \<subseteq> H" using assms(2) by (simp_all add: ledger_def going_def)
  moreover have "log_of (member c i) \<subseteq> H" if "\<not> ended (member c i)" for i
    using assms(1,3) that unfolding agreed_on_def by blast
  moreover have "honest u H py" if "py \<in> in_flight c" for py
    using assms(1,3) that honest_mono unfolding agreed_on_def by blast
  ultimately show ?thesis using assms(1,2,4) unfolding agreed_on_def put_member_def by auto
qed

lemma sends_quietly:
  "quietly u s t \<Longrightarrow> py \<in> sends t \<Longrightarrow> py \<in> sends s \<or> quiet u py"
  by (auto simp: quietly_def sends_def)

lemma sent_honest: "agreed_on u p G c \<Longrightarrow> py \<in> sends (member c i) \<Longrightarrow> honest u G py"
  unfolding agreed_on_def by blast

lemma quietly_honest:
  "agreed_on u p G c \<Longrightarrow> quietly u (member c i) t \<Longrightarrow> \<forall>py\<in>sends t. honest u G py"
  using sends_quietly sent_honest honest_quiet by metis

lemma handed_told:
  assumes "agreed_on u p G c" "authentic u c e"
  shows "event_entries e \<subseteq> G"
proof
  fix x assume "x \<in> event_entries e"
  then obtain q hdr o1 v where e: "e = E_message q hdr (Some o1)" and x: "telling (ph_opcode hdr)" "paxos_value_unpack o1 = Some v"
    "x = (ph_inum hdr, raw_value v)"
    by (auto simp: event_entries_def handed_def split: event.splits)
  from assms(2) e obtain py where py: "py \<in> in_flight c" "delivered u py hdr (Some o1)" by (auto simp: authentic_def)
  have "tells u py x" unfolding tells_def using py(2) x by blast
  then show "x \<in> G" using assms(1) py(1) unfolding agreed_on_def honest_def by blast
qed

lemma agreed_preside:
  assumes u: "msgpack_unpacker u" and ok: "agreed_on u p G c" and h: "handle e (member c p) = Some (r, t)" "presiding (member c p) e"
    and t: "\<not> ended t" "top_free t"
  shows "\<exists>H. agreed_on u p H (put_member p t c)"
proof (cases "reports e")
  case True
  have s: "ledger G (member c p)" "going (member c p)" "hole_ok (member c p)" using ok by (auto simp: agreed_on_def ledger_def)
  from msgpack_unpacker.preside_shed [OF u h True s(2,3) t(2)] have q: "quietly u (member c p) t" "shed (member c p) t" "hole_ok t"
    by auto
  have "going t" using handle_inv [OF h(1)] s(2) t(1) by (simp add: going_def log_inv_def)
  from ledger_shed [OF s(1) this q(2,3)] agreed_presiding [OF ok _ subset_refl quietly_honest [OF ok q(1)]]
  show ?thesis by blast
next
  case False
  have s: "ledger G (member c p)" "going (member c p)" "hole_ok (member c p)" using ok by (auto simp: agreed_on_def ledger_def)
  note told = msgpack_unpacker.preside_told [OF u h False]
  from told s(2,3) t(1,2) obtain es where es: "grown (member c p) t" "hole_ok t" "out t = out (member c p) @ es"
    "\<forall>q py. Send q py \<in> set es \<longrightarrow> honest u (log_of t) py" by (auto simp: told_def)
  have "honest u (G \<union> log_of t) py" if "py \<in> sends t" for py
  proof (cases "py \<in> sends (member c p)")
    case True
    show ?thesis by (rule honest_mono [OF sent_honest [OF ok True]]) simp
  next
    case False
    with that es(3,4) have "honest u (log_of t) py" by (auto simp: sends_def)
    then show ?thesis by (rule honest_mono) simp
  qed
  then have "\<forall>py\<in>sends t. honest u (G \<union> log_of t) py" by blast
  from agreed_presiding [OF ok ledger_grown [OF s(1) going_step [OF told_step [OF told] s(2) t(1)] es(1,2)] _ this]
  show ?thesis by blast
qed

lemma agreed_step:
  assumes u: "msgpack_unpacker u" and st: "chat_step u p c d" and ok: "agreed_on u p G c"
  shows "\<exists>H. agreed_on u p H d"
  using st
proof cases
  case (preside e r t)
  then show ?thesis using agreed_preside [OF u ok] by blast
next
  case (follow i e r t)
  have s: "going (member c i)" using ok follow(3) by (simp add: agreed_on_def going_def)
  then have inv: "log_inv (member c i)" by (simp add: going_def log_inv_def)
  have heeds: "heeds u (event_entries e) (member c i) t"
    by (rule msgpack_unpacker.follow_heeds [OF u follow(6,5) inv])
  have log: "log_of (member c i) \<subseteq> G" using ok follow(3) by (simp add: agreed_on_def)
  have "log_wf t \<and> log_of t \<subseteq> G" if "\<not> ended t"
    using that handle_inv [OF follow(6) inv] heeds s log handed_told [OF ok follow(4)] by (auto simp: log_inv_def heeds_def)
  moreover have "quietly u (member c i) t" using heeds s by (simp add: heeds_def)
  then have "\<forall>py\<in>sends t. honest u G py" by (rule quietly_honest [OF ok])
  ultimately have "agreed_on u p G (put_member i t c)" by (intro agreed_other [OF ok follow(2)]) simp_all
  then show ?thesis unfolding follow(1) by blast
next
  case (enter i py hdr o1 conn data src r t)
  have "honest u G py" using ok enter(3) by (simp add: agreed_on_def)
  note w = welcomed_log [OF enter(6,4,5) this]
  have "agreed_on u p G (put_member i t c)"
    by (rule agreed_other [OF ok enter(2)]) (use w in \<open>auto simp: sends_def intro: honest_quiet\<close>)
  then show ?thesis unfolding enter(1) by blast
qed

lemma agreed_run: "chat_run u p c d \<Longrightarrow> msgpack_unpacker u \<Longrightarrow> agreed_on u p G c \<Longrightarrow> \<exists>H. agreed_on u p H d"
proof (induction rule: chat_run.induct)
  case (run_more c d e)
  then obtain H where "agreed_on u p H d" by blast
  with agreed_step [OF run_more.prems(1) run_more.hyps(2)] show ?case by blast
qed blast

lemma agreed_values:
  assumes "agreed_on u p G c" "\<not> ended (member c i)" "\<not> ended (member c j)"
    "instance_at (member c i) n = Some x" "instance_at (member c j) n = Some y"
  shows "raw_value (pi_val x) = raw_value (pi_val y)"
proof -
  have G: "(n, raw_value (pi_val z)) \<in> G" if "\<not> ended (member c k)" "instance_at (member c k) n = Some z" for k z
  proof -
    have k: "log_wf (member c k)" "log_of (member c k) \<subseteq> G" using assms(1) that(1) by (simp_all add: agreed_on_def)
    have "(n, raw_value (pi_val z)) \<in> log_of (member c k)" unfolding in_log [OF k(1)] using that(2) by simp
    with k(2) show ?thesis by blast
  qed
  have "functional G" using assms(1) by (simp add: agreed_on_def ledger_def)
  then show ?thesis using G [OF assms(2,4)] G [OF assms(3,5)] unfolding functional_def by blast
qed

text \<open>What \<open>hole_ok\<close> says of the log.\<close>

lemma hole_ok_at:
  assumes "log_wf s" "hole_ok s"
  shows "instance_at s (ihole s - 1) \<noteq> None \<and>
    (\<forall>n x. instance_at s n = Some x \<longrightarrow> (if n < ihole s then pi_committed x \<and> pi_learned x else \<not> pi_learned x)) \<and>
    (\<exists>i\<in>set (ilist s). istart s = Some i \<and> inum_of s i \<in> {Some (ihole s - 1), Some (ihole s)})"
proof (intro conjI allI impI)
  note at = instance_at_iff [OF assms(1)]
  from assms(2) obtain j x where "j \<in> set (ilist s)" "iheap s j = Some x" "ph_inum (pi_hdr x) = ihole s - 1"
    by (auto simp: hole_ok_def before_hole_def inum_of_def)
  then have "instance_at s (ihole s - 1) = Some x" unfolding at by blast
  then show "instance_at s (ihole s - 1) \<noteq> None" by simp
  show "\<exists>i\<in>set (ilist s). istart s = Some i \<and> inum_of s i \<in> {Some (ihole s - 1), Some (ihole s)}"
    using assms(2) by (auto simp: hole_ok_def start_ok_def)
  fix n x assume "instance_at s n = Some x"
  then obtain i where "i \<in> set (ilist s)" "iheap s i = Some x" "ph_inum (pi_hdr x) = n" unfolding at by blast
  then show "if n < ihole s then pi_committed x \<and> pi_learned x else \<not> pi_learned x"
    using assms(2) by (auto simp: hole_ok_def before_hole_def settled_def)
qed

text \<open>One participant alone, who has sent nothing, is an agreed chat.\<close>

definition alone :: "nat \<Rightarrow> paxos_session \<Rightarrow> chat" where
  "alone p s = \<lparr>member = (\<lambda>i. if i = p then s else s\<lparr>ended := True, out := []\<rparr>), in_flight = sends s\<rparr>"

lemma alone_agreed: "going s \<Longrightarrow> hole_ok s \<Longrightarrow> sends s = {} \<Longrightarrow> agreed_on u p (log_of s) (alone p s)"
  using log_functional [of s] by (auto simp: agreed_on_def alone_def ledger_def going_def) (auto simp: sends_def)

end
