(* ===== verification/Examples.thy ===== *)
theory Examples
  imports Sync_Facts Promise_Wire Session_Run
begin

section \<open>Concrete sessions\<close>

text \<open>
  Sessions that the properties are tried on: a participant alone, the same participant after it has
  invited and welcomed a second one, and that second one.  All are computed by the model's own operations.
\<close>

definition run :: "(paxos_session \<Rightarrow> int result) \<Rightarrow> paxos_session \<Rightarrow> paxos_session" where
  "run f s = snd (the (f s))"

lemma run_eq: "f s \<noteq> None \<Longrightarrow> f s = Some (fst (the (f s)), run f s)"
  by (auto simp: run_def)

text \<open>Alone in a chat; the UUID is 9.\<close>

definition solo :: paxos_session where
  "solo = start_session (\<lambda>_. 0) [9, 0, 0, 0, 0, 0, 0, 0] [97] (Client_data 0)"

text \<open>After inviting \<open>b\<close>, and after its connection on channel 7 has been made.\<close>

definition inviting :: paxos_session where
  "inviting = run (paxos_request DEC_JOIN [98]) solo"

definition host :: paxos_session where
  "host = run (continue_session (fst (hd (clist inviting))) (Some 7)) inviting"

text \<open>With a chat decreed and not yet accepted.\<close>

definition proposing :: paxos_session where
  "proposing = run (paxos_request DEC_CHAT [104, 105]) host"

text \<open>The second participant, made from the welcome it receives on channel 5.\<close>

definition msg :: "paxop \<Rightarrow> paxid \<Rightarrow> paxos_header" where
  "msg op n = \<lparr>ph_session = 9, ph_ballot = PPair 1 1, ph_opcode = op, ph_inum = n\<rparr>"

definition joined_at :: "paxid \<Rightarrow> paxos_instance" where
  "joined_at n = \<lparr>pi_hdr = msg OP_DECREE n, pi_committed = True, pi_cached = True, pi_learned = True, pi_votes = 1,
     pi_rejects = 0, pi_val = \<lparr>pv_dkind = DEC_JOIN, pv_reqid = PPair 1 n, pv_extra = 0\<rparr>\<rparr>"

definition welcome_msg :: mobj where
  "welcome_msg = M_array
     [M_array [M_positive_integer 9, M_positive_integer 1],
      M_array [acceptor_obj \<lparr>pa_paxid = 1, pa_peer = None, pa_desc = [97]\<rparr>,
               acceptor_obj \<lparr>pa_paxid = 2, pa_peer = None, pa_desc = [98]\<rparr>],
      M_array [instance_obj (joined_at 1), instance_obj (joined_at 2)]]"

definition guest :: paxos_session where
  "guest = snd (the (acceptor_ack_welcome (\<lambda>_. 0) (Client_data 0) (Some 5) (msg OP_WELCOME 2) (Some welcome_msg)))"

text \<open>A chat as the first participant decrees it, and the request it belongs to.\<close>

definition chat_value :: paxos_value where
  "chat_value = \<lparr>pv_dkind = DEC_CHAT, pv_reqid = PPair 1 5, pv_extra = 0\<rparr>"

definition chat_request :: paxos_request where
  "chat_request = \<lparr>pr_val = chat_value, pr_data = [104, 105]\<rparr>"

definition guest_asked :: paxos_session where
  "guest_asked = run (session_dispatch 5 (msg OP_REQUEST 1) (Some (request_obj chat_request))) guest"

definition guest_voted :: paxos_session where
  "guest_voted = run (session_dispatch 5 (msg OP_DECREE 3) (Some (value_obj chat_value))) guest_asked"

definition guest_learned :: paxos_session where
  "guest_learned = run (session_dispatch 5 (msg OP_COMMIT 3) (Some (value_obj chat_value))) guest_voted"

text \<open>
  The first participant with two chats decreed, and the second with the first of them, where what they hold
  is known to be committed and its requests are there, but nothing has been learned yet.
\<close>

definition mark_ready :: "iref \<Rightarrow> paxos_session \<Rightarrow> paxos_session" where
  "mark_ready i s = the (upd_instance i (\<lambda>x. x\<lparr>pi_committed := True, pi_cached := True\<rparr>) s)"

definition host_ready :: paxos_session where
  "host_ready = (let s = run (paxos_request DEC_CHAT [106]) proposing
     in mark_ready (ilist s ! 2) (mark_ready (ilist s ! 3) s))"

definition first_chat :: paxos_value where
  "first_chat = chat_value\<lparr>pv_reqid := PPair 1 3\<rparr>"

definition guest_ready :: paxos_session where
  "guest_ready = (let s = run (session_dispatch 5 (msg OP_REQUEST 1) (Some (request_obj (chat_request\<lparr>pr_val := first_chat\<rparr>)))) guest;
       s = run (session_dispatch 5 (msg OP_DECREE 3) (Some (value_obj first_chat))) s
     in mark_ready (ilist s ! 2) s)"

lemma guest_ready_shape: "let s = guest_ready; r = learn_loop (Some (ilist s ! 2)) s in log_ok s \<and>
    ilist s = take 2 (ilist s) @ [ilist s ! 2] \<and> r \<noteq> None \<and> fst (the r) = 0 \<and> ihole s = 3 \<and> chat_log (out s) = [] \<and>
    ihole (snd (the r)) = 4 \<and> chat_log (out (snd (the r))) = [[104, 105]]"
  by code_simp

lemma host_ready_shape: "let s = host_ready; r = learn_loop (Some (ilist s ! 2)) s in log_ok s \<and>
    ilist s = take 2 (ilist s) @ [ilist s ! 2, ilist s ! 3] \<and> r \<noteq> None \<and> fst (the r) = 0 \<and> ihole s = 3 \<and> chat_log (out s) = [] \<and>
    ihole (snd (the r)) = 5 \<and> chat_log (out (snd (the r))) = [[104, 105], [106]]"
  by code_simp

lemma ready_logs_agree: "let s = guest_ready; t = host_ready in logs_agree s [ilist s ! 2] t [ilist t ! 2, ilist t ! 3]"
  by code_simp

text \<open>A third participant: the second one learns its join and gets its hello on channel 6.\<close>

definition join_value :: paxos_value where
  "join_value = \<lparr>pv_dkind = DEC_JOIN, pv_reqid = PPair 1 6, pv_extra = 0\<rparr>"

definition trio :: paxos_session where
  "trio = run (session_dispatch 6 (msg OP_HELLO 3) None)
     (run (session_dispatch 5 (msg OP_COMMIT 3) (Some (value_obj join_value)))
     (run (session_dispatch 5 (msg OP_DECREE 3) (Some (value_obj join_value)))
     (run (session_dispatch 5 (msg OP_REQUEST 1) (Some (request_obj \<lparr>pr_val = join_value, pr_data = [99]\<rparr>))) guest)))"

text \<open>Two chats later the first participant is lost, and the second prepares.\<close>

definition trio_chat :: "paxid \<Rightarrow> paxos_session \<Rightarrow> paxos_session" where
  "trio_chat n s = run (session_dispatch 5 (msg OP_COMMIT n) (Some (value_obj (chat_value\<lparr>pv_reqid := PPair 1 (n + 5)\<rparr>))))
     (run (session_dispatch 5 (msg OP_REQUEST 1) (Some (request_obj (chat_request\<lparr>pr_val := chat_value\<lparr>pv_reqid := PPair 1 (n + 5)\<rparr>\<rparr>)))) s)"

definition heir :: paxos_session where
  "heir = run (drop_session 5 (hd (alist trio))) (trio_chat 5 (trio_chat 4 trio))"

text \<open>The third participant has missed the chats; it loses the first, too, and promises.\<close>

definition late_welcome :: mobj where
  "late_welcome = M_array
     [M_array [M_positive_integer 9, M_positive_integer 1],
      M_array (map (\<lambda>(n, d). acceptor_obj \<lparr>pa_paxid = n, pa_peer = None, pa_desc = [d]\<rparr>) [(1, 97), (2, 98), (3, 99)]),
      M_array (map (\<lambda>n. instance_obj (joined_at n)) [1, 2, 3])]"

definition late :: paxos_session where
  "late = (let s = snd (the (acceptor_ack_welcome (\<lambda>_. 0) (Client_data 0) (Some 5) (msg OP_WELCOME 3) (Some late_welcome)));
               s = run (continue_session (fst (hd (clist s))) (Some 8)) s
           in run (drop_session 5 (hd (alist s))) s)"

definition prepare_hdr :: paxos_header where
  "prepare_hdr = \<lparr>ph_session = 9, ph_ballot = PPair 2 2, ph_opcode = OP_PREPARE, ph_inum = 6\<rparr>"

definition late_promised :: paxos_session where
  "late_promised = run (session_dispatch 8 prepare_hdr None) late"

text \<open>The third's promise as it reaches the second.\<close>

fun sent :: "effect \<Rightarrow> (peer \<times> paxos_yak) option" where
  "sent (Send p py) = Some (p, py)"
| "sent _ = None"

definition late_promise :: mobj where
  "late_promise = (case decode (snd (the (sent (last (out late_promised))))) of Some [M_array [h, votes]] \<Rightarrow> votes | _ \<Rightarrow> M_other)"

definition promise_hdr :: paxos_header where
  "promise_hdr = prepare_hdr\<lparr>ph_opcode := OP_PROMISE\<rparr>"

lemma heir_shape: "let s = heir in is_proposer s = Some True \<and> prep s \<noteq> None \<and> ihole s = 6 \<and> length (idefer s) = 1 \<and> live_count s = 2"
  by code_simp

lemma late_shape: "let s = late_promised in is_proposer s = Some False \<and> ballot s = PPair 2 2 \<and> ihole s = 4"
  by code_simp

text \<open>The program with one chat, UUID 9, and a welcome to another, UUID 12; a continuation of a reject.\<close>

definition chatting :: paxos_state where
  "chatting = snd (the (motmot_session [9, 0, 0, 0, 0, 0, 0, 0] [97] (Client_data 0) (snd (motmot_init (\<lambda>_. 0) (Client_data 1)))))"

definition other_welcome :: mobj where
  "other_welcome = M_array
     [M_array [M_positive_integer 12, M_positive_integer 1],
      M_array [acceptor_obj \<lparr>pa_paxid = 1, pa_peer = None, pa_desc = [97]\<rparr>,
               acceptor_obj \<lparr>pa_paxid = 2, pa_peer = None, pa_desc = [98]\<rparr>],
      M_array [instance_obj (joined_at 1), instance_obj (joined_at 2)]]"

definition reject_kont :: paxos_continuation where
  "reject_kont = \<lparr>pk_func = Continue_ack_reject, pk_session_id = 9, pk_paxid = 2, pk_data = PK_inum 2\<rparr>"

text \<open>They are what they are meant to be.\<close>

lemma host_shape: "map (the \<circ> paxid_of host) (alist host) = [1, 2] \<and> live_count host = 2 \<and> ihole host = 3 \<and> is_proposer host = Some True"
  by code_simp

lemma guest_shape: "map (the \<circ> paxid_of guest) (alist guest) = [1, 2] \<and> live_count guest = 2 \<and> ihole guest = 3 \<and> is_proposer guest = Some False"
  by code_simp

lemma guest_delivery: "chat_log (out guest_voted) = [] \<and> chat_log (out guest_learned) = [[104, 105]]"
  by code_simp

text \<open>Well-formedness of a concrete log, by computation.\<close>

lemma log_wf_code [code]: "log_wf s \<longleftrightarrow>
    (\<forall>i\<in>set (ilist s). inum_of s i \<noteq> None) \<and>
    sorted_wrt (\<lambda>i j. the (inum_of s i) < the (inum_of s j)) (ilist s) \<and>
    distinct (ilist s @ idefer s) \<and> (\<forall>i\<in>set (ilist s @ idefer s). i < brk s)"
  by (simp add: log_wf_def ordered_def)

lemma trio_wf: "log_wf trio" by code_simp
lemma heir_wf: "log_wf heir" by code_simp
lemma late_wf: "log_wf late" by code_simp
lemma solo_wf: "log_wf solo" by code_simp
lemma host_wf: "log_wf host" by code_simp
lemma proposing_wf: "log_wf proposing" by code_simp
lemma guest_wf: "log_wf guest" by code_simp
lemma guest_voted_wf: "log_wf guest_voted" by code_simp
lemma guest_learned_wf: "log_wf guest_learned" by code_simp

end
