(* ===== verification/Chat_Example.thy ===== *)
theory Chat_Example
  imports Agreement Examples
begin

section \<open>A concrete chat\<close>

text \<open>
  The sessions of Examples, put together to a run of a chat of two: the founder invites, welcomes, and decrees
  a chat; the second participant enters from the bytes of the welcome and votes on the bytes of the decree.
\<close>

lemma before_hole_code [code]: "before_hole s \<longleftrightarrow> list_ex (\<lambda>j. inum_of s j = Some (ihole s - 1)) (ilist s) \<and>
    list_all (\<lambda>j. case iheap s j of None \<Rightarrow> True | Some x \<Rightarrow> settled (ihole s) x) (ilist s)"
  by (auto simp: before_hole_def list_ex_iff list_all_iff split: option.splits)

lemma start_ok_code [code]: "start_ok s \<longleftrightarrow>
    (case istart s of None \<Rightarrow> False | Some i \<Rightarrow> i \<in> set (ilist s) \<and> (inum_of s i = Some (ihole s - 1) \<or> inum_of s i = Some (ihole s)))"
  by (auto simp: start_ok_def split: option.splits)

text \<open>The session a chat is started with.\<close>

lemma founder:
  "going (start_session conn rnd desc data)" "hole_ok (start_session conn rnd desc data)" "sends (start_session conn rnd desc data) = {}"
proof -
  show "going (start_session conn rnd desc data)" unfolding going_def by code_simp
  show "hole_ok (start_session conn rnd desc data)" by code_simp
  have "list_all (\<lambda>e. sent e = None) (out (start_session conn rnd desc data))" by code_simp
  then show "sends (start_session conn rnd desc data) = {}" by (force simp: sends_def list_all_iff)
qed

definition deliver :: "(pcall list \<Rightarrow> mobj list option) \<Rightarrow> paxos_yak \<Rightarrow> (paxos_header \<times> mobj option) option" where
  "deliver u py = (case u py of
     Some [M_array ps] \<Rightarrow> if ps \<noteq> [] \<and> length ps \<le> 2 then map_option (\<lambda>h. (h, elem ps 1)) (paxos_header_unpack (ps ! 0)) else None
   | _ \<Rightarrow> None)"

lemma deliver_delivered: "deliver u py \<noteq> None \<Longrightarrow> delivered u py (fst (the (deliver u py))) (snd (the (deliver u py)))"
  by (auto simp: deliver_def delivered_def split: option.splits list.splits mobj.splits if_splits)

lemma top_free_code [code]: "top_free s \<longleftrightarrow> (\<forall>i\<in>set (ilist s). case iheap s i of None \<Rightarrow> True | Some x \<Rightarrow> ph_inum (pi_hdr x) \<noteq> - 1)"
proof -
  have "top_free s \<longleftrightarrow> (\<forall>i\<in>set (ilist s). \<forall>x. iheap s i = Some x \<longrightarrow> fst (entry_of x) \<noteq> - 1)"
    unfolding top_free_def log_of_def by blast
  then show ?thesis by (simp add: entry_of_def split: option.splits)
qed

definition last_sent :: "paxos_session \<Rightarrow> paxos_yak" where
  "last_sent s = snd (the (sent (last (out s))))"

lemma last_sent_sends:
  assumes "sent (last (out s)) \<noteq> None" "out s \<noteq> []"
  shows "last_sent s \<in> sends s"
proof (cases "last (out s)")
  case (Send q py)
  then have "Send q (last_sent s) \<in> set (out s)" using assms(2) last_in_set [of "out s"] by (simp add: last_sent_def)
  then show ?thesis by (auto simp: sends_def)
qed (use assms in simp_all)

text \<open>The second participant.\<close>

definition newcomer :: paxos_session where
  "newcomer = (let (h, o1) = the (deliver decode (last_sent host))
     in snd (the (acceptor_ack_welcome (\<lambda>_. 0) (Client_data 0) (Some 5) h o1)))"

definition decree_event :: event where
  "decree_event = (let (h, o1) = the (deliver decode (last_sent proposing)) in E_message 5 h o1)"

definition newcomer_voted :: paxos_session where
  "newcomer_voted = run (handle decree_event) newcomer"

definition chat_of_two :: chat where
  "chat_of_two = put_member 1 newcomer_voted (put_member 0 proposing (put_member 1 newcomer
     (put_member 0 host (put_member 0 inviting (alone 0 solo)))))"

lemma preside_step:
  assumes "handle e s \<noteq> None" "t = run (handle e) s" "is_proposer s = Some True" "prep s = None"
    "kont_of s e \<noteq> Some Continue_ack_reject" "\<And>q h o1. e \<noteq> E_message q h o1" "\<not> ended t" "top_free t" "member c p = s"
  shows "chat_step u p c (put_member p t c)"
proof (rule preside)
  show "handle e (member c p) = Some (fst (the (handle e s)), t)" using run_eq [of "handle e" s] assms(1,2,9) by simp
  show "presiding (member c p) e" using assms(3-6,9) by (simp add: presiding_def)
  show "authentic u c e" using assms(6) by (cases e) (auto simp: authentic_def)
qed (use assms in simp_all)

lemma step_inviting: "member c 0 = solo \<Longrightarrow> chat_step u 0 c (put_member 0 inviting c)"
proof (rule preside_step [where e = "E_request DEC_JOIN [98]"])
  show "handle (E_request DEC_JOIN [98]) solo \<noteq> None" by code_simp
  show "inviting = run (handle (E_request DEC_JOIN [98])) solo" by (simp add: inviting_def run_def handle_def)
  show "is_proposer solo = Some True" "prep solo = None" "\<not> ended inviting" "top_free inviting" by code_simp+
  show "kont_of solo (E_request DEC_JOIN [98]) \<noteq> Some Continue_ack_reject" by (simp add: kont_of_def)
qed simp_all

lemma step_host: "member c 0 = inviting \<Longrightarrow> chat_step u 0 c (put_member 0 host c)"
proof (rule preside_step [where e = "E_continue (fst (hd (clist inviting))) (Some 7)"])
  show "handle (E_continue (fst (hd (clist inviting))) (Some 7)) inviting \<noteq> None" by code_simp
  show "host = run (handle (E_continue (fst (hd (clist inviting))) (Some 7))) inviting" by (simp add: host_def run_def handle_def)
  show "is_proposer inviting = Some True" "prep inviting = None" "\<not> ended host" "top_free host" by code_simp+
  show "kont_of inviting (E_continue (fst (hd (clist inviting))) (Some 7)) \<noteq> Some Continue_ack_reject" by code_simp
qed simp_all

lemma step_proposing: "member c 0 = host \<Longrightarrow> chat_step u 0 c (put_member 0 proposing c)"
proof (rule preside_step [where e = "E_request DEC_CHAT [104, 105]"])
  show "handle (E_request DEC_CHAT [104, 105]) host \<noteq> None" by code_simp
  show "proposing = run (handle (E_request DEC_CHAT [104, 105])) host" by (simp add: proposing_def run_def handle_def)
  show "is_proposer host = Some True" "prep host = None" "\<not> ended proposing" "top_free proposing" by code_simp+
  show "kont_of host (E_request DEC_CHAT [104, 105]) \<noteq> Some Continue_ack_reject" by (simp add: kont_of_def)
qed simp_all

lemma step_newcomer:
  assumes "last_sent host \<in> in_flight c"
  shows "chat_step decode 0 c (put_member 1 newcomer c)"
proof -
  let ?d = "the (deliver decode (last_sent host))"
  let ?w = "acceptor_ack_welcome (\<lambda>_. 0) (Client_data 0) (Some 5) (fst ?d) (snd ?d)"
  have d: "deliver decode (last_sent host) \<noteq> None" by code_simp
  have op: "ph_opcode (fst ?d) = OP_WELCOME" by code_simp
  have "?w \<noteq> None" by code_simp
  moreover have "newcomer = snd (the ?w)" by (simp add: newcomer_def Let_def split: prod.splits)
  ultimately have "?w = Some (fst (the ?w), newcomer)" by auto
  with enter [OF _ assms deliver_delivered [OF d] op this] show ?thesis by simp
qed

lemma step_newcomer_voted:
  assumes "last_sent proposing \<in> in_flight c" "member c 1 = newcomer"
  shows "chat_step decode 0 c (put_member 1 newcomer_voted c)"
proof (rule follow)
  let ?d = "the (deliver decode (last_sent proposing))"
  have d: "deliver decode (last_sent proposing) \<noteq> None" by code_simp
  have e: "decree_event = E_message 5 (fst ?d) (snd ?d)" by (simp add: decree_event_def Let_def split: prod.splits)
  show "authentic decode c decree_event" using deliver_delivered [OF d] assms(1) by (auto simp: authentic_def e)
  have "is_proposer newcomer = Some False" by code_simp
  then show "following (member c 1) decree_event" unfolding assms(2) by (simp add: following_def kont_of_def e)
  have "handle decree_event newcomer \<noteq> None" by code_simp
  with run_eq [of "handle decree_event" newcomer] show "handle decree_event (member c 1) = Some (fst (the (handle decree_event newcomer)), newcomer_voted)"
    unfolding newcomer_voted_def assms(2) by blast
  have "\<not> ended newcomer" by code_simp
  then show "\<not> ended (member c 1)" using assms(2) by simp
qed simp

lemma chat_example: "chat_run decode 0 (alone 0 solo) chat_of_two"
proof -
  have "sent (last (out host)) \<noteq> None" "out host \<noteq> []" by code_simp+
  then have "last_sent host \<in> sends host" by (rule last_sent_sends)
  moreover have "sent (last (out proposing)) \<noteq> None" "out proposing \<noteq> []" by code_simp+
  then have "last_sent proposing \<in> sends proposing" by (rule last_sent_sends)
  ultimately show ?thesis unfolding chat_of_two_def
    by (intro run_more [OF _ step_newcomer_voted] run_more [OF _ step_proposing] run_more [OF _ step_newcomer]
        run_more [OF _ step_host] run_more [OF _ step_inviting] run_refl)
      (simp_all add: put_member_def alone_def)
qed

end
