(* ===== verification/Murmur.thy ===== *)
theory Murmur
  imports Prelude "HOL-Library.Signed_Division"
begin

unbundle bit_operations_syntax

section \<open>MurmurHash3 (ext/murmurhash/murmurhash3.c)\<close>

text \<open>
  The three hash functions, at the width of their words.  A key is the memory behind the pointer: its
  bytes, of which a function may read exactly those.  Words are read in the machine's (little-endian)
  order.  \<open>len\<close> is a C \<open>int\<close> of any sign, an unbounded integer here, which is exact for what an
  \<open>int\<close> carries: lengths below \<open>2^31\<close>.  The order of the definitions is that of the file; the pieces
  of the three long functions (the mixing of a key word, the loop, the fall-through switch of the tail)
  are split off.
\<close>

definition rotl32 :: "u32 \<Rightarrow> nat \<Rightarrow> u32" where
  "rotl32 x r = push_bit r x OR drop_bit (32 - r) x"

definition rotl64 :: "u64 \<Rightarrow> nat \<Rightarrow> u64" where
  "rotl64 x r = push_bit r x OR drop_bit (64 - r) x"

definition byte_at :: "bytes \<Rightarrow> int \<Rightarrow> byte option" where
  "byte_at key a = (if 0 \<le> a \<and> a < int (length key) then Some (key ! nat a) else None)"

fun bytes_at :: "bytes \<Rightarrow> int \<Rightarrow> nat \<Rightarrow> bytes option" where
  "bytes_at key a 0 = Some []"
| "bytes_at key a (Suc n) = do {
     b \<leftarrow> byte_at key a;
     bs \<leftarrow> bytes_at key (a + 1) n;
     Some (b # bs)
   }"

text \<open>\<open>p\<close> is the offset in the key of the word array the source indexes.\<close>

definition getblock32 :: "bytes \<Rightarrow> int \<Rightarrow> int \<Rightarrow> u32 option" where
  "getblock32 key p i = map_option (\<lambda>bs. word_rcat (rev bs)) (bytes_at key (p + 4 * i) 4)"

definition getblock64 :: "bytes \<Rightarrow> int \<Rightarrow> int \<Rightarrow> u64 option" where
  "getblock64 key p i = map_option (\<lambda>bs. word_rcat (rev bs)) (bytes_at key (p + 8 * i) 8)"

definition fmix32 :: "u32 \<Rightarrow> u32" where
  "fmix32 h =
     (let h = h XOR drop_bit 16 h;
          h = h * 0x85ebca6b;
          h = h XOR drop_bit 13 h;
          h = h * 0xc2b2ae35;
          h = h XOR drop_bit 16 h
      in h)"

definition fmix64 :: "u64 \<Rightarrow> u64" where
  "fmix64 k =
     (let k = k XOR drop_bit 33 k;
          k = k * 0xff51afd7ed558ccd;
          k = k XOR drop_bit 33 k;
          k = k * 0xc4ceb9fe1a85ec53;
          k = k XOR drop_bit 33 k
      in k)"

text \<open>
  A case of a fall-through switch on \<open>t\<close>: the code under \<open>case n\<close> runs when \<open>t\<close> is at least \<open>n\<close>.  The
  reading cases add byte \<open>n - 1\<close> of the tail, the last of a group mixes the word that was collected.
\<close>

definition tail_case :: "bytes \<Rightarrow> int \<Rightarrow> nat \<Rightarrow> nat \<Rightarrow> nat \<Rightarrow> 'a::len word \<Rightarrow> 'a word option" where
  "tail_case key tail t n shift k =
     (if n \<le> t then do {
        b \<leftarrow> byte_at key (tail + int n - 1);
        Some (k XOR push_bit shift (ucast b)) }
      else Some k)"

subsection \<open>MurmurHash3\_x86\_32\<close>

definition mix_k32 :: "u32 \<Rightarrow> u32" where
  "mix_k32 k = rotl32 (k * 0xcc9e2d51) 15 * 0x1b873593"

definition mix_h32 :: "u32 \<Rightarrow> u32 \<Rightarrow> u32" where
  "mix_h32 k h = rotl32 (h XOR mix_k32 k) 13 * 5 + 0xe6546b64"

text \<open>The loop counts \<open>i\<close> up from \<open>- nblocks\<close> to 0; the argument is \<open>- i\<close>.\<close>

primrec body32 :: "bytes \<Rightarrow> int \<Rightarrow> nat \<Rightarrow> u32 \<Rightarrow> u32 option" where
  "body32 key blocks 0 h1 = Some h1"
| "body32 key blocks (Suc n) h1 = do {
     k1 \<leftarrow> getblock32 key blocks (- int (Suc n));
     body32 key blocks n (mix_h32 k1 h1)
   }"

definition tail32 :: "bytes \<Rightarrow> int \<Rightarrow> nat \<Rightarrow> u32 \<Rightarrow> u32 option" where
  "tail32 key tail t h1 = do {
     let k1 = 0;
     k1 \<leftarrow> tail_case key tail t 3 16 k1;
     k1 \<leftarrow> tail_case key tail t 2 8 k1;
     k1 \<leftarrow> tail_case key tail t 1 0 k1;
     Some (if 1 \<le> t then h1 XOR mix_k32 k1 else h1)
   }"

text \<open>With a negative number of blocks \<open>i\<close> would count up until it overflows.\<close>

definition MurmurHash3_x86_32 :: "bytes \<Rightarrow> int \<Rightarrow> u32 \<Rightarrow> u32 option" where
  "MurmurHash3_x86_32 key len seed = do {
     let nblocks = len sdiv 4;
     assert (0 \<le> nblocks);
     h1 \<leftarrow> body32 key (nblocks * 4) (nat nblocks) seed;
     h1 \<leftarrow> tail32 key (nblocks * 4) (nat (len AND 3)) h1;
     let h1 = h1 XOR word_of_int len;
     Some (fmix32 h1)
   }"

subsection \<open>MurmurHash3\_x86\_128\<close>

type_synonym hash128 = "u32 \<times> u32 \<times> u32 \<times> u32"

definition mix_k :: "u32 \<Rightarrow> nat \<Rightarrow> u32 \<Rightarrow> u32 \<Rightarrow> u32" where
  "mix_k c r d k = rotl32 (k * c) r * d"

definition mix_h :: "u32 \<Rightarrow> nat \<Rightarrow> u32 \<Rightarrow> u32 \<Rightarrow> u32" where
  "mix_h h r g a = (rotl32 h r + g) * 5 + a"

fun mix_128 :: "hash128 \<Rightarrow> hash128 \<Rightarrow> hash128" where
  "mix_128 (k1, k2, k3, k4) (h1, h2, h3, h4) =
     (let c1 = 0x239b961b; c2 = 0xab0e9789; c3 = 0x38b34ae5; c4 = 0xa1e38b93;
          h1 = h1 XOR mix_k c1 15 c2 k1;
          h1 = mix_h h1 19 h2 0x561ccd1b;
          h2 = h2 XOR mix_k c2 16 c3 k2;
          h2 = mix_h h2 17 h3 0x0bcaa747;
          h3 = h3 XOR mix_k c3 17 c4 k3;
          h3 = mix_h h3 15 h4 0x96cd1c35;
          h4 = h4 XOR mix_k c4 18 c1 k4;
          h4 = mix_h h4 13 h1 0x32ac3b17
      in (h1, h2, h3, h4))"

primrec body128 :: "bytes \<Rightarrow> int \<Rightarrow> nat \<Rightarrow> hash128 \<Rightarrow> hash128 option" where
  "body128 key blocks 0 h = Some h"
| "body128 key blocks (Suc n) h = do {
     let i = - int (Suc n);
     k1 \<leftarrow> getblock32 key blocks (i * 4 + 0);
     k2 \<leftarrow> getblock32 key blocks (i * 4 + 1);
     k3 \<leftarrow> getblock32 key blocks (i * 4 + 2);
     k4 \<leftarrow> getblock32 key blocks (i * 4 + 3);
     body128 key blocks n (mix_128 (k1, k2, k3, k4) h)
   }"

fun tail128 :: "bytes \<Rightarrow> int \<Rightarrow> nat \<Rightarrow> hash128 \<Rightarrow> hash128 option" where
  "tail128 key tail t (h1, h2, h3, h4) = do {
     let c1 = 0x239b961b; let c2 = 0xab0e9789; let c3 = 0x38b34ae5; let c4 = 0xa1e38b93;
     k4 \<leftarrow> tail_case key tail t 15 16 0;
     k4 \<leftarrow> tail_case key tail t 14 8 k4;
     k4 \<leftarrow> tail_case key tail t 13 0 k4;
     let h4 = (if 13 \<le> t then h4 XOR mix_k c4 18 c1 k4 else h4);
     k3 \<leftarrow> tail_case key tail t 12 24 0;
     k3 \<leftarrow> tail_case key tail t 11 16 k3;
     k3 \<leftarrow> tail_case key tail t 10 8 k3;
     k3 \<leftarrow> tail_case key tail t 9 0 k3;
     let h3 = (if 9 \<le> t then h3 XOR mix_k c3 17 c4 k3 else h3);
     k2 \<leftarrow> tail_case key tail t 8 24 0;
     k2 \<leftarrow> tail_case key tail t 7 16 k2;
     k2 \<leftarrow> tail_case key tail t 6 8 k2;
     k2 \<leftarrow> tail_case key tail t 5 0 k2;
     let h2 = (if 5 \<le> t then h2 XOR mix_k c2 16 c3 k2 else h2);
     k1 \<leftarrow> tail_case key tail t 4 24 0;
     k1 \<leftarrow> tail_case key tail t 3 16 k1;
     k1 \<leftarrow> tail_case key tail t 2 8 k1;
     k1 \<leftarrow> tail_case key tail t 1 0 k1;
     let h1 = (if 1 \<le> t then h1 XOR mix_k c1 15 c2 k1 else h1);
     Some (h1, h2, h3, h4)
   }"

definition final128 :: "u32 \<Rightarrow> hash128 \<Rightarrow> hash128" where
  "final128 len = (\<lambda>(h1, h2, h3, h4).
      let h1 = h1 XOR len; h2 = h2 XOR len; h3 = h3 XOR len; h4 = h4 XOR len;
          h1 = h1 + h2; h1 = h1 + h3; h1 = h1 + h4;
          h2 = h2 + h1; h3 = h3 + h1; h4 = h4 + h1;
          h1 = fmix32 h1; h2 = fmix32 h2; h3 = fmix32 h3; h4 = fmix32 h4;
          h1 = h1 + h2; h1 = h1 + h3; h1 = h1 + h4;
          h2 = h2 + h1; h3 = h3 + h1; h4 = h4 + h1
      in (h1, h2, h3, h4))"

definition MurmurHash3_x86_128 :: "bytes \<Rightarrow> int \<Rightarrow> u32 \<Rightarrow> hash128 option" where
  "MurmurHash3_x86_128 key len seed = do {
     let nblocks = len sdiv 16;
     assert (0 \<le> nblocks);
     h \<leftarrow> body128 key (nblocks * 16) (nat nblocks) (seed, seed, seed, seed);
     h \<leftarrow> tail128 key (nblocks * 16) (nat (len AND 15)) h;
     Some (final128 (word_of_int len) h)
   }"

subsection \<open>MurmurHash3\_x64\_128\<close>

type_synonym hash64 = "u64 \<times> u64"

definition mix_k64 :: "u64 \<Rightarrow> nat \<Rightarrow> u64 \<Rightarrow> u64 \<Rightarrow> u64" where
  "mix_k64 c r d k = rotl64 (k * c) r * d"

fun mix_x64 :: "hash64 \<Rightarrow> hash64 \<Rightarrow> hash64" where
  "mix_x64 (k1, k2) (h1, h2) =
     (let c1 = 0x87c37b91114253d5; c2 = 0x4cf5ad432745937f;
          h1 = h1 XOR mix_k64 c1 31 c2 k1;
          h1 = (rotl64 h1 27 + h2) * 5 + 0x52dce729;
          h2 = h2 XOR mix_k64 c2 33 c1 k2;
          h2 = (rotl64 h2 31 + h1) * 5 + 0x38495ab5
      in (h1, h2))"

text \<open>This loop counts \<open>i\<close> from 0 up to \<open>nblocks\<close>; \<open>n\<close> rounds are left.\<close>

primrec body64 :: "bytes \<Rightarrow> int \<Rightarrow> nat \<Rightarrow> hash64 \<Rightarrow> hash64 option" where
  "body64 key i 0 h = Some h"
| "body64 key i (Suc n) h = do {
     k1 \<leftarrow> getblock64 key 0 (i * 2 + 0);
     k2 \<leftarrow> getblock64 key 0 (i * 2 + 1);
     body64 key (i + 1) n (mix_x64 (k1, k2) h)
   }"

fun tail64 :: "bytes \<Rightarrow> int \<Rightarrow> nat \<Rightarrow> hash64 \<Rightarrow> hash64 option" where
  "tail64 key tail t (h1, h2) = do {
     let c1 = 0x87c37b91114253d5; let c2 = 0x4cf5ad432745937f;
     k2 \<leftarrow> tail_case key tail t 15 48 0;
     k2 \<leftarrow> tail_case key tail t 14 40 k2;
     k2 \<leftarrow> tail_case key tail t 13 32 k2;
     k2 \<leftarrow> tail_case key tail t 12 24 k2;
     k2 \<leftarrow> tail_case key tail t 11 16 k2;
     k2 \<leftarrow> tail_case key tail t 10 8 k2;
     k2 \<leftarrow> tail_case key tail t 9 0 k2;
     let h2 = (if 9 \<le> t then h2 XOR mix_k64 c2 33 c1 k2 else h2);
     k1 \<leftarrow> tail_case key tail t 8 56 0;
     k1 \<leftarrow> tail_case key tail t 7 48 k1;
     k1 \<leftarrow> tail_case key tail t 6 40 k1;
     k1 \<leftarrow> tail_case key tail t 5 32 k1;
     k1 \<leftarrow> tail_case key tail t 4 24 k1;
     k1 \<leftarrow> tail_case key tail t 3 16 k1;
     k1 \<leftarrow> tail_case key tail t 2 8 k1;
     k1 \<leftarrow> tail_case key tail t 1 0 k1;
     let h1 = (if 1 \<le> t then h1 XOR mix_k64 c1 31 c2 k1 else h1);
     Some (h1, h2)
   }"

fun final64 :: "u64 \<Rightarrow> hash64 \<Rightarrow> hash64" where
  "final64 len (h1, h2) =
     (let h1 = h1 XOR len; h2 = h2 XOR len;
          h1 = h1 + h2; h2 = h2 + h1;
          h1 = fmix64 h1; h2 = fmix64 h2;
          h1 = h1 + h2; h2 = h2 + h1
      in (h1, h2))"

definition MurmurHash3_x64_128 :: "bytes \<Rightarrow> int \<Rightarrow> u32 \<Rightarrow> hash64 option" where
  "MurmurHash3_x64_128 key len seed = do {
     let nblocks = len sdiv 16;
     h \<leftarrow> body64 key 0 (nat nblocks) (ucast seed, ucast seed);
     h \<leftarrow> tail64 key (nblocks * 16) (nat (len AND 15)) h;
     Some (final64 (word_of_int len) h)
   }"

end
