(* ===== verification/Murmur_Facts.thy ===== *)
theory Murmur_Facts
  imports Murmur
begin

unbundle bit_operations_syntax

section \<open>What the hash reads, and when it cannot collide\<close>

text \<open>
  The three functions read inside the key only.  The steps of MurmurHash3\_x86\_32 are invertible (a
  multiplication by an odd constant, a rotation, an exclusive or with a shift of the word itself), so
  keys of one length that differ inside one aligned block have different hashes.
\<close>

subsection \<open>Reads\<close>

lemma byte_at_in: "0 \<le> a \<Longrightarrow> a < int (length key) \<Longrightarrow> byte_at key a = Some (key ! nat a)"
  by (simp add: byte_at_def)

lemma bytes_at_in:
  "0 \<le> a \<Longrightarrow> a + int n \<le> int (length key) \<Longrightarrow> bytes_at key a n = Some (take n (drop (nat a) key))"
proof (induction n arbitrary: a)
  case (Suc n)
  then have "take (Suc n) (drop (nat a) key) = key ! nat a # take n (drop (nat (a + 1)) key)"
    by (simp add: Cons_nth_drop_Suc [symmetric] nat_add_distrib)
  with Suc show ?case by (simp add: byte_at_in)
qed simp

lemma getblock32_in: "0 \<le> p + 4 * i \<Longrightarrow> p + 4 * i + 4 \<le> int (length key) \<Longrightarrow>
    getblock32 key p i = Some (word_rcat (rev (take 4 (drop (nat (p + 4 * i)) key))))"
  using bytes_at_in [of "p + 4 * i" 4 key] by (simp add: getblock32_def)

lemma getblock64_in: "0 \<le> p + 8 * i \<Longrightarrow> p + 8 * i + 8 \<le> int (length key) \<Longrightarrow> \<exists>w. getblock64 key p i = Some w"
  using bytes_at_in [of "p + 8 * i" 8 key] by (simp add: getblock64_def)

lemma tail_case_in: "0 \<le> tail \<Longrightarrow> tail + int t = int (length key) \<Longrightarrow> 0 < n \<Longrightarrow>
    tail_case key tail t n shift k = Some (if n \<le> t then k XOR push_bit shift (ucast (key ! nat (tail + int n - 1))) else k)"
  by (simp add: tail_case_def byte_at_def)

lemma body32_in: "int n \<le> m \<Longrightarrow> m * 4 \<le> int (length key) \<Longrightarrow> \<exists>x. body32 key (m * 4) n h = Some x"
  by (induction n arbitrary: h) (auto simp: getblock32_in)

lemma body128_in: "int n \<le> m \<Longrightarrow> m * 16 \<le> int (length key) \<Longrightarrow> \<exists>x. body128 key (m * 16) n h = Some x"
  by (induction n arbitrary: h) (auto simp: getblock32_in)

lemma body64_in: "0 \<le> i \<Longrightarrow> (i + int n) * 16 \<le> int (length key) \<Longrightarrow> \<exists>x. body64 key i n h = Some x"
proof (induction n arbitrary: i h)
  case (Suc n)
  then obtain a b where "getblock64 key 0 (i * 2 + 0) = Some a" "getblock64 key 0 (i * 2 + 1) = Some b"
    using getblock64_in [of 0 "i * 2 + 0" key] getblock64_in [of 0 "i * 2 + 1" key] by (auto simp: algebra_simps)
  with Suc show ?case by (simp add: algebra_simps)
qed simp

lemma sdiv_int: "int n sdiv int d = int (n div d)"
  by (simp add: signed_divide_int_def zdiv_int sgn_if)

lemma and_3: "nat (int n AND 3) = n mod 4"
proof -
  have "int n AND 3 = int (n mod 4)"
    using take_bit_eq_mask [of 2 "int n"] by (simp add: mask_eq_exp_minus_1 take_bit_eq_mod zmod_int)
  then show ?thesis by simp
qed

lemma and_15: "nat (int n AND 15) = n mod 16"
proof -
  have "int n AND 15 = int (n mod 16)"
    using take_bit_eq_mask [of 4 "int n"] by (simp add: mask_eq_exp_minus_1 take_bit_eq_mod zmod_int)
  then show ?thesis by simp
qed

lemma x86_32_run:
  assumes "length key = 4 * m + t" "t < 4"
  shows "MurmurHash3_x86_32 key (int (length key)) seed = do {
    h \<leftarrow> body32 key (int m * 4) m seed;
    h \<leftarrow> tail32 key (int m * 4) t h;
    Some (fmix32 (h XOR of_nat (length key))) }"
proof -
  have "length key div 4 = m" "length key mod 4 = t" using assms by auto
  then show ?thesis using sdiv_int [of "length key" 4] and_3 [of "length key"]
    by (simp add: MurmurHash3_x86_32_def Let_def)
qed

text \<open>A sequence of steps that cannot fail cannot fail.\<close>

lemma bind_not_None: "m \<noteq> None \<Longrightarrow> (\<And>x. f x \<noteq> None) \<Longrightarrow> Option.bind m f \<noteq> None"
  by auto

lemma Let_not_None: "(\<And>x. f x \<noteq> None) \<Longrightarrow> Let v f \<noteq> None"
  by simp

lemma tail_case_not_None: "0 \<le> tail \<Longrightarrow> tail + int t = int (length key) \<Longrightarrow> 0 < n \<Longrightarrow> tail_case key tail t n shift k \<noteq> None"
  by (simp add: tail_case_in)

lemmas not_None_intros = bind_not_None Let_not_None tail_case_not_None

lemma tail32_in: "0 \<le> tail \<Longrightarrow> tail + int t = int (length key) \<Longrightarrow> tail32 key tail t h \<noteq> None"
  unfolding tail32_def by (intro not_None_intros) simp_all

lemma tail128_in: "0 \<le> tail \<Longrightarrow> tail + int t = int (length key) \<Longrightarrow> tail128 key tail t h \<noteq> None"
  by (cases h) (simp only: tail128.simps, intro not_None_intros, simp_all)

lemma tail64_in: "0 \<le> tail \<Longrightarrow> tail + int t = int (length key) \<Longrightarrow> tail64 key tail t h \<noteq> None"
  by (cases h) (simp only: tail64.simps, intro not_None_intros, simp_all)

lemma x86_32_in: "MurmurHash3_x86_32 key (int (length key)) seed \<noteq> None"
proof -
  define m t where "m = length key div 4" and "t = length key mod 4"
  then have k: "length key = 4 * m + t" "t < 4" by simp_all
  then have "body32 key (int m * 4) m seed \<noteq> None" using body32_in [of m "int m" key seed] by auto
  then show ?thesis
    unfolding x86_32_run [OF k] using k by (intro bind_not_None tail32_in) auto
qed

lemma x86_128_in: "MurmurHash3_x86_128 key (int (length key)) seed \<noteq> None"
proof -
  define m t where "m = length key div 16" and "t = length key mod 16"
  then have k: "length key = 16 * m + t" "t < 16" by simp_all
  then have "body128 key (int m * 16) m (seed, seed, seed, seed) \<noteq> None"
    using body128_in [of m "int m" key "(seed, seed, seed, seed)"] by auto
  moreover have "int (length key) sdiv 16 = int m" "nat (int (length key) AND 15) = t"
    using sdiv_int [of "length key" 16] and_15 [of "length key"] m_def t_def by auto
  ultimately show ?thesis
    unfolding MurmurHash3_x86_128_def Let_def using k
    by (intro bind_not_None tail128_in) (auto simp: tail128_in simp del: tail128.simps)
qed

lemma x64_128_in: "MurmurHash3_x64_128 key (int (length key)) seed \<noteq> None"
proof -
  define m t where "m = length key div 16" and "t = length key mod 16"
  then have k: "length key = 16 * m + t" "t < 16" by simp_all
  then have "body64 key 0 m (ucast seed, ucast seed) \<noteq> None"
    using body64_in [of 0 m key "(ucast seed, ucast seed)"] by auto
  moreover have "int (length key) sdiv 16 = int m" "nat (int (length key) AND 15) = t"
    using sdiv_int [of "length key" 16] and_15 [of "length key"] m_def t_def by auto
  ultimately show ?thesis
    unfolding MurmurHash3_x64_128_def Let_def using k
    by (intro bind_not_None tail64_in) (auto simp: tail64_in simp del: tail64.simps)
qed

subsection \<open>Invertible steps\<close>

lemma mult_inverse_inj:
  assumes "c * d = (1 :: u32)"
  shows "x * c = y * c \<longleftrightarrow> x = y"
proof
  assume "x * c = y * c"
  then have "x * (c * d) = y * (c * d)" by (simp flip: mult.assoc)
  with assms show "x = y" by simp
qed simp

lemma rotl32_back: "0 < r \<Longrightarrow> r < 32 \<Longrightarrow> rotl32 (rotl32 x r) (32 - r) = x"
  by (rule bit_word_eqI) (auto simp: rotl32_def bit_simps)

lemma rotl32_inj: "0 < r \<Longrightarrow> r < 32 \<Longrightarrow> rotl32 x r = rotl32 y r \<longleftrightarrow> x = y"
  by (metis rotl32_back)

lemma xor_shift_16: "(x XOR drop_bit 16 x) XOR drop_bit 16 (x XOR drop_bit 16 x) = (x :: u32)"
  by (rule bit_word_eqI) (auto simp: bit_simps)

lemma xor_shift_13: "(x XOR drop_bit 13 x) XOR drop_bit 13 (x XOR drop_bit 13 x) XOR drop_bit 26 (x XOR drop_bit 13 x) = (x :: u32)"
  by (rule bit_word_eqI) (auto simp: bit_simps)

lemma xor_shift_inj:
  "x XOR drop_bit 16 x = y XOR drop_bit 16 y \<longleftrightarrow> x = (y :: u32)"
  "x XOR drop_bit 13 x = y XOR drop_bit 13 y \<longleftrightarrow> x = (y :: u32)"
  by (metis xor_shift_16) (metis xor_shift_13)

lemma xor_inj: "x XOR a = y XOR a \<longleftrightarrow> x = (y :: u32)" "a XOR x = a XOR y \<longleftrightarrow> x = (y :: u32)"
proof -
  have "(z XOR a) XOR a = z" "a XOR (a XOR z) = z" for z by (simp_all add: xor.assoc flip: xor.assoc [of a a z])
  then show "x XOR a = y XOR a \<longleftrightarrow> x = y" "a XOR x = a XOR y \<longleftrightarrow> x = y" by metis+
qed

lemma fmix32_inj: "fmix32 x = fmix32 y \<longleftrightarrow> x = y"
  using mult_inverse_inj [of "0x85ebca6b" "0xa5cb9243"] mult_inverse_inj [of "0xc2b2ae35" "0x7ed1b41d"]
  by (simp add: fmix32_def Let_def xor_shift_inj)

lemma mix_k32_inj: "mix_k32 x = mix_k32 y \<longleftrightarrow> x = y"
  using mult_inverse_inj [of "0xcc9e2d51" "0xdee13bb1"] mult_inverse_inj [of "0x1b873593" "0x56ed309b"]
  by (simp add: mix_k32_def rotl32_inj)

lemma mix_h32_inj: "mix_h32 k x = mix_h32 k y \<longleftrightarrow> x = y" "mix_h32 x h = mix_h32 y h \<longleftrightarrow> x = y"
  using mult_inverse_inj [of 5 "0xcccccccd"] by (simp_all add: mix_h32_def rotl32_inj xor_inj mix_k32_inj)

subsection \<open>Keys that differ in one block\<close>

lemma bit_word_rcat: "bit (word_rcat (rev (b :: bytes)) :: 'a::len word) n \<longleftrightarrow>
    n < LENGTH('a) \<and> n div 8 < length b \<and> bit (b ! (n div 8)) (n mod 8)"
  using bit_horner_sum_uint_exp_iff [of b n] by (simp add: word_rcat_def bit_simps)

lemma word_of_bytes_inj:
  fixes b c :: bytes
  assumes "length b = length c" "8 * length b \<le> LENGTH('a)" "(word_rcat (rev b) :: 'a::len word) = word_rcat (rev c)"
  shows "b = c"
proof (rule nth_equalityI)
  fix i assume i: "i < length b"
  show "b ! i = c ! i"
  proof (rule bit_word_eqI)
    fix n assume "n < LENGTH(8)"
    then have "n < 8" by simp
    with i assms(2) have "8 * i + n < LENGTH('a)" by simp
    with \<open>n < 8\<close> i assms(1) bit_word_rcat [where 'a = 'a, of b "8 * i + n"] bit_word_rcat [where 'a = 'a, of c "8 * i + n"] assms(3)
    show "bit (b ! i) n = bit (c ! i) n" by simp
  qed
qed (rule assms(1))

text \<open>\<open>two_keys\<close>: keys of one length that differ in \<open>b\<close> and \<open>c\<close> only, \<open>4 j\<close> bytes in.\<close>

definition two_keys :: "nat \<Rightarrow> bytes \<Rightarrow> bytes \<Rightarrow> bytes \<Rightarrow> bytes \<Rightarrow> bytes \<Rightarrow> bytes \<Rightarrow> bool" where
  "two_keys j p b c r k1 k2 \<longleftrightarrow> length p = 4 * j \<and> k1 = p @ b @ r \<and> k2 = p @ c @ r \<and> length b = length c"

lemma byte_at_append: "0 \<le> a \<Longrightarrow> length b = length c \<Longrightarrow> a < int (length p) \<or> int (length p + length b) \<le> a \<Longrightarrow>
    byte_at (p @ b @ r) a = byte_at (p @ c @ r) a"
  by (auto simp: byte_at_def nth_append)

lemma bytes_at_append: "0 \<le> a \<Longrightarrow> length b = length c \<Longrightarrow> a + int n \<le> int (length p) \<or> int (length p + length b) \<le> a \<Longrightarrow>
    bytes_at (p @ b @ r) a n = bytes_at (p @ c @ r) a n"
proof (induction n arbitrary: a)
  case (Suc n)
  have "byte_at (p @ b @ r) a = byte_at (p @ c @ r) a" using Suc.prems by (intro byte_at_append) auto
  moreover have "bytes_at (p @ b @ r) (a + 1) n = bytes_at (p @ c @ r) (a + 1) n" using Suc.prems by (intro Suc.IH) auto
  ultimately show ?case by simp
qed simp

lemma getblock32_same: "two_keys j p b c r k1 k2 \<Longrightarrow> length b \<le> 4 \<Longrightarrow> (r = [] \<or> length b = 4) \<Longrightarrow> i \<noteq> j \<Longrightarrow>
    int (4 * i) + 4 \<le> int (length k1) \<Longrightarrow>
    getblock32 k1 (int m * 4) (int i - int m) = getblock32 k2 (int m * 4) (int i - int m)"
  by (auto simp: two_keys_def getblock32_def algebra_simps intro!: arg_cong [where f = "map_option _"] bytes_at_append)

lemma body32_inj: "body32 key bl n x = Some z \<Longrightarrow> body32 key bl n y = Some z \<Longrightarrow> x = y"
proof (induction n arbitrary: x y)
  case (Suc n)
  then obtain k where "body32 key bl n (mix_h32 k x) = Some z" "body32 key bl n (mix_h32 k y) = Some z"
    by (auto simp: bind_Some_iff)
  with Suc.IH have "mix_h32 k x = mix_h32 k y" by blast
  then show ?case by (simp add: mix_h32_inj)
qed simp

lemma body32_same:
  assumes "two_keys j p b c r k1 k2" "length b \<le> 4" "r = [] \<or> length b = 4" "m * 4 \<le> length k1"
  shows "n \<le> m \<Longrightarrow> j < m - n \<or> m \<le> j \<Longrightarrow> body32 k1 (int m * 4) n h = body32 k2 (int m * 4) n h"
proof (induction n arbitrary: h)
  case (Suc n)
  have "getblock32 k1 (int m * 4) (int (m - Suc n) - int m) = getblock32 k2 (int m * 4) (int (m - Suc n) - int m)"
    using Suc.prems assms(4) by (intro getblock32_same [OF assms(1-3), where i = "m - Suc n"]) auto
  moreover have "int (m - Suc n) - int m = - int (Suc n)" using Suc.prems by simp
  moreover have "j < m - n \<or> m \<le> j" "n \<le> m" using Suc.prems by auto
  ultimately show ?case using Suc.IH by (cases "getblock32 k2 (int m * 4) (- int (Suc n))") auto
qed simp

lemma getblock32_differs:
  assumes "two_keys j p b c r k1 k2" "length b = 4" "b \<noteq> c" "j < m"
  shows "getblock32 k1 (int m * 4) (int j - int m) \<noteq> getblock32 k2 (int m * 4) (int j - int m)"
proof -
  have "getblock32 k1 (int m * 4) (int j - int m) = Some (word_rcat (rev b))"
    "getblock32 k2 (int m * 4) (int j - int m) = Some (word_rcat (rev c))"
    using assms by (auto simp: two_keys_def getblock32_in nat_mult_distrib algebra_simps)
  moreover have "(word_rcat (rev b) :: u32) \<noteq> word_rcat (rev c)"
    using word_of_bytes_inj [of b c, where 'a = 32] assms by (auto simp: two_keys_def)
  ultimately show ?thesis by simp
qed

lemma body32_differs:
  assumes "two_keys j p b c r k1 k2" "length b = 4" "b \<noteq> c" "j < m" "m * 4 \<le> length k1"
  shows "n \<le> m \<Longrightarrow> m - n \<le> j \<Longrightarrow> body32 k1 (int m * 4) n h = Some x \<Longrightarrow> body32 k2 (int m * 4) n h = Some y \<Longrightarrow> x \<noteq> y"
proof (induction n arbitrary: h)
  case (Suc n)
  let ?i = "int (m - Suc n) - int m"
  have i: "?i = - int (Suc n)" using Suc.prems by simp
  obtain u v where uv: "getblock32 k1 (int m * 4) ?i = Some u" "getblock32 k2 (int m * 4) ?i = Some v"
    "body32 k1 (int m * 4) n (mix_h32 u h) = Some x" "body32 k2 (int m * 4) n (mix_h32 v h) = Some y"
    using Suc.prems(3,4) by (auto simp: bind_Some_iff i)
  show ?case
  proof (cases "m - Suc n = j")
    case True
    then have "u \<noteq> v" using getblock32_differs [OF assms(1-4)] uv by auto
    then have "mix_h32 u h \<noteq> mix_h32 v h" by (simp add: mix_h32_inj)
    moreover have "body32 k2 (int m * 4) n (mix_h32 v h) = body32 k1 (int m * 4) n (mix_h32 v h)"
      using Suc.prems True by (intro body32_same [OF assms(1) _ _ assms(5), symmetric]) (auto simp: assms(2))
    ultimately show ?thesis using uv(3,4) body32_inj by metis
  next
    case False
    have "int (4 * (m - Suc n)) + 4 \<le> int (length k1)" using assms(5) Suc.prems(1) by linarith
    from getblock32_same [OF assms(1) _ _ False this, of m] have "u = v" using uv(1,2) assms(2) by simp
    with uv Suc False show ?thesis by auto
  qed
qed (use assms(4) in auto)

text \<open>The word collected from the tail determines its bytes.\<close>

lemma tail_word_inj:
  fixes a0 a1 a2 b0 b1 b2 :: byte
  assumes "(push_bit 16 (ucast a2) XOR push_bit 8 (ucast a1) XOR ucast a0 :: u32) =
    push_bit 16 (ucast b2) XOR push_bit 8 (ucast b1) XOR ucast b0"
  shows "a0 = b0 \<and> a1 = b1 \<and> a2 = b2"
proof -
  let ?w = "\<lambda>c0 c1 c2. push_bit 16 (ucast (c2 :: byte)) XOR push_bit 8 (ucast (c1 :: byte)) XOR ucast (c0 :: byte) :: u32"
  have "ucast (?w c0 c1 c2) = c0" "ucast (drop_bit 8 (?w c0 c1 c2)) = c1" "ucast (drop_bit 16 (?w c0 c1 c2)) = c2" for c0 c1 c2
    by (rule bit_word_eqI, auto simp: bit_simps dest: bit_imp_le_length)+
  with assms show ?thesis by metis
qed

definition tail_word :: "bytes \<Rightarrow> u32" where
  "tail_word b = push_bit 16 (ucast (if 2 < length b then b ! 2 else 0)) XOR
     push_bit 8 (ucast (if 1 < length b then b ! 1 else 0)) XOR ucast (if 0 < length b then b ! 0 else 0)"

lemma tail32_run:
  assumes "length p = 4 * m" "length b < 4"
  shows "tail32 (p @ b) (int m * 4) (length b) h = Some (if b = [] then h else h XOR mix_k32 (tail_word b))"
proof -
  have "(p @ b) ! nat (int m * 4 + int n - 1) = b ! (n - 1)" if "0 < n" for n
  proof -
    have "nat (int m * 4 + int n - 1) = length p + (n - 1)" using assms(1) that by linarith
    then show ?thesis by simp
  qed
  from this [of 1] this [of 2] this [of 3]
  have "(p @ b) ! nat (int m * 4) = b ! 0" "(p @ b) ! nat (1 + int m * 4) = b ! 1" "(p @ b) ! nat (2 + int m * 4) = b ! 2"
    by simp_all
  then show ?thesis using assms
    by (cases b) (auto simp: tail32_def tail_case_in tail_word_def Let_def add.commute [of "int m * 4"] Suc_le_eq xor.assoc)
qed

lemma tail_word_eq: "length b = length c \<Longrightarrow> length b < 4 \<Longrightarrow> tail_word b = tail_word c \<Longrightarrow> b = c"
proof (rule nth_equalityI)
  fix i assume l: "length b = length c" "length b < 4" "tail_word b = tail_word c" and i: "i < length b"
  then have "i = 0 \<or> i = 1 \<or> i = 2" by auto
  with i l(1) show "b ! i = c ! i" using tail_word_inj [OF l(3) [unfolded tail_word_def]] by (elim disjE) auto
qed

text \<open>Keys of one length that differ in one aligned block, or in the tail.\<close>

lemma x86_32_differs:
  assumes "length p = 4 * j" "length b = length c" "b \<noteq> c" "length b = 4 \<or> length b < 4 \<and> r = []"
  shows "MurmurHash3_x86_32 (p @ b @ r) (int (length (p @ b @ r))) seed \<noteq>
    MurmurHash3_x86_32 (p @ c @ r) (int (length (p @ c @ r))) seed"
proof -
  let ?k1 = "p @ b @ r" and ?k2 = "p @ c @ r"
  define m t where "m = length ?k1 div 4" and "t = length ?k1 mod 4"
  then have l: "length ?k1 = 4 * m + t" "length ?k2 = 4 * m + t" "t < 4" using assms(2) by simp_all
  have two: "two_keys j p b c r ?k1 ?k2" using assms by (simp add: two_keys_def)
  obtain x where x: "body32 ?k1 (int m * 4) m seed = Some x" using body32_in [of m "int m" ?k1] l by auto
  obtain y where y: "body32 ?k2 (int m * 4) m seed = Some y" using body32_in [of m "int m" ?k2] l by auto
  have "tail32 ?k1 (int m * 4) t x \<noteq> None" "tail32 ?k2 (int m * 4) t y \<noteq> None" by (rule tail32_in; use l in simp)+
  moreover have "tail32 ?k1 (int m * 4) t x \<noteq> tail32 ?k2 (int m * 4) t y"
  proof (cases "length b = 4")
    case True
    then have "j < m" using assms(1) l(1,3) by auto
    from body32_differs [OF two True assms(3) this _ _ _ x y] l have "x \<noteq> y" by simp
    define p' q1 q2 where "p' = length p" and "q1 = take (4 * m) ?k1" and "q2 = take (4 * m) ?k2"
    define u where "u = drop (4 * m) ?k1"
    have u: "drop (4 * m) ?k2 = u" using \<open>j < m\<close> True assms(1,2) by (simp add: u_def)
    have "?k1 = q1 @ u" "?k2 = q2 @ u" using u unfolding q1_def q2_def u_def by (metis append_take_drop_id)+
    moreover have "length q1 = 4 * m" "length q2 = 4 * m" "length u = t" using l by (auto simp: q1_def q2_def u_def)
    ultimately show ?thesis using \<open>x \<noteq> y\<close> tail32_run [of q1 m u x] tail32_run [of q2 m u y] l(3) by (auto simp: xor_inj)
  next
    case False
    then have r: "r = []" "length b < 4" using assms(4) by auto
    then have t: "t = length b" "m = j" using assms(1) m_def t_def by auto
    have "x = y" using body32_same [OF two _ _ _ order_refl, of m] r t x y l by simp
    moreover have "tail_word b \<noteq> tail_word c" using tail_word_eq assms(2,3) r by blast
    moreover have "b \<noteq> []" "c \<noteq> []" using assms(2,3) by auto
    ultimately show ?thesis using tail32_run [of p j b x] tail32_run [of p j c y] assms(1,2) r t
      by (simp add: xor_inj mix_k32_inj)
  qed
  ultimately show ?thesis using x y fmix32_inj xor_inj
    unfolding x86_32_run [OF l(1) l(3)] x86_32_run [OF l(2) l(3)] by (auto simp: assms(2))
qed

end
