(* ===== verification/Connections.thy ===== *)
theory Connections
  imports Primitives Murmur_Facts
begin

section \<open>Connections and their hash table (types/connect.h, types/connect.c, containers/hashtable\_factory.h)\<close>

text \<open>
  A connection is kept in a GLib hash table under the identity string of the client.  The table is
  GLib's: its operations are parameters, and the locale \<open>ghash_table\<close> has what GLib documents of them
  for a hash function and a key equality that fit together.  That the source's two functions fit
  together is the locale \<open>hash_key\<close>, interpreted on them.
\<close>

text \<open>The peer is the address of its \<open>struct paxos\_peer\<close>.\<close>

record paxos_connect =
  pc_peer :: "nat option"
  pc_pending :: bool
  pc_id :: bytes

text \<open>The length is a \<open>size\_t\<close> passed as an \<open>int\<close>: from \<open>2 ^ 31\<close> on it changes sign.\<close>

definition connect_key_hash :: "u32 \<Rightarrow> bytes \<Rightarrow> u32 option" where
  "connect_key_hash murmurseed str = MurmurHash3_x86_32 str (sint (word_of_nat (length str) :: u32)) murmurseed"

definition connect_key_equals :: "bytes \<Rightarrow> bytes \<Rightarrow> int" where
  "connect_key_equals x y = (if pax_str_compare x y = 0 then 1 else 0)"

text \<open>\<open>connect\_hashinit\<close>: four bytes of \<open>/dev/urandom\<close> become the seed.\<close>

definition connect_hashinit :: "bytes \<Rightarrow> u32" where
  "connect_hashinit rnd = word_rcat (rev (take 4 rnd))"

text \<open>
  The functions the factory generates, over GLib's operations \<open>g\_hash\_table\_new\<close>,
  \<open>g\_hash\_table\_destroy\<close>, \<open>g\_hash\_table\_lookup\<close> and \<open>g\_hash\_table\_insert\<close>.
\<close>

definition connect_container_init :: "'t \<Rightarrow> unit option" where
  "connect_container_init ht = assert False"

definition connect_container_new ::
  "((bytes \<Rightarrow> u32 option) \<Rightarrow> (bytes \<Rightarrow> bytes \<Rightarrow> int) \<Rightarrow> 't) \<Rightarrow> u32 \<Rightarrow> 't" where
  "connect_container_new g_new murmurseed = g_new (connect_key_hash murmurseed) connect_key_equals"

definition connect_container_destroy :: "('t \<Rightarrow> 'r) \<Rightarrow> 't \<Rightarrow> 'r" where
  "connect_container_destroy g_destroy ht = g_destroy ht"

definition connect_find :: "('t \<Rightarrow> bytes \<Rightarrow> paxos_connect option) \<Rightarrow> 't \<Rightarrow> bytes \<Rightarrow> paxos_connect option" where
  "connect_find g_lookup ht key = g_lookup ht key"

definition connect_insert ::
  "('t \<Rightarrow> bytes \<Rightarrow> paxos_connect \<Rightarrow> 't) \<Rightarrow> 't \<Rightarrow> paxos_connect \<Rightarrow> 't \<times> paxos_connect" where
  "connect_insert g_insert ht val = (g_insert ht (pc_id val) val, val)"

subsection \<open>A hash function and a key equality that fit together\<close>

text \<open>On the keys \<open>ok\<close>; a hash function may fault on others.\<close>

locale hash_key =
  fixes ok :: "'k \<Rightarrow> bool" and hash :: "'k \<Rightarrow> u32 option" and equals :: "'k \<Rightarrow> 'k \<Rightarrow> int"
  assumes hash_total: "ok x \<Longrightarrow> hash x \<noteq> None"
    and equals_refl: "equals x x \<noteq> 0"
    and equals_sym: "equals x y \<noteq> 0 \<Longrightarrow> equals y x \<noteq> 0"
    and equals_trans: "equals x y \<noteq> 0 \<Longrightarrow> equals y z \<noteq> 0 \<Longrightarrow> equals x z \<noteq> 0"
    and equals_hash: "equals x y \<noteq> 0 \<Longrightarrow> hash x = hash y"

text \<open>What GLib promises of a table with such keys.\<close>

locale ghash_table = hash_key ok hash equals
  for ok :: "'k \<Rightarrow> bool" and hash :: "'k \<Rightarrow> u32 option" and equals :: "'k \<Rightarrow> 'k \<Rightarrow> int" +
  fixes g_new :: "('k \<Rightarrow> u32 option) \<Rightarrow> ('k \<Rightarrow> 'k \<Rightarrow> int) \<Rightarrow> 't"
    and g_lookup :: "'t \<Rightarrow> 'k \<Rightarrow> 'v option"
    and g_insert :: "'t \<Rightarrow> 'k \<Rightarrow> 'v \<Rightarrow> 't"
    and table :: "'t \<Rightarrow> bool"
  assumes table_new: "table (g_new hash equals)"
    and table_insert: "table t \<Longrightarrow> ok k \<Longrightarrow> table (g_insert t k v)"
    and lookup_new: "ok k \<Longrightarrow> g_lookup (g_new hash equals) k = None"
    and lookup_insert: "table t \<Longrightarrow> ok k \<Longrightarrow> ok k' \<Longrightarrow>
      g_lookup (g_insert t k v) k' = (if equals k k' \<noteq> 0 then Some v else g_lookup t k')"
begin

text \<open>After any inserts, a lookup finds the last value inserted under an equal key.\<close>

lemma lookup_inserts:
  assumes "\<forall>(k, v)\<in>set kvs. ok k" "ok k'"
  shows "table (fold (\<lambda>(k, v) t. g_insert t k v) kvs (g_new hash equals)) \<and>
    g_lookup (fold (\<lambda>(k, v) t. g_insert t k v) kvs (g_new hash equals)) k' =
      map_option snd (List.find (\<lambda>(k, v). equals k k' \<noteq> 0) (rev kvs))"
  using assms(1)
proof (induction kvs rule: rev_induct)
  case Nil
  then show ?case using assms(2) by (simp add: table_new lookup_new)
next
  case (snoc kv kvs)
  then show ?case using assms(2) by (auto simp: table_insert lookup_insert split: prod.splits)
qed

end

lemma connect_key_equals_iff: "connect_key_equals x y \<noteq> 0 \<longleftrightarrow> x = y"
  by (simp add: connect_key_equals_def pax_str.compare_eq)

lemma connect_key_hash_in: "length str < 2 ^ 31 \<Longrightarrow>
    connect_key_hash seed str = MurmurHash3_x86_32 str (int (length str)) seed"
  by (simp add: connect_key_hash_def signed_of_nat signed_take_bit_int_eq_self)

interpretation connect_key: hash_key "\<lambda>str. length str < 2 ^ 31" "connect_key_hash seed" connect_key_equals
  by unfold_locales (auto simp: connect_key_equals_iff connect_key_hash_in x86_32_in)

text \<open>The promise can be kept: buckets of entries by hash value, the latest entry first.\<close>

type_synonym ('k, 'v) buckets = "('k \<Rightarrow> u32 option) \<times> ('k \<Rightarrow> 'k \<Rightarrow> int) \<times> (u32 option \<times> 'k \<times> 'v) list"

definition bucket_new :: "('k \<Rightarrow> u32 option) \<Rightarrow> ('k \<Rightarrow> 'k \<Rightarrow> int) \<Rightarrow> ('k, 'v) buckets" where
  "bucket_new hash equals = (hash, equals, [])"

fun bucket_lookup :: "('k, 'v) buckets \<Rightarrow> 'k \<Rightarrow> 'v option" where
  "bucket_lookup (hash, equals, es) k =
     map_option (snd \<circ> snd) (List.find (\<lambda>(h, k', v). h = hash k \<and> equals k' k \<noteq> 0) es)"

fun bucket_insert :: "('k, 'v) buckets \<Rightarrow> 'k \<Rightarrow> 'v \<Rightarrow> ('k, 'v) buckets" where
  "bucket_insert (hash, equals, es) k v = (hash, equals, (hash k, k, v) # es)"

interpretation connect_table: ghash_table "\<lambda>str. length str < 2 ^ 31" "connect_key_hash seed" connect_key_equals
  bucket_new bucket_lookup bucket_insert
  "\<lambda>t. fst t = connect_key_hash seed \<and> fst (snd t) = connect_key_equals"
  by unfold_locales (auto simp: bucket_new_def connect_key_equals_iff)

lemma find_map_list: "List.find P (map f xs) = map_option f (List.find (P \<circ> f) xs)"
  by (induction xs) auto

text \<open>The connections inserted so far, searched from the latest.\<close>

lemma connect_lookup_run:
  assumes "ghash_table (\<lambda>x. length x < 2 ^ 31) (connect_key_hash seed) connect_key_equals g_new g_lookup g_insert table"
    "\<forall>c\<in>set cs. length (pc_id c) < 2 ^ 31" "length key < 2 ^ 31"
  shows "connect_find g_lookup (fold (\<lambda>c t. fst (connect_insert g_insert t c)) cs (connect_container_new g_new seed)) key =
    List.find (\<lambda>c. pc_id c = key) (rev cs)"
proof -
  have "g_lookup (fold (\<lambda>(k, v) t. g_insert t k v) (map (\<lambda>c. (pc_id c, c)) cs) (g_new (connect_key_hash seed) connect_key_equals)) key =
      map_option snd (List.find (\<lambda>(k, v). connect_key_equals k key \<noteq> 0) (rev (map (\<lambda>c. (pc_id c, c)) cs)))"
    using assms(2,3) by (intro conjunct2 [OF ghash_table.lookup_inserts [OF assms(1)]]) auto
  then show ?thesis
    by (simp add: connect_find_def connect_container_new_def connect_insert_def fold_map comp_def rev_map
        find_map_list connect_key_equals_iff option.map_comp option.map_ident)
qed

end
