(* ===== verification/Peer_IO.thy ===== *)
theory Peer_IO
  imports Protocol
begin

section \<open>Peer input and output (paxos\_io.c, and the connections of paxos.c and motmot.c)\<close>

text \<open>
  A peer wraps a channel: what was read and not yet unpacked, what was sent and not yet written, and the
  event sources registered for it.  GLib's channel and msgpack's unpacker are parameters: each call of
  the channel's read or write comes with its result, and \<open>next\<close> is \<open>msgpack\_unpacker\_next\<close> on the
  buffered bytes (an object, and the bytes behind it).
\<close>

datatype gstatus = G_IO_STATUS_ERROR | G_IO_STATUS_NORMAL | G_IO_STATUS_EOF | G_IO_STATUS_AGAIN

text \<open>\<open>G\_IO\_IN\<close> is always watched with \<open>paxos\_peer\_read\<close>, \<open>G\_IO\_OUT\<close> with \<open>paxos\_peer\_write\<close>.\<close>

datatype watch = G_IO_IN | G_IO_OUT

record paxos_peer =
  pp_channel :: peer
  pp_unpacker :: bytes
  pp_write_buffer :: bytes
  pp_watches :: "watch list"

definition peer_new :: "peer option \<Rightarrow> paxos_peer option" where
  "peer_new channel = (case channel of
     None \<Rightarrow> None
   | Some c \<Rightarrow> Some \<lparr>pp_channel = c, pp_unpacker = [], pp_write_buffer = [], pp_watches = [G_IO_IN]\<rparr>)"

text \<open>Destroying a peer removes its sources, and drops what has not been written.\<close>

definition peer_free :: "paxos_peer \<Rightarrow> bytes \<times> watch list" where
  "peer_free peer = (pp_write_buffer peer, [])"

definition peer_send :: "bytes \<Rightarrow> paxos_peer \<Rightarrow> int \<times> paxos_peer" where
  "peer_send buffer peer =
     (let peer = (if pp_write_buffer peer = [] \<and> 0 < length buffer
                  then peer\<lparr>pp_watches := pp_watches peer @ [G_IO_OUT]\<rparr> else peer)
      in (0, peer\<lparr>pp_write_buffer := pp_write_buffer peer @ buffer\<rparr>))"

text \<open>
  Writing, given that the channel takes the first \<open>n\<close> bytes: those bytes and the peer left behind.
\<close>

definition write_buffered :: "nat \<Rightarrow> paxos_peer \<Rightarrow> bytes \<times> paxos_peer" where
  "write_buffered n peer =
     (if pp_write_buffer peer = [] then ([], peer)
      else let written = take n (pp_write_buffer peer);
               peer = peer\<lparr>pp_write_buffer := drop n (pp_write_buffer peer)\<rparr>
           in (written, if pp_write_buffer peer = [] then peer\<lparr>pp_watches := [G_IO_IN]\<rparr> else peer))"

subsection \<open>Reading\<close>

text \<open>
  The session \<open>pax\<close> is bound to by a dispatch, and whether a dispatch destroyed the peer: going on with
  a destroyed peer is a fault.
\<close>

definition bound_session :: "mobj \<Rightarrow> paxos_state \<Rightarrow> sref option" where
  "bound_session o1 st = do {
     ps \<leftarrow> array o1;
     h \<leftarrow> elem ps 0;
     hdr \<leftarrow> paxos_header_unpack h;
     found \<leftarrow> session_find (uuid_of st) (sessions st) (ph_session hdr);
     (case found of Some r \<Rightarrow> Some r | None \<Rightarrow> if ph_opcode hdr = OP_WELCOME then Some (sbrk st) else None)
   }"

definition effects_of :: "sref option \<Rightarrow> paxos_state \<Rightarrow> effect list" where
  "effects_of r st = (case Option.bind r (sheap st) of None \<Rightarrow> [] | Some s \<Rightarrow> out s)"

text \<open>What a session has done by the end of a dispatch, also if it ended in it.\<close>

definition effects_after :: "sref \<Rightarrow> paxos_state \<Rightarrow> effect list" where
  "effects_after q st' = (case sheap st' q of
     Some s \<Rightarrow> out s
   | None \<Rightarrow> if departed st' = [] then [] else out (last (departed st')))"

definition peer_lost :: "peer \<Rightarrow> sref option \<Rightarrow> paxos_state \<Rightarrow> paxos_state \<Rightarrow> bool" where
  "peer_lost source r st st' =
     (case r of
        None \<Rightarrow> False
      | Some q \<Rightarrow> Peer_destroy source \<in> set (drop (length (effects_of r st)) (effects_after q st')))"

text \<open>
  One dispatch: whether it went well, whether it destroyed the peer, and the state.  A return code that
  is not 0 makes the caller read \<open>self_id\<close>, a fault if the session has ended.
\<close>

definition dispatch_one :: "peer \<Rightarrow> mobj \<Rightarrow> paxos_state \<Rightarrow> (bool \<times> bool \<times> paxos_state) option" where
  "dispatch_one source o1 st = do {
     (c, st') \<leftarrow> paxos_dispatch source o1 st;
     let r = bound_session o1 st;
     let lost = peer_lost source r st st';
     if c \<noteq> 0 then do {
       q \<leftarrow> r;
       s \<leftarrow> sheap st' q;
       Some (self_id s = 0, lost, st') }
     else Some (True, lost, st')
   }"

text \<open>
  The inner loop: whether every dispatch so far went well, whether the peer is gone, the bytes left, and
  the state.  The next object is asked of the peer's unpacker.
\<close>

partial_function (option) pop_loop ::
  "(bytes \<Rightarrow> (mobj \<times> bytes) option) \<Rightarrow> peer \<Rightarrow> bytes \<Rightarrow> paxos_state \<Rightarrow> (bool \<times> bool \<times> bytes \<times> paxos_state) option" where
  "pop_loop next source buf st = (case next buf of
     None \<Rightarrow> Some (True, False, buf, st)
   | Some (o1, rest) \<Rightarrow> do {
       (ok, lost, st) \<leftarrow> dispatch_one source o1 st;
       if ok then do { assert (\<not> lost); pop_loop next source rest st }
       else Some (False, lost, rest, st) })"

text \<open>
  The outer loop: \<open>reads\<close> are the results of the channel's reads, the first of them and one more each
  time the channel still has input.
\<close>

fun read_loop ::
  "(bytes \<Rightarrow> (mobj \<times> bytes) option) \<Rightarrow> (gstatus \<times> bytes) list \<Rightarrow> bool \<Rightarrow> paxos_peer \<Rightarrow> paxos_state \<Rightarrow>
   (bool \<times> paxos_peer \<times> paxos_state) option" where
  "read_loop next [] r peer st = Some (r, peer, st)"
| "read_loop next ((status, chunk) # reads) r peer st = do {
     (ok, lost, buf, st) \<leftarrow> pop_loop next (pp_channel peer) (pp_unpacker peer @ chunk) st;
     let peer = peer\<lparr>pp_unpacker := buf\<rparr>;
     if status = G_IO_STATUS_EOF then do {
       (_, st) \<leftarrow> paxos_drop_connection (pp_channel peer) st;
       Some (False, peer, st) }
     else do {
       assert (reads = [] \<or> \<not> lost);
       read_loop next reads (r \<and> ok) peer st }
   }"

definition paxos_peer_read ::
  "(bytes \<Rightarrow> (mobj \<times> bytes) option) \<Rightarrow> (gstatus \<times> bytes) list \<Rightarrow> paxos_peer \<Rightarrow> paxos_state \<Rightarrow>
   (bool \<times> paxos_peer \<times> paxos_state) option" where
  "paxos_peer_read next reads peer st = read_loop next reads True peer st"

text \<open>
  The write handler: \<open>status\<close> and \<open>n\<close> are the channel's answer, \<open>reads\<close> the input it still has when it
  is closed.  GLib removes the event source of a handler that returns FALSE.
\<close>

definition paxos_peer_write ::
  "(bytes \<Rightarrow> (mobj \<times> bytes) option) \<Rightarrow> gstatus \<Rightarrow> nat \<Rightarrow> (gstatus \<times> bytes) list \<Rightarrow> paxos_peer \<Rightarrow> paxos_state \<Rightarrow>
   (bool \<times> bytes \<times> paxos_peer \<times> paxos_state) option" where
  "paxos_peer_write next status n reads peer st =
     (if pp_write_buffer peer = [] then Some (True, [], peer, st)
      else do {
        let (written, peer) = write_buffered n peer;
        if status = G_IO_STATUS_EOF then
          do {
            (peer, st) \<leftarrow> (if reads = [] then Some (peer, st)
              else do { (_, peer, st) \<leftarrow> paxos_peer_read next reads peer st; Some (peer, st) });
            Some (False, written, peer\<lparr>pp_watches := remove1 G_IO_OUT (pp_watches peer)\<rparr>, st) }
        else Some (True, written, peer, st) })"

subsection \<open>Watching a connection\<close>

text \<open>A new connection gets a peer, which nothing but its event source refers to.\<close>

definition paxos_register_connection :: "peer option \<Rightarrow> int \<times> paxos_peer option" where
  "paxos_register_connection chan = (if peer_new chan = None then 1 else 0, peer_new chan)"

definition motmot_watch :: "peer option \<Rightarrow> int \<times> paxos_peer option" where
  "motmot_watch channel = paxos_register_connection channel"

end
