(* ===== verification/Peer_Facts.thy ===== *)
theory Peer_Facts
  imports Peer_IO
begin

section \<open>Peers: nothing lost, nothing reordered\<close>

text \<open>
  The write side is a byte queue: the locale \<open>byte_queue\<close> says what senders rely on, and is interpreted
  on \<open>peer_send\<close> and the write handler.  The read side dispatches the messages of the stream, in
  order, however the stream is cut into reads.
\<close>

subsection \<open>The write buffer\<close>

text \<open>A schedule: \<open>Inl b\<close> sends \<open>b\<close>, \<open>Inr n\<close> is an event that lets \<open>n\<close> bytes be written.\<close>

fun sent_of :: "(bytes + nat) list \<Rightarrow> bytes" where
  "sent_of [] = []"
| "sent_of (Inl b # es) = b @ sent_of es"
| "sent_of (Inr n # es) = sent_of es"

locale byte_queue =
  fixes pending :: "'q \<Rightarrow> bytes"      \<comment> \<open>what is still to be written\<close>
    and ready :: "'q \<Rightarrow> bool"         \<comment> \<open>in order, and writing is scheduled when there is something to write\<close>
    and put :: "bytes \<Rightarrow> 'q \<Rightarrow> 'q"
    and flush :: "nat \<Rightarrow> 'q \<Rightarrow> bytes \<times> 'q"
  assumes put_pending: "pending (put b q) = pending q @ b"
    and put_ready: "ready q \<Longrightarrow> ready (put b q)"
    and flush_pending: "fst (flush n q) @ pending (snd (flush n q)) = pending q"
    and flush_length: "length (fst (flush n q)) = min n (length (pending q))"
    and flush_ready: "ready q \<Longrightarrow> ready (snd (flush n q))"
begin

fun queue_run :: "(bytes + nat) list \<Rightarrow> 'q \<Rightarrow> bytes \<times> 'q" where
  "queue_run [] q = ([], q)"
| "queue_run (Inl b # es) q = queue_run es (put b q)"
| "queue_run (Inr n # es) q =
     (let (w, q) = flush n q; (ws, q) = queue_run es q in (w @ ws, q))"

lemma queue_run_fifo: "queue_run es q = (ws, q') \<Longrightarrow> ws @ pending q' = pending q @ sent_of es"
proof (induction es q arbitrary: ws q' rule: queue_run.induct)
  case (3 n es q)
  obtain w q1 where f: "flush n q = (w, q1)" by fastforce
  with "3.prems" obtain ws1 where r: "queue_run es q1 = (ws1, q')" "ws = w @ ws1" by (auto split: prod.splits)
  from "3.IH" [OF f [symmetric] refl r(1)] have "ws1 @ pending q' = pending q1 @ sent_of es" by simp
  moreover have "w @ pending q1 = pending q" using flush_pending [of n q] f by simp
  ultimately show ?case using r(2) by (metis append.assoc sent_of.simps(3))
qed (auto simp: put_pending)

lemma queue_run_ready: "ready q \<Longrightarrow> queue_run es q = (ws, q') \<Longrightarrow> ready q'"
proof (induction es q arbitrary: ws q' rule: queue_run.induct)
  case (3 n es q)
  obtain w q1 where f: "flush n q = (w, q1)" by fastforce
  with "3.prems" obtain ws1 where r: "queue_run es q1 = (ws1, q')" by (auto split: prod.splits)
  have "ready q1" using flush_ready [OF "3.prems"(1), of n] f by simp
  from "3.IH" [OF f [symmetric] refl this r] show ?case .
qed (auto simp: put_ready)

text \<open>When every write event writes at least a byte, as many events as there are bytes drain the queue.\<close>

lemma queue_run_drains:
  "\<forall>e\<in>set es. \<exists>n. e = Inr n \<and> 0 < n \<Longrightarrow> length (pending q) \<le> length es \<Longrightarrow> queue_run es q = (ws, q') \<Longrightarrow>
   ws = pending q \<and> pending q' = []"
proof (induction es arbitrary: q ws q')
  case (Cons e es)
  then obtain n w q1 ws' where e: "e = Inr n" "0 < n" "flush n q = (w, q1)" "queue_run es q1 = (ws', q')" "ws = w @ ws'"
    by (auto split: prod.splits)
  have "w @ pending q1 = pending q" using flush_pending [of n q] e(3) by simp
  moreover have "length (pending q1) \<le> length es"
  proof -
    have "length w + length (pending q1) = length (pending q)" using \<open>w @ pending q1 = pending q\<close> by (metis length_append)
    then show ?thesis using flush_length [of n q] e(2,3) Cons.prems(2) by (auto simp: min_def split: if_splits)
  qed
  ultimately show ?case using Cons.IH [OF _ _ e(4)] Cons.prems(1) e(5) by auto
qed simp

end

text \<open>A peer is ready when it listens for input once, and for a chance to write exactly when it has to.\<close>

definition peer_ready :: "paxos_peer \<Rightarrow> bool" where
  "peer_ready peer \<longleftrightarrow> pp_watches peer = (if pp_write_buffer peer = [] then [G_IO_IN] else [G_IO_IN, G_IO_OUT])"

interpretation peer_queue: byte_queue pp_write_buffer peer_ready "\<lambda>b q. snd (peer_send b q)" write_buffered
  by unfold_locales (auto simp: peer_send_def write_buffered_def peer_ready_def Let_def min_def)

text \<open>A schedule on a peer: the bytes written, in order, and the peer after it.\<close>

fun peer_run :: "(bytes + nat) list \<Rightarrow> paxos_peer \<Rightarrow> bytes \<times> paxos_peer" where
  "peer_run [] peer = ([], peer)"
| "peer_run (Inl b # es) peer = peer_run es (snd (peer_send b peer))"
| "peer_run (Inr n # es) peer =
     (let (w, peer) = write_buffered n peer; (ws, peer) = peer_run es peer in (w @ ws, peer))"

lemma peer_run_queue: "peer_run es peer = peer_queue.queue_run es peer"
  by (induction es peer rule: peer_run.induct) (auto split: prod.splits)

lemmas peer_run_fifo = peer_queue.queue_run_fifo [folded peer_run_queue]
lemmas peer_run_ready = peer_queue.queue_run_ready [folded peer_run_queue]
lemmas peer_run_drains = peer_queue.queue_run_drains [folded peer_run_queue]

text \<open>The write handler does to the buffer what \<open>write_buffered\<close> does.\<close>

lemma paxos_peer_write_run:
  assumes "status \<noteq> G_IO_STATUS_EOF"
  shows "paxos_peer_write nxt status n reads peer st =
    Some (True, fst (write_buffered n peer), snd (write_buffered n peer), st)"
  using assms by (auto simp: paxos_peer_write_def write_buffered_def Let_def)

subsection \<open>The stream of messages\<close>

text \<open>
  What msgpack documents of its unpacker: an object is found as soon as its bytes are there, whatever
  follows them, and takes at least one byte.
\<close>

definition unpacker_ok :: "(bytes \<Rightarrow> (mobj \<times> bytes) option) \<Rightarrow> bool" where
  "unpacker_ok next \<longleftrightarrow>
     (\<forall>a b o1 rest. next a = Some (o1, rest) \<longrightarrow> next (a @ b) = Some (o1, rest @ b) \<and> length rest < length a)"

text \<open>The objects of a stream, and the dispatch of each in turn.\<close>

inductive objects :: "(bytes \<Rightarrow> (mobj \<times> bytes) option) \<Rightarrow> bytes \<Rightarrow> mobj list \<Rightarrow> bytes \<Rightarrow> bool" for nxt where
  objects_end: "nxt buf = None \<Longrightarrow> objects nxt buf [] buf"
| objects_step: "nxt buf = Some (o1, rest) \<Longrightarrow> objects nxt rest os left \<Longrightarrow> objects nxt buf (o1 # os) left"

inductive_simps objects_Nil: "objects nxt buf [] left"
inductive_simps objects_Cons: "objects nxt buf (o1 # os) left"

fun dispatch_all :: "peer \<Rightarrow> mobj list \<Rightarrow> paxos_state \<Rightarrow> paxos_state option" where
  "dispatch_all source [] st = Some st"
| "dispatch_all source (o1 # os) st = do {
     (ok, lost, st) \<leftarrow> dispatch_one source o1 st;
     if ok \<and> \<not> lost then dispatch_all source os st else None }"

lemma dispatch_all_append: "dispatch_all source (xs @ ys) st = Option.bind (dispatch_all source xs st) (dispatch_all source ys)"
  by (induction source xs st rule: dispatch_all.induct) (auto split: bind_splits)

lemma pop_loop_run: "objects nxt buf os left \<Longrightarrow> dispatch_all source os st = Some st' \<Longrightarrow>
    pop_loop nxt source buf st = Some (True, False, left, st')"
proof (induction arbitrary: st rule: objects.induct)
  case (objects_end buf)
  then show ?case by (simp add: pop_loop.simps [of nxt source buf])
next
  case (objects_step buf o1 rest os left)
  from objects_step.prems obtain ok lost t where t: "dispatch_one source o1 st = Some (ok, lost, t)"
    "(if ok \<and> \<not> lost then dispatch_all source os t else None) = Some st'" by (auto simp: bind_Some_iff split del: if_split)
  then have "ok" "\<not> lost" "dispatch_all source os t = Some st'" by (auto split: if_splits)
  moreover from this have "pop_loop nxt source rest t = Some (True, False, left, st')" by (intro objects_step.IH)
  ultimately show ?case using objects_step.hyps(1) t(1) by (subst pop_loop.simps) simp
qed

text \<open>Cutting the stream does not change its objects.\<close>

lemma objects_append:
  assumes "unpacker_ok nxt"
  shows "objects nxt (a @ b) os left \<Longrightarrow> \<exists>os1 mid os2. os = os1 @ os2 \<and> objects nxt a os1 mid \<and> objects nxt (mid @ b) os2 left"
proof (induction "length a" arbitrary: a os rule: less_induct)
  case less
  show ?case
  proof (cases "nxt a")
    case None
    then show ?thesis using less.prems by (intro exI [of _ "[]"] exI [of _ a] exI [of _ os]) (auto intro: objects_end)
  next
    case (Some p)
    then obtain o1 rest where a: "nxt a = Some (o1, rest)" by (cases p) auto
    then have ab: "nxt (a @ b) = Some (o1, rest @ b)" "length rest < length a" using assms by (auto simp: unpacker_ok_def)
    then obtain os' where os: "os = o1 # os'" "objects nxt (rest @ b) os' left"
      using less.prems by (auto elim: objects.cases)
    then obtain os1 mid os2 where "os' = os1 @ os2" "objects nxt rest os1 mid" "objects nxt (mid @ b) os2 left"
      using less.hyps [OF ab(2)] by blast
    then show ?thesis using os(1) a by (intro exI [of _ "o1 # os1"] exI [of _ mid] exI [of _ os2]) (auto intro: objects_step)
  qed
qed

lemma read_loop_run:
  assumes "unpacker_ok nxt" "\<forall>(s, c)\<in>set reads. s \<noteq> G_IO_STATUS_EOF" "reads \<noteq> [] \<or> os = [] \<and> left = pp_unpacker peer"
    "objects nxt (pp_unpacker peer @ concat (map snd reads)) os left" "dispatch_all (pp_channel peer) os st = Some st'"
  shows "read_loop nxt reads True peer st = Some (True, peer\<lparr>pp_unpacker := left\<rparr>, st')"
  using assms(2-)
proof (induction reads arbitrary: os peer st)
  case Nil
  then show ?case by simp
next
  case (Cons sc reads)
  obtain s c where sc: "sc = (s, c)" by fastforce
  from Cons.prems(3) sc obtain os1 mid os2 where o: "os = os1 @ os2" "objects nxt (pp_unpacker peer @ c) os1 mid"
    "objects nxt (mid @ concat (map snd reads)) os2 left"
    using objects_append [OF assms(1), of "pp_unpacker peer @ c" "concat (map snd reads)" os left] by auto
  then obtain st1 where d: "dispatch_all (pp_channel peer) os1 st = Some st1" "dispatch_all (pp_channel peer) os2 st1 = Some st'"
    using Cons.prems(4) by (auto simp: dispatch_all_append bind_Some_iff)
  have pop: "pop_loop nxt (pp_channel peer) (pp_unpacker peer @ c) st = Some (True, False, mid, st1)"
    using pop_loop_run o(2) d(1) by blast
  have mid: "nxt mid = None" using o(2) by (induction) auto
  show ?case
  proof (cases "reads = []")
    case True
    then have "os2 = []" "left = mid" using o(3) mid by (auto elim: objects.cases)
    then show ?thesis using Cons.prems(1) sc pop d True by auto
  next
    case False
    then show ?thesis using Cons.IH [of os2 "peer\<lparr>pp_unpacker := mid\<rparr>" st1] Cons.prems(1) sc pop o(3) d by auto
  qed
qed

end
