(* ===== verification/Peer_Examples.thy ===== *)
theory Peer_Examples
  imports Examples Peer_Facts
begin

section \<open>A concrete stream\<close>

text \<open>
  An unpacker of two-byte frames: the bytes 1 and 2 are the message that accepts instance 1 of the chat
  with UUID 9, anything else is not yet an object.
\<close>

definition frame_msg :: mobj where
  "frame_msg = M_array [header_obj (msg OP_ACCEPT 1)]"

definition two_byte_frames :: "bytes \<Rightarrow> (mobj \<times> bytes) option" where
  "two_byte_frames buf = (if take 2 buf = [1, 2] then Some (frame_msg, drop 2 buf) else None)"

lemma two_byte_frames_ok: "unpacker_ok two_byte_frames"
proof -
  have "2 \<le> length a" if "take 2 a = [1, 2]" for a :: bytes
    using arg_cong [OF that, of length] by simp
  then show ?thesis by (fastforce simp: unpacker_ok_def two_byte_frames_def split: if_splits)
qed

end
