(* ===== verification/Printing.thy ===== *)
theory Printing
  imports Session_State
begin

section \<open>Printing (paxos\_print.c)\<close>

text \<open>
  The debug printers, as the text they print.  \<open>%*s\<close> takes the size as a minimal field width, not as a
  bound, so it reads the description up to a NUL: past the end of the description when it has none.
\<close>

definition digit :: "nat \<Rightarrow> char" where
  "digit n = char_of (48 + n)"

fun decimal :: "nat \<Rightarrow> string" where
  "decimal n = (if n < 10 then [digit n] else decimal (n div 10) @ [digit (n mod 10)])"

declare decimal.simps [simp del]

definition printf_u :: "u32 \<Rightarrow> string" where
  "printf_u n = decimal (unat n)"

definition printf_bool :: "bool \<Rightarrow> string" where
  "printf_bool b = (if b then ''1'' else ''0'')"

definition printf_width_s :: "bytes \<Rightarrow> string option" where
  "printf_width_s str =
     (if 0 \<in> set str
      then (let text = map (\<lambda>c. char_of (unat c)) (takeWhile (\<lambda>c. c \<noteq> 0) str)
            in Some (replicate (length str - length text) CHR '' '' @ text))
      else None)"

definition paxid_print :: "paxid \<Rightarrow> string \<Rightarrow> string \<Rightarrow> string" where
  "paxid_print paxid lead trail = lead @ printf_u paxid @ trail"

definition ppair_print :: "ppair \<Rightarrow> string \<Rightarrow> string \<Rightarrow> string" where
  "ppair_print pp lead trail = lead @ paxid_print (pid pp) ''('' '', '' @ paxid_print (gen pp) '''' '')'' @ trail"

definition paxop_print :: "paxop \<Rightarrow> string \<Rightarrow> string \<Rightarrow> string" where
  "paxop_print op1 lead trail = lead @ (case op1 of
     OP_PREPARE \<Rightarrow> ''OP_PREPARE ''
   | OP_PROMISE \<Rightarrow> ''OP_PROMISE ''
   | OP_DECREE \<Rightarrow> ''OP_DECREE  ''
   | OP_ACCEPT \<Rightarrow> ''OP_ACCEPT  ''
   | OP_COMMIT \<Rightarrow> ''OP_COMMIT  ''
   | OP_WELCOME \<Rightarrow> ''OP_WELCOME ''
   | OP_HELLO \<Rightarrow> ''OP_HELLO   ''
   | OP_REQUEST \<Rightarrow> ''OP_REQUEST ''
   | OP_RETRIEVE \<Rightarrow> ''OP_RETRIEVE''
   | OP_RESEND \<Rightarrow> ''OP_RESEND  ''
   | OP_REDIRECT \<Rightarrow> ''OP_REDIRECT''
   | OP_REFUSE \<Rightarrow> ''OP_REFUSE  ''
   | OP_REJECT \<Rightarrow> ''OP_REJECT  ''
   | OP_RETRY \<Rightarrow> ''OP_RETRY   ''
   | OP_RECOMMIT \<Rightarrow> ''OP_RECOMMIT''
   | OP_SYNC \<Rightarrow> ''OP_SYNC    ''
   | OP_LAST \<Rightarrow> ''OP_LAST    ''
   | OP_TRUNCATE \<Rightarrow> ''OP_TRUNCATE''
   | OP_unknown _ \<Rightarrow> '''') @ trail"

definition dkind_print :: "dkind \<Rightarrow> string \<Rightarrow> string \<Rightarrow> string" where
  "dkind_print k lead trail = lead @ (case k of
     DEC_NULL \<Rightarrow> ''DEC_NULL''
   | DEC_CHAT \<Rightarrow> ''DEC_CHAT''
   | DEC_JOIN \<Rightarrow> ''DEC_JOIN''
   | DEC_PART \<Rightarrow> ''DEC_PART''
   | DEC_KILL \<Rightarrow> ''DEC_KILL''
   | _ \<Rightarrow> '''') @ trail"

definition paxos_header_print :: "paxos_header \<Rightarrow> string \<Rightarrow> string \<Rightarrow> string" where
  "paxos_header_print hdr lead trail =
     lead @ paxop_print (ph_opcode hdr) '''' '' '' @ ppair_print (ph_ballot hdr) '''' '' '' @
     paxid_print (ph_inum hdr) '''' '''' @ trail"

definition paxos_value_print :: "paxos_value \<Rightarrow> string \<Rightarrow> string \<Rightarrow> string" where
  "paxos_value_print val lead trail =
     lead @ dkind_print (pv_dkind val) '''' '' '' @ ppair_print (pv_reqid val) '''' '' '' @
     paxid_print (pv_extra val) '''' '''' @ trail"

definition paxos_acceptor_print :: "paxos_acceptor \<Rightarrow> string \<Rightarrow> string \<Rightarrow> string option" where
  "paxos_acceptor_print acc lead trail = do {
     desc \<leftarrow> printf_width_s (pa_desc acc);
     Some (lead @ paxid_print (pa_paxid acc) '''' '': '' @ desc @ trail)
   }"

definition paxos_instance_print :: "paxos_instance \<Rightarrow> string \<Rightarrow> string \<Rightarrow> string" where
  "paxos_instance_print inst lead trail =
     paxos_header_print (pi_hdr inst) lead [CHR 0x0A] @
     paxos_value_print (pi_val inst) lead [CHR 0x0A] @
     ''['' @ printf_bool (pi_committed inst) @ ''/'' @ printf_bool (pi_cached inst) @ ''/'' @
     printf_bool (pi_learned inst) @ ''] votes: '' @ printf_u (pi_votes inst) @ '' / rejects: '' @
     printf_u (pi_rejects inst) @ trail"

definition paxos_request_print :: "paxos_request \<Rightarrow> string \<Rightarrow> string \<Rightarrow> string option" where
  "paxos_request_print req lead trail = do {
     text \<leftarrow> printf_width_s (pr_data req);
     Some (paxos_value_print (pr_val req) lead [CHR 0x0A] @ text @ trail)
   }"

subsection \<open>Printed identifiers can be read back\<close>

fun undecimal :: "string \<Rightarrow> nat" where
  "undecimal cs = foldl (\<lambda>n c. 10 * n + (of_char c - 48)) 0 cs"

lemma undecimal_decimal: "undecimal (decimal n) = n"
proof (induction n rule: decimal.induct)
  case (1 n)
  have d: "of_char (digit k) = 48 + k" if "k < 10" for k
    using that by (simp add: digit_def)
  show ?case
  proof (cases "n < 10")
    case True
    then show ?thesis using d [OF True] by (simp add: decimal.simps [of n])
  next
    case False
    then show ?thesis using 1 d [of "n mod 10"] by (simp add: decimal.simps [of n])
  qed
qed

lemma printf_u_inj: "printf_u x = printf_u y \<longleftrightarrow> x = y"
  by (metis printf_u_def undecimal_decimal word_unat_eq_iff)

end
