(* ===== verification/Rpc.thy ===== *)
theory Rpc
  imports Msgpack_Model
begin

section \<open>The client of the discovery server (turquoise/rpc.c, rpc\_io.c, msgpackutil.h)\<close>

text \<open>
  The Pidgin plugin's calls to the server and its handlers for the responses.  libpurple is a library:
  an account's buddy list is a map from names to the plugin's data for the buddy; a buddy that
  \<open>purple\_buddy\_new\<close> makes is not in it, as nothing adds it.  A C string is its bytes up to the NUL.
  The \<open>assert\<close> of this file returns 1, so a failed one is a result; \<open>None\<close> is a fault as everywhere.
\<close>

record pm_buddy =
  ip :: "bytes option"
  port :: int

type_synonym buddies = "bytes \<Rightarrow> pm_buddy option"

datatype rpc_opcode =
    OP_AUTHENTICATE_USER | OP_REGISTER_FRIEND | OP_UNREGISTER_FRIEND | OP_GET_FRIEND_IP | OP_REGISTER_STATUS
  | OP_ACCEPT_FRIEND | OP_GET_ALL_STATUSES | OP_GET_USER_STATUS
  | OP_PUSH_CLIENT_STATUS | OP_PUSH_FRIEND_ACCEPT | OP_PUSH_FRIEND_REQUEST
  | OP_AUTHENTICATE_SERVER | OP_SERVER_SEND_FRIEND | OP_SERVER_SEND_UNFRIEND | OP_SERVER_SEND_STATUS_CHANGED
  | OP_SERVER_SEND_ACCEPT | OP_SERVER_GET_STATUS
  | OP_SUCCESS | OP_AUTHENTICATED | OP_AUTH_FAILED | OP_ACCESS_DENIED | OP_ALL_STATUS_RESPONSE
  | OP_SERVER_GET_STATUS_RESP | OP_GET_STATUS_RESP | OP_FRIEND_SERVER_DOWN

fun rpc_opcode_num :: "rpc_opcode \<Rightarrow> int" where
  "rpc_opcode_num OP_AUTHENTICATE_USER = 1"
| "rpc_opcode_num OP_REGISTER_FRIEND = 2"
| "rpc_opcode_num OP_UNREGISTER_FRIEND = 3"
| "rpc_opcode_num OP_GET_FRIEND_IP = 4"
| "rpc_opcode_num OP_REGISTER_STATUS = 5"
| "rpc_opcode_num OP_ACCEPT_FRIEND = 6"
| "rpc_opcode_num OP_GET_ALL_STATUSES = 7"
| "rpc_opcode_num OP_GET_USER_STATUS = 8"
| "rpc_opcode_num OP_PUSH_CLIENT_STATUS = 20"
| "rpc_opcode_num OP_PUSH_FRIEND_ACCEPT = 21"
| "rpc_opcode_num OP_PUSH_FRIEND_REQUEST = 22"
| "rpc_opcode_num OP_AUTHENTICATE_SERVER = 30"
| "rpc_opcode_num OP_SERVER_SEND_FRIEND = 31"
| "rpc_opcode_num OP_SERVER_SEND_UNFRIEND = 32"
| "rpc_opcode_num OP_SERVER_SEND_STATUS_CHANGED = 33"
| "rpc_opcode_num OP_SERVER_SEND_ACCEPT = 34"
| "rpc_opcode_num OP_SERVER_GET_STATUS = 35"
| "rpc_opcode_num OP_SUCCESS = 60"
| "rpc_opcode_num OP_AUTHENTICATED = 61"
| "rpc_opcode_num OP_AUTH_FAILED = 62"
| "rpc_opcode_num OP_ACCESS_DENIED = 63"
| "rpc_opcode_num OP_ALL_STATUS_RESPONSE = 65"
| "rpc_opcode_num OP_SERVER_GET_STATUS_RESP = 66"
| "rpc_opcode_num OP_GET_STATUS_RESP = 68"
| "rpc_opcode_num OP_FRIEND_SERVER_DOWN = 91"

subsection \<open>Responses\<close>

definition cstring :: "bytes \<Rightarrow> bytes" where
  "cstring b = takeWhile (\<lambda>c. c \<noteq> 0) b"

text \<open>A string literal.\<close>

definition c_str :: "string \<Rightarrow> bytes" where
  "c_str s = map (\<lambda>c. word_of_nat (of_char c)) s"

text \<open>
  One entry of a status list: size 3 is asserted, then a fourth element is checked.  \<open>Inl b\<close> is the
  return with 1, \<open>Inr b\<close> going on.
\<close>

definition all_statuses_entry :: "mobj \<Rightarrow> buddies \<Rightarrow> (buddies + buddies) option" where
  "all_statuses_entry s b = (case s of
     M_array a \<Rightarrow>
       if length a \<noteq> 3 then Some (Inl b)
       else do {
         a0 \<leftarrow> elem a 0; a1 \<leftarrow> elem a 1; a2 \<leftarrow> elem a 2;
         (case (a0, a1, a2) of
            (M_raw name, M_positive_integer status, M_raw addr) \<Rightarrow> do {
              a3 \<leftarrow> elem a 3;
              (case a3 of
                 M_positive_integer p \<Rightarrow>
                   Some (Inr (case b (cstring name) of
                     None \<Rightarrow> b
                   | Some _ \<Rightarrow> b(cstring name \<mapsto> \<lparr>ip = Some (cstring addr), port = sint (ucast p :: u32)\<rparr>)))
               | _ \<Rightarrow> Some (Inl b)) }
          | _ \<Rightarrow> Some (Inl b)) }
   | _ \<Rightarrow> Some (Inl b))"

fun all_statuses_walk :: "mobj list \<Rightarrow> buddies \<Rightarrow> (int \<times> buddies) option" where
  "all_statuses_walk [] b = Some (0, b)"
| "all_statuses_walk (s # es) b = do {
     r \<leftarrow> all_statuses_entry s b;
     (case r of Inl b \<Rightarrow> Some (1, b) | Inr b \<Rightarrow> all_statuses_walk es b)
   }"

text \<open>\<open>o1\<close> is the pointer to the object after the opcode, \<open>None\<close> past the end of the array.\<close>

definition rpc_all_statuses :: "mobj option \<Rightarrow> buddies \<Rightarrow> (int \<times> buddies) option" where
  "rpc_all_statuses o1 b = do {
     obj \<leftarrow> o1;
     (case obj of M_array es \<Rightarrow> all_statuses_walk es b | _ \<Rightarrow> Some (1, b))
   }"

text \<open>
  \<open>u64\<close> is what \<open>via.u64\<close> reads of a raw object (the layout of msgpack's union).  The old address is
  freed before \<open>swapout\<close> frees it.
\<close>

definition rpc_get_status_resp :: "(bytes \<Rightarrow> u64) \<Rightarrow> mobj option \<Rightarrow> buddies \<Rightarrow> (int \<times> buddies) option" where
  "rpc_get_status_resp u64 o1 b = do {
     obj \<leftarrow> o1;
     (case obj of
        M_array [M_raw name, M_positive_integer status, M_raw addr, M_positive_integer p] \<Rightarrow>
          (case b (cstring name) of
             None \<Rightarrow> Some (1, b)
           | Some buddy \<Rightarrow> do {
               assert (ip buddy = None);
               Some (0, b(cstring name \<mapsto> \<lparr>ip = Some (cstring addr), port = sint (ucast (u64 addr) :: u32)\<rparr>)) })
      | _ \<Rightarrow> Some (1, b))
   }"

definition rpc_dispatch :: "(bytes \<Rightarrow> u64) \<Rightarrow> mobj \<Rightarrow> buddies \<Rightarrow> (int \<times> buddies) option" where
  "rpc_dispatch u64 obj b = (case obj of
     M_array (M_negative_integer opcode # args) \<Rightarrow>
       if opcode = rpc_opcode_num OP_ALL_STATUS_RESPONSE then rpc_all_statuses (elem args 0) b
       else if opcode = rpc_opcode_num OP_GET_STATUS_RESP then rpc_get_status_resp u64 (elem args 0) b
       else Some (1, b)
   | _ \<Rightarrow> Some (1, b))"

subsection \<open>Calls\<close>

definition yak_init :: "nat \<Rightarrow> paxos_yak" where
  "yak_init nelem = [Pack_array nelem]"

definition yak_string :: "bytes \<Rightarrow> paxos_yak" where
  "yak_string data = [Pack_raw (length data), Pack_raw_body data]"

definition yak_cstring :: "bytes \<Rightarrow> paxos_yak" where
  "yak_cstring str = yak_string (cstring str)"

definition rpc_op :: "rpc_opcode \<Rightarrow> nat \<Rightarrow> paxos_yak" where
  "rpc_op op1 nargs = yak_init (1 + nargs) @ [Pack_int (rpc_opcode_num op1)]"

text \<open>Each call is the message it writes to the connection.\<close>

definition rpc_login :: "bytes \<Rightarrow> bytes \<Rightarrow> paxos_yak" where
  "rpc_login username password = rpc_op OP_AUTHENTICATE_USER 2 @ yak_cstring username @ yak_cstring password"

definition rpc_get_all_statuses :: paxos_yak where
  "rpc_get_all_statuses = rpc_op OP_GET_ALL_STATUSES 0"

definition rpc_register_friend :: "bytes \<Rightarrow> paxos_yak" where
  "rpc_register_friend name = rpc_op OP_REGISTER_FRIEND 1 @ yak_cstring name"

definition rpc_unregister_friend :: "bytes \<Rightarrow> paxos_yak" where
  "rpc_unregister_friend name = rpc_op OP_UNREGISTER_FRIEND 1 @ yak_cstring name"

definition rpc_get_status :: "bytes \<Rightarrow> paxos_yak" where
  "rpc_get_status name = rpc_op OP_GET_USER_STATUS 1 @ yak_cstring name"

definition rpc_register_status :: "int \<Rightarrow> paxos_yak" where
  "rpc_register_status status = rpc_op OP_REGISTER_STATUS 1 @ [Pack_int status]"

definition rpc_accept_friend :: "bytes \<Rightarrow> paxos_yak" where
  "rpc_accept_friend name = rpc_op OP_ACCEPT_FRIEND 1 @ yak_cstring name"

text \<open>Connecting, with the host of the account, and what is sent when the connection stands.\<close>

definition MOTMOT_PORT :: int where
  "MOTMOT_PORT = 1234"

definition rpc_connect :: "bytes option \<Rightarrow> bytes option \<times> int" where
  "rpc_connect server_host = (server_host, MOTMOT_PORT)"

definition rpc_connect_success :: "bytes \<Rightarrow> bytes \<Rightarrow> paxos_yak list" where
  "rpc_connect_success username password = [rpc_login username password, rpc_get_all_statuses]"

text \<open>
  The account of the plugin: its connection (\<open>None\<close> for NULL) and the host of the server; its libpurple
  account and its unpacker are arguments where they are used.  A failed attempt
  to connect leaves it without a connection and is reported; closing hands libpurple whatever is there.
\<close>

record pm_account =
  gsc :: "nat option"
  server_host :: "bytes option"

datatype ssl_call = Ssl_close "nat option" | Connection_ssl_error int

definition rpc_connect_error :: "int \<Rightarrow> pm_account \<Rightarrow> pm_account \<times> ssl_call list" where
  "rpc_connect_error error account = (account\<lparr>gsc := None\<rparr>, [Connection_ssl_error error])"

definition rpc_close :: "pm_account \<Rightarrow> ssl_call list" where
  "rpc_close account = [Ssl_close (gsc account)]"

subsection \<open>Reading from the server\<close>

text \<open>
  The inner loop of \<open>rpc_read\<close> (\<open>next\<close> is \<open>msgpack\_unpacker\_next\<close>): the results of the dispatches are
  not looked at.
\<close>

partial_function (option) rpc_pop_loop ::
  "(bytes \<Rightarrow> u64) \<Rightarrow> (bytes \<Rightarrow> (mobj \<times> bytes) option) \<Rightarrow> bytes \<Rightarrow> buddies \<Rightarrow> (bytes \<times> buddies) option" where
  "rpc_pop_loop u64 next buf b = (case next buf of
     None \<Rightarrow> Some (buf, b)
   | Some (o1, rest) \<Rightarrow> do {
       (_, b) \<leftarrow> rpc_dispatch u64 o1 b;
       rpc_pop_loop u64 next rest b })"

text \<open>
  The outer loop on the sequence of results of \<open>purple\_ssl\_read\<close>: an \<open>int\<close>, and the bytes read.  It is
  stored in a \<open>size\_t\<close> before it is compared with 0, and the unpacker is told that so many bytes have come
  in: more than \<open>BUFSIZE\<close> runs it off its buffer.
\<close>

partial_function (option) rpc_read_loop ::
  "(bytes \<Rightarrow> u64) \<Rightarrow> (bytes \<Rightarrow> (mobj \<times> bytes) option) \<Rightarrow> (nat \<Rightarrow> int \<times> bytes) \<Rightarrow> nat \<Rightarrow> bytes \<Rightarrow> buddies \<Rightarrow>
   (bytes \<times> buddies) option" where
  "rpc_read_loop u64 next reads i buf b =
     (let bytes_read = (word_of_int (fst (reads i)) :: u64)
      in if bytes_read < 0 then Some (buf, b)
         else if bytes_read > 512 then None
         else do {
           (buf, b) \<leftarrow> rpc_pop_loop u64 next (buf @ snd (reads i)) b;
           rpc_read_loop u64 next reads (Suc i) buf b })"

definition rpc_read ::
  "(bytes \<Rightarrow> u64) \<Rightarrow> (bytes \<Rightarrow> (mobj \<times> bytes) option) \<Rightarrow> (nat \<Rightarrow> int \<times> bytes) \<Rightarrow> bytes \<Rightarrow> buddies \<Rightarrow> (bytes \<times> buddies) option" where
  "rpc_read u64 next reads buf b = rpc_read_loop u64 next reads 0 buf b"

subsection \<open>What the responses do\<close>

text \<open>What can go wrong with a list of statuses: a well-formed entry is a fault.\<close>

definition status_entry :: "mobj \<Rightarrow> bool" where
  "status_entry s \<longleftrightarrow> (\<exists>name status addr. s = M_array [M_raw name, M_positive_integer status, M_raw addr])"

lemma all_statuses_entry_run:
  "all_statuses_entry s b = (if status_entry s then None else Some (Inl b))"
proof (cases "\<exists>a0 a1 a2. s = M_array [a0, a1, a2]")
  case True
  then obtain a0 a1 a2 where "s = M_array [a0, a1, a2]" by blast
  then show ?thesis
    by (auto simp: all_statuses_entry_def status_entry_def elem_def split: mobj.splits)
next
  case False
  moreover from this have "length a \<noteq> 3" if "s = M_array a" for a
    using that by (auto simp: length_Suc_conv numeral_eq_Suc)
  ultimately show ?thesis
    by (auto simp: all_statuses_entry_def status_entry_def split: mobj.splits)
qed

lemma rpc_all_statuses_run:
  "rpc_all_statuses (Some (M_array es)) b =
     (case es of [] \<Rightarrow> Some (0, b) | s # _ \<Rightarrow> if status_entry s then None else Some (1, b))"
  by (cases es) (simp_all add: rpc_all_statuses_def all_statuses_entry_run)

text \<open>The messages msgpack delivers: a negative integer is below 0.\<close>

lemma rpc_dispatch_run:
  assumes "\<And>n args. obj = M_array (M_negative_integer n # args) \<Longrightarrow> n < 0"
  shows "rpc_dispatch u64 obj b = Some (1, b)"
  using assms by (auto simp: rpc_dispatch_def split: mobj.splits list.splits)

lemma rpc_read_loop_diverges: "rpc_read_loop u64 next reads i buf b = None"
proof -
  have False if "rpc_read_loop u64 next reads i buf b = Some y" for y
    by (rule rpc_read_loop.raw_induct [where P = "\<lambda>_ _ _ _ _ _ _. False", OF _ that]) (auto simp: Let_def bind_Some_iff split: if_splits)
  then show ?thesis by (cases "rpc_read_loop u64 next reads i buf b") auto
qed

end
