(* ===== verification/Client.thy ===== *)
theory Client
  imports Peer_IO Rpc
begin

section \<open>The command line client (main.c)\<close>

text \<open>
  What the terminal client asks of the library.  A line is read as a buffer with a terminating NUL, in
  which the newline is overwritten; reading behind the buffer is a fault.  \<open>chat\<close> is the global
  \<open>session\<close>.  Output to the terminal is the text printed; sockets are a parameter.
\<close>

datatype client_action =
    Request_ignored
  | Invite bytes
  | Disconnect_and_exit
  | Send_chat bytes
  | No_action

definition g_str_has_prefix :: "bytes \<Rightarrow> bytes \<Rightarrow> bool" where
  "g_str_has_prefix str pre = (take (length pre) str = pre)"

text \<open>\<open>text\<close> is the line without its terminator, \<open>term\<close> the terminator (empty at the end of the input).\<close>

definition line_buffer :: "bytes \<Rightarrow> bytes \<Rightarrow> bytes" where
  "line_buffer text term = (text @ term @ [0])[length text := 0]"

definition skip_spaces :: "bytes \<Rightarrow> bytes" where
  "skip_spaces str = dropWhile (\<lambda>c. c = 32) str"

definition parse_line :: "bytes \<Rightarrow> bytes \<Rightarrow> client_action option" where
  "parse_line text term =
     (let msg = line_buffer text term; str = cstring msg
      in if g_str_has_prefix str (c_str ''/invite '') then Some (Invite (skip_spaces (drop 8 str)))
         else if g_str_has_prefix str (c_str ''/part'') then
           (if 6 < length msg
            then Some (if msg ! 6 = 0 \<or> msg ! 6 = 32 then Disconnect_and_exit else No_action)
            else None)
         else Some (Send_chat (take (length text + 1) msg)))"

definition input_line :: "bytes \<Rightarrow> bytes \<Rightarrow> sref option \<Rightarrow> client_action option" where
  "input_line text term chat = (if chat = None then Some Request_ignored else parse_line text term)"

text \<open>The call each action makes; the client exits after a disconnect.\<close>

definition input_loop :: "bytes \<Rightarrow> bytes \<Rightarrow> sref option \<Rightarrow> paxos_state \<Rightarrow> (client_action \<times> paxos_state) option" where
  "input_loop text term chat st = do {
     act \<leftarrow> input_line text term chat;
     (case act of
        Invite handle \<Rightarrow> map_option (\<lambda>(_, st). (act, st)) (motmot_invite handle chat st)
      | Disconnect_and_exit \<Rightarrow> do {
          r \<leftarrow> chat;
          map_option (\<lambda>(_, st). (act, st)) (motmot_disconnect r st) }
      | Send_chat buf \<Rightarrow> map_option (\<lambda>(_, st). (act, st)) (motmot_send buf chat st)
      | _ \<Rightarrow> Some (act, st))
   }"

text \<open>Starting: the socket's name is the description, the others are invited one by one.\<close>

fun invite_all :: "bytes list \<Rightarrow> sref option \<Rightarrow> paxos_state \<Rightarrow> paxos_state option" where
  "invite_all [] chat st = Some st"
| "invite_all (x # xs) chat st = do {
     (_, st) \<leftarrow> motmot_invite x chat st;
     invite_all xs chat st
   }"

definition main_start :: "bytes \<Rightarrow> (bytes \<Rightarrow> int) \<Rightarrow> bytes list \<Rightarrow> (sref option \<times> paxos_state) option" where
  "main_start rnd conn argv =
     (if length argv < 2 then None
      else do {
        let (_, st) = motmot_init conn Null_data;
        (chat, st) \<leftarrow> (if 2 < length argv
           then map_option (\<lambda>(r, st). (Some r, st)) (motmot_session rnd (argv ! 1) Null_data st)
           else Some (None, st));
        st \<leftarrow> invite_all (drop 2 argv) chat st;
        Some (chat, st) })"

subsection \<open>The terminal\<close>

text \<open>The text that \<open>%.*s\<close> prints: at most \<open>n\<close> bytes, and none from a NUL on.\<close>

definition precision_str :: "nat \<Rightarrow> bytes \<Rightarrow> bytes" where
  "precision_str n s = takeWhile (\<lambda>c. c \<noteq> 0) (take n s)"

definition print_chat :: "bytes \<Rightarrow> nat \<Rightarrow> bytes \<Rightarrow> nat \<Rightarrow> bytes" where
  "print_chat buf len desc n =
     c_str ''CHAT('' @ precision_str n desc @ c_str ''): '' @ precision_str len buf @ [10]"

definition print_join :: "bytes \<Rightarrow> nat \<Rightarrow> bytes" where
  "print_join desc n = c_str ''JOIN: '' @ precision_str n desc @ [10]"

definition print_part :: "bytes \<Rightarrow> nat \<Rightarrow> bytes" where
  "print_part desc n = c_str ''PART: '' @ precision_str n desc @ [10]"

text \<open>Entering sets the global \<open>session\<close>; leaving clears it, and the program exits.\<close>

definition enter :: "sref option \<Rightarrow> bytes \<times> sref option" where
  "enter data = (c_str ''Welcome to your Motmot session!'' @ [10], data)"

definition leave :: "bytes \<times> sref option \<times> bool" where
  "leave = (c_str ''PART succeeded.  Exiting...'' @ [10], None, True)"

subsection \<open>Sockets\<close>

text \<open>
  The operating system: whether a socket can be made, whether the name can be bound and listened on, and
  the socket that a connect to a name gives.  A failed \<open>err\<close> ends the program, which is None.
\<close>

record os =
  os_socket :: "int option"
  os_listens :: "bytes \<Rightarrow> bool"
  os_connects :: "bytes \<Rightarrow> bool"
  os_accept :: "int option"

definition socket_open :: "os \<Rightarrow> bytes \<Rightarrow> bool \<Rightarrow> int option option" where
  "socket_open w handle listening = do {
     s \<leftarrow> os_socket w;
     if listening then (if os_listens w handle then Some (Some s) else None)
     else Some (if os_connects w handle then Some s else None)
   }"

definition listen_unix :: "os \<Rightarrow> bytes \<Rightarrow> int option option" where
  "listen_unix w handle = socket_open w handle True"

text \<open>The callback runs before the connect returns, with no channel when the connection was refused.\<close>

definition connect_unix :: "os \<Rightarrow> bytes \<Rightarrow> (int option \<Rightarrow> 's \<Rightarrow> (int \<times> 's) option) \<Rightarrow> 's \<Rightarrow> (int \<times> 's) option" where
  "connect_unix w handle cb st = do {
     chan \<leftarrow> socket_open w handle False;
     cb chan st
   }"

text \<open>The new channel is watched, and the listening one stays so.\<close>

definition socket_accept :: "os \<Rightarrow> (int \<Rightarrow> 's \<Rightarrow> 's) \<Rightarrow> 's \<Rightarrow> (bool \<times> 's) option" where
  "socket_accept w watch st = do {
     newfd \<leftarrow> os_accept w;
     Some (True, watch newfd st)
   }"

text \<open>A listener is a channel or the end of the program; a connect that fails still calls back.\<close>

lemma listen_unix_channel: "listen_unix w handle \<noteq> Some None"
  by (simp add: listen_unix_def socket_open_def bind_eq_Some_conv split: bind_splits)

lemma connect_unix_refused: "os_socket w \<noteq> None \<Longrightarrow> \<not> os_connects w handle \<Longrightarrow> connect_unix w handle cb st = cb None st"
  by (auto simp: connect_unix_def socket_open_def)

subsection \<open>What /part does\<close>

lemma part_prefix:
  assumes "text = c_str ''/part'' @ rest" "0 \<notin> set rest" "term = [10]"
  shows "parse_line text term =
    Some (if length rest \<le> 1 \<or> rest ! 1 = 32 then Disconnect_and_exit else No_action)"
proof -
  have buf: "line_buffer text term = c_str ''/part'' @ rest @ [0, 0]"
    using assms(1,3) by (simp add: line_buffer_def list_update_append c_str_def)
  have "cstring (line_buffer text term) = c_str ''/part'' @ rest"
    unfolding buf cstring_def using assms(2) by (auto simp: c_str_def takeWhile_append2 takeWhile_append)
  moreover have "(c_str ''/part'' @ rest @ [0, 0]) ! 6 = (rest @ [0, 0]) ! 1" by (simp add: c_str_def)
  moreover have "(rest @ [0, 0]) ! 1 = 0 \<or> (rest @ [0, 0]) ! 1 = 32 \<longleftrightarrow> length rest \<le> 1 \<or> rest ! 1 = 32"
    using assms(2) by (cases rest rule: remdups_adj.cases) auto
  ultimately show ?thesis
    by (simp add: parse_line_def buf g_str_has_prefix_def c_str_def Let_def)
qed

end
