(* ===== verification/Plugin.thy ===== *)
theory Plugin
  imports Rpc
begin

section \<open>The Pidgin plugin (turquoise/purplemot.c)\<close>

text \<open>
  The parts of the plugin that decide something: statuses, messages to users who are offline, rooms,
  invitations and whispers.  libpurple is a library: \<open>purple\<close> is what it knows (the accounts of this
  process, who blocks whom, the values of its message flags, GLib's string hash), and what the plugin
  asks of it is a list of effects.  Debug output is left out.
\<close>

type_synonym flags = u32

record purple_account =
  connected :: bool
  user_info :: "bytes option"
  rooms :: "(u32 \<times> bytes) list"      \<comment> \<open>the chats it is in: identifier and name\<close>

record purple =
  accounts :: "bytes \<Rightarrow> purple_account option"
  privacy :: "bytes \<Rightarrow> bytes \<Rightarrow> bool"    \<comment> \<open>\<open>purple\_privacy\_check\<close>: recipient, sender\<close>
  msg_send :: flags
  msg_recv :: flags
  msg_whisper :: flags
  str_hash :: "bytes \<Rightarrow> u32"

datatype pstatus = ONLINE | AWAY | OFFLINE | BUSY | SERVER

fun pstatus_num :: "pstatus \<Rightarrow> int" where
  "pstatus_num ONLINE = 1"
| "pstatus_num AWAY = 2"
| "pstatus_num OFFLINE = 3"
| "pstatus_num BUSY = 4"
| "pstatus_num SERVER = 5"

datatype ui =
    Got_im bytes bytes bytes flags nat        \<comment> \<open>\<open>serv\_got\_im\<close>: to, from, text, flags, time\<close>
  | Present_error bytes bytes
  | Connection_error
  | Display_name bytes
  | Server_connect "bytes option" int
  | Connected
  | User_status bytes string
  | Rpc_write paxos_yak
  | Joined_chat bytes u32 bytes
  | Notify_info "bytes option" bytes
  | Chat_invite bytes bytes bytes bytes
  | Chat_write bytes bytes flags
  | Chat_whisper bytes u32 bytes bytes
  | Got_chat_in u32 bytes flags bytes

definition get_purplemot_gc :: "purple \<Rightarrow> bytes \<Rightarrow> bytes option" where
  "get_purplemot_gc w username = (case accounts w username of
     None \<Rightarrow> None
   | Some acct \<Rightarrow> if connected acct then Some username else None)"

subsection \<open>Statuses\<close>

definition update_remote_status :: "bytes \<Rightarrow> int \<Rightarrow> ui list" where
  "update_remote_status friend_name status =
     (if status = pstatus_num ONLINE then [User_status friend_name ''online'']
      else if status = pstatus_num AWAY \<or> status = pstatus_num BUSY then [User_status friend_name ''away'']
      else if status = pstatus_num OFFLINE then [User_status friend_name ''offline'']
      else [])"

definition motmot_report_status :: "string \<Rightarrow> ui list" where
  "motmot_report_status ident =
     (if ident = ''online'' then [Rpc_write (rpc_register_status (pstatus_num ONLINE))]
      else if ident = ''away'' then [Rpc_write (rpc_register_status (pstatus_num AWAY))]
      else if ident = ''offline'' then [Rpc_write (rpc_register_status (pstatus_num OFFLINE))]
      else [])"

definition purplemot_set_status :: "string \<Rightarrow> ui list" where
  "purplemot_set_status ident = motmot_report_status ident"

definition purplemot_remove_buddy :: "bytes \<Rightarrow> ui list" where
  "purplemot_remove_buddy buddy = [Rpc_write (rpc_unregister_friend buddy)]"

text \<open>The walk over both lists ends with the shorter.\<close>

fun purplemot_remove_buddies :: "bytes list \<Rightarrow> bytes list \<Rightarrow> ui list" where
  "purplemot_remove_buddies (b # bs) (g # gs) = purplemot_remove_buddy b @ purplemot_remove_buddies bs gs"
| "purplemot_remove_buddies _ _ = []"

subsection \<open>Messages for users who are offline\<close>

record offline_message =
  om_from :: bytes
  om_message :: bytes
  om_mtime :: nat
  om_flags :: flags

text \<open>The table \<open>goffline\_messages\<close>; a message that has been freed is \<open>None\<close>.\<close>

type_synonym offline_table = "bytes \<Rightarrow> offline_message option list option"

definition purplemot_send_im ::
  "purple \<Rightarrow> nat \<Rightarrow> bytes \<Rightarrow> bytes \<Rightarrow> bytes \<Rightarrow> flags \<Rightarrow> offline_table \<Rightarrow> int \<times> ui list \<times> offline_table" where
  "purplemot_send_im w now from_username who message fl table =
     (let receive_flags = or (and fl (not (msg_send w))) (msg_recv w)
      in if accounts w who \<noteq> None \<and> \<not> privacy w who from_username
         then (0, [Present_error who (c_str ''Your message was blocked by '' @ who @ [39] @ c_str ''s privacy settings.'')], table)
         else (case get_purplemot_gc w who of
             Some to \<Rightarrow> (1, [Got_im to from_username message receive_flags now], table)
           | None \<Rightarrow>
               (let offline = \<lparr>om_from = from_username, om_message = message, om_mtime = now, om_flags = receive_flags\<rparr>;
                    messages = (case table who of None \<Rightarrow> [] | Some ms \<Rightarrow> ms)
                in (1, [], table(who \<mapsto> messages @ [Some offline])))))"

text \<open>Delivering: each message is read and freed; a freed one cannot be read.\<close>

fun deliver_offline :: "bytes \<Rightarrow> offline_message option list \<Rightarrow> ui list option" where
  "deliver_offline username [] = Some []"
| "deliver_offline username (m # ms) = do {
     om \<leftarrow> m;
     es \<leftarrow> deliver_offline username ms;
     Some (Got_im username (om_from om) (om_message om) (om_flags om) (om_mtime om) # es)
   }"

text \<open>
  The port of the account's settings is read and not used.  The entry to remove from the table is named by \<open>\&acct->username\<close>, the address of the pointer, not by
  the user name: \<open>addr\_key\<close> is the string that the bytes of the pointer happen to be.
  \<open>g\_strsplit\<close> makes an empty vector of an empty user name, and \<open>userparts[1]\<close> is then read past its end.
\<close>

definition split_at :: "bytes \<Rightarrow> bytes \<times> bytes option" where
  "split_at username =
     (if 64 \<in> set username then (takeWhile (\<lambda>c. c \<noteq> 64) username, Some (tl (dropWhile (\<lambda>c. c \<noteq> 64) username)))
      else (username, None))"

definition purplemot_login :: "bytes \<Rightarrow> int \<Rightarrow> bytes \<Rightarrow> offline_table \<Rightarrow> (ui list \<times> offline_table) option" where
  "purplemot_login addr_key disc_port username table =
     (if \<exists>c\<in>set username. c \<in> {32, 9, 11, 13, 10} then Some ([Connection_error], table)
      else do {
        assert (username \<noteq> []);
        let (name, server) = split_at username;
        let ms = (case table username of None \<Rightarrow> [] | Some ms \<Rightarrow> ms);
        es \<leftarrow> deliver_offline username ms;
        let table = (if ms = [] then table else table(username \<mapsto> map (\<lambda>_. None) ms));
        Some ([Display_name name, Server_connect (fst (rpc_connect server)) (snd (rpc_connect server)), Connected] @ es, table(addr_key := None)) })"

text \<open>
  The account that the login leaves in \<open>gc->proto\_data\<close>, with the connection that \<open>purple\_ssl\_connect\<close> gave.
  libpurple closes a connection after an error as well, and closing reads the account: after a login
  that was refused there is none.  (For an empty user name the login does not get to its end.)
\<close>

definition login_account :: "nat option \<Rightarrow> bytes \<Rightarrow> pm_account option" where
  "login_account conn username =
     (if \<exists>c\<in>set username. c \<in> {32, 9, 11, 13, 10} then None
      else Some \<lparr>gsc = conn, server_host = snd (split_at username)\<rparr>)"

definition purplemot_close :: "pm_account option \<Rightarrow> ssl_call list option" where
  "purplemot_close proto_data = do {
     account \<leftarrow> proto_data;
     Some (rpc_close account)
   }"

lemma close_refused_login_faults:
  "c \<in> set username \<Longrightarrow> c \<in> {32, 9, 11, 13, 10} \<Longrightarrow>
    purplemot_login addr_key disc_port username table = Some ([Connection_error], table) \<and>
    purplemot_close (login_account conn username) = None"
  by (auto simp: purplemot_login_def login_account_def purplemot_close_def)

lemma close_login:
  assumes "purplemot_login addr_key disc_port username table = Some (es, table')" "Connection_error \<notin> set es"
  shows "purplemot_close (login_account conn username) = Some [Ssl_close conn]"
    "purplemot_close (map_option (\<lambda>a. fst (rpc_connect_error e a)) (login_account conn username)) = Some [Ssl_close None]"
  using assms by (auto simp: purplemot_login_def login_account_def purplemot_close_def rpc_close_def rpc_connect_error_def
      split: if_splits)

subsection \<open>Rooms, invitations, whispers\<close>

definition purple_find_chat :: "purple \<Rightarrow> bytes \<Rightarrow> u32 \<Rightarrow> bytes option" where
  "purple_find_chat w username n = (case accounts w username of
     None \<Rightarrow> None
   | Some acct \<Rightarrow> map_of (rooms acct) n)"

definition purplemot_join_chat :: "purple \<Rightarrow> bytes \<Rightarrow> bytes \<Rightarrow> ui list" where
  "purplemot_join_chat w username room =
     (let chat_id = str_hash w room
      in if purple_find_chat w username chat_id = None then [Joined_chat username chat_id room]
         else [Notify_info (Some username) (username @ c_str '' is already in chat room '' @ room @ c_str ''.'')])"

definition purplemot_reject_chat :: "purple \<Rightarrow> bytes \<Rightarrow> bytes \<Rightarrow> bytes \<Rightarrow> ui list" where
  "purplemot_reject_chat w username invited_by room =
     [Notify_info (get_purplemot_gc w invited_by)
        (username @ c_str '' has rejected your invitation to join the chat room '' @ room @ c_str ''.'')]"

text \<open>Inviting from a chat that is not open reads through a NULL conversation.\<close>

definition purplemot_chat_invite :: "purple \<Rightarrow> bytes \<Rightarrow> u32 \<Rightarrow> bytes \<Rightarrow> bytes \<Rightarrow> ui list option" where
  "purplemot_chat_invite w username n message who = do {
     room \<leftarrow> purple_find_chat w username n;
     Some (if accounts w who = None then []
           else if purple_find_chat w who n \<noteq> None
           then [Notify_info (Some username) (who @ c_str '' is already in chat room '' @ room @ c_str ''.'')]
           else [Chat_invite who room username message])
   }"

text \<open>\<open>Inl\<close> is a failure with its message.  \<open>present\<close> says who is in the chat.\<close>

definition send_whisper ::
  "purple \<Rightarrow> bytes \<Rightarrow> u32 \<Rightarrow> bytes list \<Rightarrow> bytes option \<Rightarrow> bytes option \<Rightarrow> bytes + ui list" where
  "send_whisper w from_username chat present arg0 arg1 =
     (case arg0 of
        None \<Rightarrow> Inl (c_str ''Whisper is missing recipient.'')
      | Some to_username \<Rightarrow>
          if to_username = [] then Inl (c_str ''Whisper is missing recipient.'')
          else (case arg1 of
            None \<Rightarrow> Inl (c_str ''Whisper is missing message.'')
          | Some message \<Rightarrow>
              if message = [] then Inl (c_str ''Whisper is missing message.'')
              else if to_username \<notin> set present then Inl (to_username @ c_str '' is not logged in.'')
              else (case get_purplemot_gc w to_username of
                  None \<Rightarrow> Inl (to_username @ c_str '' is not in this chat room.'')
                | Some to \<Rightarrow> Inr
                    [Chat_write from_username (message @ c_str '' (to '' @ to_username @ c_str '')'')
                       (or (msg_send w) (msg_whisper w)),
                     Chat_whisper to chat from_username message])))"

definition purplemot_chat_whisper :: "purple \<Rightarrow> bytes \<Rightarrow> u32 \<Rightarrow> bytes \<Rightarrow> bytes \<Rightarrow> ui list option" where
  "purplemot_chat_whisper w username n who message = do {
     _ \<leftarrow> purple_find_chat w username n;
     Some [Got_chat_in n who (or (msg_recv w) (msg_whisper w)) message]
   }"

text \<open>The room list: each name once, with the identifier of its first chat.\<close>

fun roomlist_walk :: "(u32 \<times> bytes) list \<Rightarrow> bytes list \<Rightarrow> (u32 \<times> bytes) list" where
  "roomlist_walk [] seen = []"
| "roomlist_walk ((n, name) # chats) seen =
     (if name \<in> set seen then roomlist_walk chats seen
      else (n, name) # roomlist_walk chats (name # seen))"

definition purplemot_roomlist_get_list :: "(u32 \<times> bytes) list \<Rightarrow> (u32 \<times> bytes) list" where
  "purplemot_roomlist_get_list chats = roomlist_walk chats []"

subsection \<open>What becomes of offline messages\<close>

text \<open>Messages sent one after the other to somebody who is offline.\<close>

fun send_all :: "purple \<Rightarrow> bytes \<Rightarrow> (nat \<times> bytes \<times> bytes \<times> flags) list \<Rightarrow> offline_table \<Rightarrow> offline_table" where
  "send_all w who [] table = table"
| "send_all w who ((now, from_username, message, fl) # ms) table =
     send_all w who ms (snd (snd (purplemot_send_im w now from_username who message fl table)))"

definition stored :: "purple \<Rightarrow> nat \<times> bytes \<times> bytes \<times> flags \<Rightarrow> offline_message" where
  "stored w = (\<lambda>(now, from_username, message, fl).
     \<lparr>om_from = from_username, om_message = message, om_mtime = now, om_flags = or (and fl (not (msg_send w))) (msg_recv w)\<rparr>)"

definition im_of :: "bytes \<Rightarrow> offline_message \<Rightarrow> ui" where
  "im_of username om = Got_im username (om_from om) (om_message om) (om_flags om) (om_mtime om)"

lemma send_all_run:
  assumes "get_purplemot_gc w who = None" "\<And>f. accounts w who \<noteq> None \<Longrightarrow> privacy w who f" "ms \<noteq> []"
  shows "send_all w who ms table who =
    Some ((case table who of None \<Rightarrow> [] | Some xs \<Rightarrow> xs) @ map (\<lambda>m. Some (stored w m)) ms)"
  using assms(3)
proof (induction ms arbitrary: table)
  case (Cons m ms)
  obtain now f x fl where m: "m = (now, f, x, fl)" by (cases m) auto
  have "snd (snd (purplemot_send_im w now f who x fl table)) =
      table(who \<mapsto> (case table who of None \<Rightarrow> [] | Some xs \<Rightarrow> xs) @ [Some (stored w m)])"
    using assms(1,2) by (auto simp: purplemot_send_im_def stored_def m Let_def)
  then show ?case using Cons.IH by (cases ms) (simp_all add: m)
qed simp

lemma deliver_offline_run: "deliver_offline username (map Some oms) = Some (map (im_of username) oms)"
  by (induction oms) (simp_all add: im_of_def)

lemma deliver_freed: "None \<in> set ms \<Longrightarrow> deliver_offline username ms = None"
proof (induction ms)
  case (Cons m ms)
  then show ?case by (cases m) auto
qed simp

text \<open>A login delivers what is stored, and leaves it in the table, freed.\<close>

definition no_space :: "bytes \<Rightarrow> bool" where
  "no_space username \<longleftrightarrow> username \<noteq> [] \<and> (\<forall>c\<in>set username. c \<notin> {32, 9, 11, 13, 10})"

lemma login_delivers:
  assumes "no_space who" "table who = Some xs" "xs \<noteq> []" "deliver_offline who xs = Some es"
  shows "\<exists>pre. length pre = 3 \<and>
    purplemot_login k p who table = Some (pre @ es, table(who \<mapsto> map (\<lambda>_. None) xs, k := None))"
  using assms by (cases "split_at who") (auto simp: purplemot_login_def no_space_def Let_def)

lemma login_faults:
  assumes "no_space who" "table who = Some xs" "None \<in> set xs"
  shows "purplemot_login k p who table = None"
  using assms deliver_freed [OF assms(3), of who]
  by (cases "split_at who") (auto simp: purplemot_login_def no_space_def Let_def)

lemma roomlist_walk_names:
  "distinct (map snd (roomlist_walk chats seen)) \<and> set (map snd (roomlist_walk chats seen)) = snd ` set chats - set seen"
  by (induction chats seen rule: roomlist_walk.induct) auto

end
