(* ===== verification/Plugin_Callbacks.thy ===== *)
theory Plugin_Callbacks
  imports Plugin
begin

section \<open>What the plugin tells libpurple (turquoise/purplemot.c)\<close>

text \<open>
  The callbacks that answer a question of libpurple or open a dialog: texts and tooltips, status types,
  menus and rooms, user information, what is supported, and what the plugin registers when it is loaded.
  Those that only write debug output do nothing here.
\<close>

definition PURPLEMOT_ID :: string where "PURPLEMOT_ID = ''prpl-motmot''"

definition purplemot_list_icon :: string where "purplemot_list_icon = ''null''"

subsection \<open>Texts about a buddy\<close>

text \<open>A buddy as libpurple shows it: \<open>pb_found\<close> says that its account has it in the buddy list.\<close>

record purple_buddy =
  pb_name :: bytes
  pb_found :: bool
  pb_status :: bytes                 \<comment> \<open>the name of its active status\<close>
  pb_message :: "bytes option"       \<comment> \<open>the attribute message of that status\<close>

definition purplemot_status_text :: "purple_buddy \<Rightarrow> bytes" where
  "purplemot_status_text b =
     (if pb_found b then (case pb_message b of
         Some m \<Rightarrow> if 0 < length m then pb_status b @ c_str '': '' @ m else pb_status b
       | None \<Rightarrow> pb_status b)
      else c_str ''Not logged in'')"

text \<open>The pairs of label and text that a tooltip gets.\<close>

definition purplemot_tooltip_text :: "purple \<Rightarrow> purple_buddy \<Rightarrow> bool \<Rightarrow> (bytes \<times> bytes) list" where
  "purplemot_tooltip_text w b full =
     (case get_purplemot_gc w (pb_name b) of
        Some name \<Rightarrow> (pb_status b, purplemot_status_text b) #
          (if full then (case accounts w name \<bind> user_info of Some i \<Rightarrow> [(c_str ''User info'', i)] | None \<Rightarrow> []) else [])
      | None \<Rightarrow> [(c_str ''User info'', c_str ''not logged in'')])"

subsection \<open>Status types, menus, rooms\<close>

datatype status_primitive = PURPLE_STATUS_AVAILABLE | PURPLE_STATUS_AWAY | PURPLE_STATUS_OFFLINE

record status_type =
  st_primitive :: status_primitive
  st_id :: string
  st_saveable :: bool
  st_user_settable :: bool
  st_independent :: bool
  st_attr :: "string \<times> string"      \<comment> \<open>the attribute's identifier and label; its type is a string\<close>

definition status_type_new :: "status_primitive \<Rightarrow> string \<Rightarrow> status_type" where
  "status_type_new prim ident = \<lparr>st_primitive = prim, st_id = ident, st_saveable = True, st_user_settable = True,
     st_independent = False, st_attr = (''message'', ''Message'')\<rparr>"

definition purplemot_status_types :: "status_type list" where
  "purplemot_status_types =
     (let types = [];
          types = status_type_new PURPLE_STATUS_AVAILABLE ''online'' # types;
          types = status_type_new PURPLE_STATUS_AWAY ''away'' # types;
          types = status_type_new PURPLE_STATUS_OFFLINE ''offline'' # types
      in rev types)"

text \<open>Every status the plugin offers is one that it reports to the server when it is set.\<close>

lemma status_types_reported: "\<forall>t\<in>set purplemot_status_types. length (purplemot_set_status (st_id t)) = 1"
  by code_simp

datatype menu_item = Menu_item string string     \<comment> \<open>its label, and the text of the notice it opens\<close>

definition purplemot_blist_node_menu :: "bool \<Rightarrow> menu_item list" where
  "purplemot_blist_node_menu is_buddy =
     (if is_buddy then [Menu_item ''Nullprpl example menu item'' ''This is the callback for the purplemot menu item.'']
      else [])"

definition purplemot_actions :: "string list" where
  "purplemot_actions = [''Set User Info...'']"

record proto_chat_entry =
  pce_label :: string
  pce_identifier :: string
  pce_required :: bool

definition purplemot_chat_info :: "proto_chat_entry list" where
  "purplemot_chat_info = [\<lparr>pce_label = ''Chat _room'', pce_identifier = ''room'', pce_required = True\<rparr>]"

definition purplemot_chat_info_defaults :: "string \<rightharpoonup> bytes" where
  "purplemot_chat_info_defaults = [''room'' \<mapsto> c_str ''default'']"

definition purplemot_get_chat_name :: "(string \<rightharpoonup> bytes) \<Rightarrow> bytes option" where
  "purplemot_get_chat_name components = components ''room''"

text \<open>The defaults answer every entry that is required.\<close>

lemma chat_info_defaults: "\<forall>e\<in>set purplemot_chat_info. pce_required e \<longrightarrow> purplemot_chat_info_defaults (pce_identifier e) \<noteq> None"
  by (simp add: purplemot_chat_info_def purplemot_chat_info_defaults_def)

subsection \<open>Dialogs\<close>

datatype typing_state = PURPLE_NOT_TYPING | PURPLE_TYPING | PURPLE_TYPED | Typing_other int

definition typing_state_to_string :: "typing_state \<Rightarrow> string" where
  "typing_state_to_string typing = (case typing of
     PURPLE_NOT_TYPING \<Rightarrow> ''is not typing''
   | PURPLE_TYPING \<Rightarrow> ''is typing''
   | PURPLE_TYPED \<Rightarrow> ''stopped typing momentarily''
   | Typing_other _ \<Rightarrow> ''unknown typing state'')"

datatype dialog =
    Notify_error string string bytes                          \<comment> \<open>title, primary and secondary text\<close>
  | Notify_userinfo bytes "(string \<times> bytes option) list"     \<comment> \<open>of whom; the pairs of label and text\<close>

definition purplemot_get_info :: "purple \<Rightarrow> bytes \<Rightarrow> dialog list" where
  "purplemot_get_info w username =
     (if get_purplemot_gc w username = None
      then [Notify_error ''User Info'' ''User info not available. '' (username @ c_str '' is not logged in.'')] else []) @
     [Notify_userinfo username [(''Info'', case accounts w username of
        Some acct \<Rightarrow> user_info acct
      | None \<Rightarrow> Some (c_str ''No user info.''))]]"

definition purplemot_get_cb_info :: "purple \<Rightarrow> bytes \<Rightarrow> u32 \<Rightarrow> bytes \<Rightarrow> dialog list option" where
  "purplemot_get_cb_info w username n who = do {
     _ \<leftarrow> purple_find_chat w username n;
     Some (purplemot_get_info w who)
   }"

subsection \<open>What is supported\<close>

definition purplemot_add_buddy :: "bytes \<Rightarrow> bytes \<Rightarrow> ui list" where
  "purplemot_add_buddy buddy grp = []"

fun purplemot_add_buddies :: "bytes list \<Rightarrow> bytes list \<Rightarrow> ui list" where
  "purplemot_add_buddies (b # bs) (g # gs) = purplemot_add_buddy b g @ purplemot_add_buddies bs gs"
| "purplemot_add_buddies _ _ = []"

definition purplemot_chat_send :: "u32 \<Rightarrow> bytes \<Rightarrow> flags \<Rightarrow> int \<times> ui list" where
  "purplemot_chat_send n message fl = (0, [])"

definition purplemot_normalize :: "bytes \<Rightarrow> bytes option" where
  "purplemot_normalize input = None"

text \<open>The room list is no longer in progress, and the timer does not fire again.\<close>

definition purplemot_finish_get_roomlist :: "bool \<Rightarrow> bool \<times> bool" where
  "purplemot_finish_get_roomlist in_progress = (False, False)"

definition purplemot_can_receive_file :: bool where "purplemot_can_receive_file = False"

definition purplemot_offline_message :: bool where "purplemot_offline_message = True"

subsection \<open>Loading\<close>

datatype registration =
    User_split string string char               \<comment> \<open>text, default, separator\<close>
  | Int_option string string int                \<comment> \<open>text, name, default\<close>
  | Cmd_register string string string           \<comment> \<open>command, argument types, protocol\<close>
  | Offline_table

definition purplemot_init :: "registration list" where
  "purplemot_init =
     [User_split ''Discovery Server'' ''motmottest.com'' CHR ''@'',
      Int_option ''Port'' ''disc_port'' 8888,
      Cmd_register ''msg'' ''ws'' ''prpl-null'',
      Offline_table]"

text \<open>The whisper command is registered for another protocol than the plugin's own.\<close>

lemma whisper_registered_elsewhere: "Cmd_register cmd args proto \<in> set purplemot_init \<Longrightarrow> proto \<noteq> PURPLEMOT_ID"
  by (auto simp: purplemot_init_def PURPLEMOT_ID_def)

end
