(* ===== verification/Spec2Isabelle.thy ===== *)
theory Spec2Isabelle
  imports Linked_List Promise_Links Choice Commit_Facts Welcome_Wire Chat_Example Connections Peer_Examples Printing Client Plugin_Callbacks
begin

text \<open>
  A model of motmot: libmotmot, a C library for group chats in which every message goes through Paxos,
  its terminal client, and a Pidgin plugin that uses it.  A chat is a Paxos session; each chat message,
  join and part is the value of one numbered instance, and all participants learn the instances in order.
  The sources are under src/libmotmot/src and src/turquoise; names of functions and fields here are the
  names there.

  The parts, in the order the theories build them.

  Foundations.  Prelude has the machine types and failing computations: a C computation that aborts (a
  failed assert) or touches memory it must not (a NULL or freed pointer, a read past an array) is None; a
  return code is an int, accumulated with OR as ERR\_ACCUM does.  Primitives (types/primitives.c) has
  paxids, pairs, strings and UUIDs with their comparisons; the locale comparator says what a comparison
  must satisfy.  Containers (containers/list\_factory.h) has the sorted list containers; the locale
  container states find and insert as a map, and is interpreted on the acceptor, instance, request and
  session containers.  Linked\_List (containers/list.h) has the circular list macros over a pointer heap
  and shows that they refine the lists the other theories use.  Msgpack\_Model has the packing calls and
  the objects of the msgpack library; the library is a parameter, the locale msgpack\_unpacker its
  documented behaviour.  Murmur (ext/murmurhash) has the three hash functions; Connections
  (types/connect.c, hashtable\_factory.h) the table of connections hashed by them, over locales for the
  hash key and the hash table of GLib.

  Sessions.  Core\_Types (types/core.c), Session\_State (types/session.c, session\_local.c,
  continuation.c) and Session\_Wire have the data of a session and its wire format.  A session is a
  record: acceptors and instances are shared by pointer in the source, so they live in two heaps from
  addresses to structs, and ilist, idefer, alist and adefer hold addresses.  Output (messages to peers,
  client callbacks) is a list.  A removed instance keeps its stale links in the field unlinked.

  The protocol.  Util (paxos\_util.c), Outbound (the senders of single messages), Learn (paxos\_learn.c,
  paxos\_end, proposer\_prepare, proposer\_welcome), Proposer (paxos\_proposer.c), Acceptor
  (paxos\_acceptor.c, paxos\_request.c, paxos\_retry.c), Sync (paxos\_sync.c), Greet (paxos\_greet.c),
  Reconnect (paxos\_reconnect.c) and Protocol (paxos.c, paxos\_continue.h, motmot.c) have the handlers,
  one definition each, with the pieces of the long ones split off.  Protocol has the global state, the
  dispatcher and the public interface.

  Around it.  Peer\_IO (paxos\_io.c) has the buffers between a channel and the dispatcher; Printing
  (paxos\_print.c) the printed text; Client (main.c) the terminal client; Rpc (rpc.c, rpc\_io.c) the client
  of the discovery server, Plugin and Plugin\_Callbacks (purplemot.c) the Pidgin plugin.

  What is shown.  Learn\_Facts and Learn\_Loop: what learning changes, and that the learn loop is a walk
  over the rest of the list that stops at the first instance that is not ready.  Log\_Invariant and
  Log\_Safety: every handler and continuation keeps the log well formed (log\_wf) and keeps committed
  instances (log\_keep), composed from relations on single steps.  Session\_Run composes them over
  sequences of events.  Delivery: two logs that agree deliver chats in one order.  Promise\_Merge and
  Promise\_Wire: a promise, from the acceptor's log through msgpack into the proposer's merge, which
  computes an abstract rule on votes.  Promise\_Links: the merge loop over the links of the circular list;
  from a start in the list it is the merge of Proposer, from a start that an earlier promise has replaced
  it can cut committed instances out of the list.  Choice: the promises of a prepare one after another,
  up to its end, and what becomes of the instance at a number.  Welcome\_Wire: the same for a welcome and the newcomer's session.
  Log\_Facts, Handler\_Facts and Commit\_Facts: single handlers on the log read by instance number.
  Redecree: the end of a prepare.  Sync\_Facts: synchronization and truncation.  Murmur\_Facts: the hash reads
  the key only and is injective on four bytes.  Peer\_Facts: the write buffer is a queue (locale
  byte\_queue) and reading does not depend on how the input is cut.  Examples and Peer\_Examples:
  concrete sessions and peers computed by the model, which the witnesses use.

  The chat as a whole.  Telling says what each message, as any msgpack library delivers it, puts into a
  receiver's log, and that all but four kinds put nothing.  Told and Told\_Handlers show that the proposer
  only adds to its log and tells what is in it, and that an acceptor takes nothing but what it is told.
  Agreement has the chat of many participants, everything sent so far and every delivery of it, loss,
  repetition and reordering, and the invariant that all logs are part of one ledger, which the presiding
  participant has but for what it has truncated.  That a truncation leaves it an instance to number the next
  decree from rests on Hole: the instances below the hole are committed and learned, the others are not
  learned, and the instance before the hole stays, which paxos\_learn.c states as an invariant.
  Chat\_Example is a run of it.  The presiding participant stays the only proposer; a change of proposer is
  covered by the theories on promises and the end of a prepare, one step at a time.

  Loops.  The learn loop, the search for the greatest lower instance, the re-decree loop, the drain of
  the deferred list and the read loops are partial functions into option, as nothing bounds them on an
  arbitrary heap; learn\_loop\_walk, promise\_votes\_run, votes\_links\_run and redecree\_loop\_run show that they
  return on well-formed logs.
  The walks of the list macros take fuel, and a number above the length of the list is enough.

  Modelling decisions.  The client's connect callback is asynchronous: it returns its code, and the
  continuation is an entry point of its own.  A peer is named by its channel.  The recursion from decree
  through commit, learn and prepare to the decree of parts is cut at proposer\_decree\_part\_with, as
  decrees made during a prepare are always deferred (prepare\_parts\_any).  paxos\_end reads the session
  it has freed, so the callback gets Freed\_data.  The list-level merge of a promise (merge\_vote) faults
  when it has to splice behind an instance that is not in the list, where the C goes on; Promise\_Links has
  what the C does then.  Runs (session\_run, keeping\_run) therefore ask that a promise for the current
  prepare is merged from an instance that is in the log; merged\_start\_followed shows that the new decrees
  after such a merge never splice behind an unlinked instance.  The 32-bit instance, request and vote counters wrap.

  Not modelled: the event loop of main.c; the callbacks of the plugin that only write debug output, and its
  tables of callbacks; the
  Python server (plume).  GLib, msgpack and libpurple are parameters.
\<close>

section \<open>Properties\<close>

text \<open>
  C1. No run makes a participant forget or change a committed value. Over any sequence of client
  requests, messages, continuations, lost connections and timer ticks, an instance number that was
  committed stays committed to the same value while the session lives, if no event is one of those
  that drop or reset instances on purpose (the messages last and truncate, and the continuation of
  a reject), and every promise for the current prepare is merged from an instance that is still in
  the log. (When an earlier promise has replaced that instance, the C can lose committed
  instances: see stale_switch_drops.)
\<close>

theorem committed_stable:
  assumes "keeping_run s es t" "log_wf s" "\<not> ended t" "instance_at s n = Some x" "pi_committed x"
  shows "\<exists>y. instance_at t n = Some y \<and> pi_committed y \<and> pi_val y = pi_val x"
  using keeping_run_step [OF assms(1)] assms(2-)
  by (auto simp: log_step_def log_keep_def log_inv_def intro: instance_kept)

theorem committed_stable_witness:
  "\<exists>y. instance_at guest_learned 2 = Some y \<and> pi_committed y \<and> pi_val y = pi_val (the (instance_at guest_voted 2))"
proof -
  let ?e = "E_message 5 (msg OP_COMMIT 3) (Some (value_obj chat_value))"
  have "handle ?e guest_voted = Some (fst (the (handle ?e guest_voted)), run (handle ?e) guest_voted)" by (rule run_eq) code_simp
  moreover have "run (handle ?e) guest_voted = guest_learned" by (simp add: guest_learned_def handle_def run_def)
  moreover have "merges_in_place guest_voted ?e" "keeps guest_voted ?e" by (simp_all add: merges_in_place_def keeps_def msg_def)
  moreover have "\<not> ended guest_voted" by code_simp
  ultimately have r: "keeping_run guest_voted ([] @ [?e]) guest_learned" using keep_step [OF keep_nil] by metis
  have x: "instance_at guest_voted 2 \<noteq> None" by code_simp
  then have x: "instance_at guest_voted 2 = Some (the (instance_at guest_voted 2))" by simp
  have y: "pi_committed (the (instance_at guest_voted 2))" "\<not> ended guest_learned" by code_simp+
  show ?thesis by (rule committed_stable [OF r guest_voted_wf y(2) x y(1)])
qed

text \<open>
  C2. No two participants ever have different values under one number. Starting from the session
  that a chat is started with, whose participant presides as the only proposer, and going on with
  any interleaving of client requests, timers, lost connections and continuations, of messages
  delivered to anyone in any order, late, repeatedly or never, and of newcomers that enter from a
  welcome, over every such msgpack library: the instances that two running participants have at
  the same number have the same kind, request and extra field, committed or not. Syncs and
  truncations are part of the runs, and no truncation empties the presiding participant's log.
  Left out are other proposers, and at the presiding participant the continuation of a reject, and
  the last instance number.
\<close>

theorem agreement:
  assumes "msgpack_unpacker u" "chat_run u p (alone p (start_session conn rnd desc data)) c"
    "\<not> ended (member c i)" "\<not> ended (member c j)" "instance_at (member c i) n = Some x" "instance_at (member c j) n = Some y"
  shows "raw_value (pi_val x) = raw_value (pi_val y)"
proof -
  from agreed_run [OF assms(2,1) alone_agreed [OF founder]] obtain G where "agreed_on u p G c" by blast
  then show ?thesis using assms(3-) by (rule agreed_values)
qed

theorem agreement_witness:
  "raw_value (pi_val (the (instance_at proposing 3))) = raw_value (pi_val (the (instance_at newcomer_voted 3)))"
proof (rule agreement [OF decode.msgpack_unpacker_axioms chat_example [unfolded solo_def], where i = 0 and j = 1])
  have "\<not> ended proposing" "\<not> ended newcomer_voted" by code_simp+
  then show "\<not> ended (member chat_of_two 0)" "\<not> ended (member chat_of_two 1)" by (simp_all add: chat_of_two_def put_member_def)
  have "instance_at proposing 3 \<noteq> None" "instance_at newcomer_voted 3 \<noteq> None" by code_simp+
  then show "instance_at (member chat_of_two 0) 3 = Some (the (instance_at proposing 3))"
    "instance_at (member chat_of_two 1) 3 = Some (the (instance_at newcomer_voted 3))"
    by (simp_all add: chat_of_two_def put_member_def)
qed

text \<open>
  C3. The invariant that commit_cached relies on and paxos_learn.c states, at the presiding
  participant, over all the runs of the agreement: every instance of the log below the hole is
  committed and learned, and none at or above it is learned. Moreover the instance just before the
  hole is in the log, whatever has been decreed, committed, learned or truncated, and istart
  points to it or to the instance at the hole.
\<close>

theorem hole_stays:
  assumes "msgpack_unpacker u" "chat_run u p (alone p (start_session conn rnd desc data)) c"
  shows "instance_at (member c p) (ihole (member c p) - 1) \<noteq> None \<and>
    (\<forall>n x. instance_at (member c p) n = Some x \<longrightarrow>
      (if n < ihole (member c p) then pi_committed x \<and> pi_learned x else \<not> pi_learned x)) \<and>
    (\<exists>i\<in>set (ilist (member c p)). istart (member c p) = Some i \<and>
      inum_of (member c p) i \<in> {Some (ihole (member c p) - 1), Some (ihole (member c p))})"
proof -
  from agreed_run [OF assms(2,1) alone_agreed [OF founder]] obtain G where "agreed_on u p G c" by blast
  then have "log_wf (member c p)" "hole_ok (member c p)" by (simp_all add: agreed_on_def ledger_def going_def)
  then show ?thesis by (rule hole_ok_at)
qed

theorem hole_stays_witness:
  "instance_at proposing (ihole proposing - 1) \<noteq> None"
  using hole_stays [OF decode.msgpack_unpacker_axioms chat_example [unfolded solo_def]]
  by (simp add: chat_of_two_def put_member_def)

text \<open>
  C4. In any order of requests, messages as proposer or as acceptor, continuations with or without
  a connection, lost connections and timer ticks, the log stays well formed while the session
  lives, provided that every promise for the current prepare is merged from an instance that is
  still in the log (see stale_switch_drops for the other case): instance numbers strictly increase
  along the list, every listed instance is allocated, and no instance is both in the log and
  deferred.
\<close>

theorem run_log_invariant:
  assumes "session_run s es t" "log_wf s" "\<not> ended t"
  shows "log_wf t"
  using session_run_inv [OF assms(1)] assms(2,3) by (simp add: log_inv_def)

theorem run_log_invariant_witness: "log_wf (run (handle (E_message 7 (msg OP_ACCEPT 3) None)) proposing)"
proof -
  let ?e = "E_message 7 (msg OP_ACCEPT 3) None"
  have "handle ?e proposing = Some (fst (the (handle ?e proposing)), run (handle ?e) proposing)" by (rule run_eq) code_simp
  moreover have "\<not> ended proposing" by code_simp
  moreover have "merges_in_place proposing ?e" by (simp add: merges_in_place_def msg_def)
  ultimately have "session_run proposing ([] @ [?e]) (run (handle ?e) proposing)" using run_step [OF run_nil] by blast
  moreover have "\<not> ended (run (handle ?e) proposing)" by code_simp
  ultimately show ?thesis by (rule run_log_invariant [OF _ proposing_wf])
qed

text \<open>
  C5. A proposer that handles an accept commits at most the instance the accept is for, only if
  the accept carries the proposer's ballot, and only if that instance then has the votes of a
  majority of the acceptor list.
\<close>

theorem commit_needs_majority:
  assumes "proposer_ack_accept hdr s = Some (r, s')" "log_wf s" "\<not> ended s" "\<not> ended s'"
    and x: "instance_at s n = Some x" "\<not> pi_committed x" and y: "instance_at s' n = Some y" "pi_committed y"
  shows "n = ph_inum hdr \<and> ph_ballot hdr = ballot s \<and> majority s \<le> pi_votes x + 1"
proof -
  have wf: "log_wf s" "log_wf s'" "\<not> ended s'" using proposer_ack_accept_step [OF assms(1)] assms(2,4)
    by (auto simp: log_step_def log_inv_def)
  have "s' \<noteq> s" using x y by auto
  with assms(1,2) obtain k z t where b: "ph_ballot hdr = ballot s" and k: "iheap s k = Some z" "ph_inum (pi_hdr z) = ph_inum hdr"
    and t: "upd_instance k (\<lambda>x. x\<lparr>pi_votes := pi_votes x + 1\<rparr>) s = Some t"
    and rest: "s' = t \<or> majority s \<le> pi_votes z + 1 \<and> proposer_commit k t = Some (r, s')"
    by (rule ack_accept_cases)
  have "commits_only k s t" by (rule upd_instance_commits [OF t])
  then have "commits_only k s s'" using rest by (auto intro: commits_only_trans proposer_commit_commits)
  note new = commits_only_new [OF this wf x y]
  have "s' \<noteq> t"
  proof
    assume "s' = t"
    then have "instance_at s' n = Some (x\<lparr>pi_votes := pi_votes x + 1\<rparr>)"
      unfolding instance_at_iff [OF wf(2)] using t new by (auto simp: upd_instance_def bind_Some_iff)
    with x y show False by auto
  qed
  with rest b k new show ?thesis by auto
qed

theorem commit_needs_majority_witness: "majority proposing \<le> pi_votes (the (instance_at proposing 3)) + 1"
proof -
  let ?s' = "run (proposer_ack_accept (msg OP_ACCEPT 3)) proposing"
  have r: "proposer_ack_accept (msg OP_ACCEPT 3) proposing = Some (fst (the (proposer_ack_accept (msg OP_ACCEPT 3) proposing)), run (proposer_ack_accept (msg OP_ACCEPT 3)) proposing)" by (rule run_eq) code_simp
  note r
  moreover have "\<not> ended proposing" "\<not> ended ?s'" by code_simp+
  moreover have "instance_at proposing 3 = Some (the (instance_at proposing 3))" by code_simp
  moreover have "\<not> pi_committed (the (instance_at proposing 3))" by code_simp
  moreover have "instance_at ?s' 3 = Some (the (instance_at ?s' 3))" by code_simp
  moreover have "pi_committed (the (instance_at ?s' 3))" by code_simp
  ultimately show ?thesis using commit_needs_majority [OF _ proposing_wf] by blast
qed

text \<open>
  C6. The learn loop delivers exactly the maximal run of committed and cached instances that
  starts at the hole, in instance order: the hole moves past them, they (and no others) are marked
  learned, the client sees the chats of their cached requests in that order, and istart is left at
  the instance the next commit will look at. If the loop does not do this, the session has ended.
\<close>

theorem learn_in_order:
  assumes "learn_loop (opt_hd suf) s = Some (r, s')" "log_ok s" "ilist s = pre @ suf"
  shows "(r = 1 \<and> ended s') \<or> (r = 0 \<and> learned pre suf s s')"
  using learn_walk_learned [OF assms(2,3)] assms(1) learn_loop_walk [OF assms(2,3)] by auto

theorem learn_in_order_witness:
  "learned (take 2 (ilist guest_ready)) [ilist guest_ready ! 2] guest_ready (run (learn_loop (Some (ilist guest_ready ! 2))) guest_ready) \<and>
   ihole guest_ready = 3 \<and> ihole (run (learn_loop (Some (ilist guest_ready ! 2))) guest_ready) = 4"
proof -
  let ?l = "learn_loop (Some (ilist guest_ready ! 2))"
  have g: "log_ok guest_ready" "ilist guest_ready = take 2 (ilist guest_ready) @ [ilist guest_ready ! 2]" "?l guest_ready \<noteq> None"
    "fst (the (?l guest_ready)) = 0" "ihole guest_ready = 3" "ihole (run ?l guest_ready) = 4"
    using guest_ready_shape unfolding Let_def run_def by blast+
  have "learn_loop (opt_hd [ilist guest_ready ! 2]) guest_ready = Some (0, run ?l guest_ready)"
    using run_eq [of ?l, OF g(3)] g(4) by (simp add: opt_hd_def)
  from learn_in_order [OF this g(1,2)] g(5,6) show ?thesis by simp
qed

text \<open>
  C7. Total order of delivery: two participants that have delivered the same chats so far and
  stand at the same hole, and whose logs agree on the committed instances they share and on the
  requests cached for them, deliver chat sequences one of which is a prefix of the other when each
  runs its learn loop.
\<close>

theorem delivery_prefix:
  assumes s: "learn_loop (opt_hd xs) s = Some (0, s')" "log_ok s" "ilist s = p @ xs"
    and t: "learn_loop (opt_hd ys) t = Some (0, t')" "log_ok t" "ilist t = q @ ys"
    and "ihole s = ihole t" "chat_log (out s) = chat_log (out t)" "logs_agree s xs t ys"
  shows "prefix (chat_log (out s')) (chat_log (out t')) \<or> prefix (chat_log (out t')) (chat_log (out s'))"
proof -
  have "learned p xs s s'" using learn_walk_learned [OF s(2,3)] s(1) learn_loop_walk [OF s(2,3)] by auto
  moreover have "learned q ys t t'" using learn_walk_learned [OF t(2,3)] t(1) learn_loop_walk [OF t(2,3)] by auto
  ultimately show ?thesis
    using learned_prefix assms(7-) logs_agree_sym by (metis nle_le)
qed

theorem delivery_prefix_witness:
  "(prefix (chat_log (out (run (learn_loop (Some (ilist guest_ready ! 2))) guest_ready)))
      (chat_log (out (run (learn_loop (Some (ilist host_ready ! 2))) host_ready))) \<or>
    prefix (chat_log (out (run (learn_loop (Some (ilist host_ready ! 2))) host_ready)))
      (chat_log (out (run (learn_loop (Some (ilist guest_ready ! 2))) guest_ready)))) \<and>
   chat_log (out (run (learn_loop (Some (ilist guest_ready ! 2))) guest_ready)) = [[104, 105]] \<and>
   chat_log (out (run (learn_loop (Some (ilist host_ready ! 2))) host_ready)) = [[104, 105], [106]]"
proof -
  let ?l = "learn_loop (Some (ilist guest_ready ! 2))" and ?k = "learn_loop (Some (ilist host_ready ! 2))"
  have g: "log_ok guest_ready" "ilist guest_ready = take 2 (ilist guest_ready) @ [ilist guest_ready ! 2]" "?l guest_ready \<noteq> None"
    "fst (the (?l guest_ready)) = 0" "ihole guest_ready = 3" "chat_log (out guest_ready) = []"
    "chat_log (out (run ?l guest_ready)) = [[104, 105]]"
    using guest_ready_shape unfolding Let_def run_def by blast+
  have h: "log_ok host_ready" "ilist host_ready = take 2 (ilist host_ready) @ [ilist host_ready ! 2, ilist host_ready ! 3]"
    "?k host_ready \<noteq> None" "fst (the (?k host_ready)) = 0" "ihole host_ready = 3" "chat_log (out host_ready) = []"
    "chat_log (out (run ?k host_ready)) = [[104, 105], [106]]"
    using host_ready_shape unfolding Let_def run_def by blast+
  have 1: "learn_loop (opt_hd [ilist guest_ready ! 2]) guest_ready = Some (0, run ?l guest_ready)"
    using run_eq [of ?l, OF g(3)] g(4) by (simp add: opt_hd_def)
  have 2: "learn_loop (opt_hd [ilist host_ready ! 2, ilist host_ready ! 3]) host_ready = Some (0, run ?k host_ready)"
    using run_eq [of ?k, OF h(3)] h(4) by (simp add: opt_hd_def)
  have 3: "logs_agree guest_ready [ilist guest_ready ! 2] host_ready [ilist host_ready ! 2, ilist host_ready ! 3]"
    using ready_logs_agree by (simp add: Let_def)
  have "ihole guest_ready = ihole host_ready" "chat_log (out guest_ready) = chat_log (out host_ready)" using g h by simp_all
  from delivery_prefix [OF 1 g(1,2) 2 h(1,2) this 3] g(7) h(7) show ?thesis by simp
qed

text \<open>
  C8. Merging a promise's votes over the links of the log's circular list, with the walk from the
  starting instance, the scratch allocation and the splices of the C macros, computes the abstract
  rule on the map from instance numbers to votes: an unknown instance is taken over, an
  uncommitted one is replaced exactly by a vote of a higher ballot, a committed one is never
  touched. It ends, does not fault, and leaves the list well linked and ordered, when the starting
  instance is in the log, the votes are sorted and none lies below the starting instance. (A
  promise merged earlier in the same prepare may have taken the starting instance out of the log;
  that case is stale_switch_drops.)
\<close>

theorem promises_merge_votes:
  assumes "dll h (ilist s)" "log_wf s" "\<not> ended s" "g \<in> set (ilist s)" "map paxos_instance_unpack ps = map Some vs"
    "sorted (map (\<lambda>v. ph_inum (pi_hdr v)) vs)" "\<forall>v\<in>set vs. the (inum_of s g) \<le> ph_inum (pi_hdr v)"
  shows "\<exists>h' s'. votes_links ps (None, Some g) h s = Some (h', s'\<lparr>ilist := ilist s, unlinked := unlinked s\<rparr>) \<and> dll h' (ilist s') \<and>
    promise_votes ps (None, Some g) s = Some s' \<and> log_wf s' \<and> instance_at s' = merge_all vs (instance_at s)"
proof -
  have sc: "scratch_ok None s" by (simp add: scratch_ok_def)
  then obtain s' where s': "promise_votes ps (None, Some g) s = Some s'" "log_wf s'" "instance_at s' = merge_all vs (instance_at s)"
    using promise_votes_run [OF assms(2,3) _ assms(4-7)] by blast
  from votes_links_run [OF assms(1-3) sc assms(4-7) s'(1)] obtain h' where
    "votes_links ps (None, Some g) h (over (ilist s) (unlinked s) s) = Some (h', over (ilist s) (unlinked s) s')" "dll h' (ilist s')"
    by blast
  with s' show ?thesis by (auto simp: over_def)
qed

theorem promises_merge_votes_witness:
  "\<exists>h' s'. votes_links [instance_obj (logged 4 2 False), instance_obj (logged 9 1 False)] (None, Some 2) gap_links gap_log =
      Some (h', s'\<lparr>ilist := ilist gap_log, unlinked := unlinked gap_log\<rparr>) \<and> dll h' (ilist s') \<and>
    instance_at s' = merge_all [instance_sent (logged 4 2 False), instance_sent (logged 9 1 False)] (instance_at gap_log)"
proof -
  let ?ps = "[instance_obj (logged 4 2 False), instance_obj (logged 9 1 False)]"
    and ?vs = "[instance_sent (logged 4 2 False), instance_sent (logged 9 1 False)]"
  have w: "log_wf gap_log" "\<not> ended gap_log" "2 \<in> set (ilist gap_log)" by code_simp+
  have v: "map paxos_instance_unpack ?ps = map Some ?vs" "sorted (map (\<lambda>v. ph_inum (pi_hdr v)) ?vs)"
    "\<forall>v\<in>set ?vs. the (inum_of gap_log 2) \<le> ph_inum (pi_hdr v)" by code_simp+
  from promises_merge_votes [OF gap_links_dll w v] show ?thesis by blast
qed

text \<open>
  C9. A truncation drops exactly the instances numbered below its argument, whatever the log
  holds, and leaves the log well formed.
\<close>

theorem truncate_exact:
  assumes "ilist_truncate_prefix n s = Some s'" "log_wf s" "\<not> ended s"
  shows "log_wf s' \<and> instance_at s' m = (if m < n then None else instance_at s m)"
  using truncate_instance_at [OF assms] by blast

theorem truncate_exact_witness:
  "instance_at (the (ilist_truncate_prefix 2 host)) 1 = None"
proof -
  have "ilist_truncate_prefix 2 host \<noteq> None" "\<not> ended host" by code_simp+
  then have "ilist_truncate_prefix 2 host = Some (the (ilist_truncate_prefix 2 host))" "\<not> ended host" by auto
  from truncate_exact [OF this(1) host_wf this(2), of 1] show ?thesis by simp
qed

text \<open>
  C10. The majority the code computes is large enough: two sets of listed acceptors that both
  reach it share an acceptor (lists shorter than 2^32).
\<close>

theorem majorities_intersect:
  assumes "distinct (alist s)" "length (alist s) < 2 ^ 32" "A \<subseteq> set (alist s)" "B \<subseteq> set (alist s)"
    "unat (majority s) \<le> card A" "unat (majority s) \<le> card B"
  shows "A \<inter> B \<noteq> {}"
proof
  assume "A \<inter> B = {}"
  then have "card (A \<union> B) = card A + card B"
    using assms(3,4) by (meson card_Un_disjoint finite_set rev_finite_subset)
  moreover have "card (A \<union> B) \<le> length (alist s)"
    using assms(1,3,4) card_mono [of "set (alist s)" "A \<union> B"] by (simp add: distinct_card)
  ultimately show False using assms(5,6) unat_majority [OF assms(2)] by linarith
qed

theorem majorities_intersect_witness: "set (alist host) \<inter> set (alist host) \<noteq> {}"
proof (rule majorities_intersect)
  show "distinct (alist host)" by code_simp
  have "length (alist host) = 2" by code_simp
  then show "length (alist host) < 2 ^ 32" by simp
  show "unat (majority host) \<le> card (set (alist host))" "unat (majority host) \<le> card (set (alist host))" by code_simp+
qed simp_all

text \<open>
  C11. The instance container behaves as a map with first-insert-wins: on a list ordered by
  instance number, inserting never faults and keeps the order, and finding any number afterwards
  gives the inserted (or the already present) instance for its number and what it gave before for
  every other.
\<close>

theorem instance_find_insert:
  assumes "ordered paxid_compare idf xs" "idf e = Some k"
  shows "\<exists>xs' r. instance_insert idf xs e = Some (xs', r) \<and> ordered paxid_compare idf xs' \<and>
    (\<forall>k'. instance_find idf xs' k' = (if k' = k then Some (Some r) else instance_find idf xs k'))"
  using instances.insert_total [OF assms] instances.insert_ordered [OF assms(1)] instances.find_insert [OF assms] assms(2)
  by fastforce

theorem instance_find_insert_witness:
  "\<exists>xs' r. instance_insert (\<lambda>i. Some (of_nat i)) [1, 2, 5] 3 = Some (xs', r) \<and> ordered paxid_compare (\<lambda>i. Some (of_nat i)) xs' \<and>
    (\<forall>k'. instance_find (\<lambda>i. Some (of_nat i)) xs' k' =
      (if k' = 3 then Some (Some r) else instance_find (\<lambda>i. Some (of_nat i)) [1, 2, 5] k'))"
  by (rule instance_find_insert) (simp_all add: ordered_def)

text \<open>
  C12. The containers are generated with a direction in which they are searched, and the direction
  cannot be told from outside: on a list ordered by identifier, the forward and the backward
  search find the same element, and the forward and the backward insertion give the same list and
  return the same element, whether the identifier is new or already there.
\<close>

theorem directions_agree:
  assumes "ordered paxid_compare idf xs"
  shows "(\<forall>k. LIST_FIND_FWD paxid_compare idf xs k = LIST_FIND_REV paxid_compare idf xs k) \<and>
    (\<forall>e k. idf e = Some k \<longrightarrow> LIST_INSERT_FWD paxid_compare idf xs e = LIST_INSERT_REV paxid_compare idf xs e)"
  using paxid.find_fwd_rev [OF assms] paxid.insert_fwd_rev [OF assms] by blast

theorem directions_agree_witness:
  "LIST_FIND_FWD paxid_compare (\<lambda>i. Some (of_nat i)) [1, 2, 5] 5 = LIST_FIND_REV paxid_compare (\<lambda>i. Some (of_nat i)) [1, 2, 5] 5 \<and>
   LIST_INSERT_FWD paxid_compare (\<lambda>i. Some (of_nat i)) [1, 2, 5] 3 = LIST_INSERT_REV paxid_compare (\<lambda>i. Some (of_nat i)) [1, 2, 5] 3"
proof -
  have "ordered paxid_compare (\<lambda>i :: nat. Some (of_nat i)) [1, 2, 5]" by (simp add: ordered_def)
  from directions_agree [OF this] show ?thesis by simp
qed

text \<open>
  C13. The circular list macros refine sequences: in a well-linked list, inserting after an
  element splices the new one right behind it and keeps every link, the ends and the count
  consistent.
\<close>

theorem list_insert_refines:
  assumes "dll h (ys @ a # zs)" "e \<notin> set (ys @ a # zs)"
  shows "dll (LIST_INSERT_AFTER a e h) (ys @ a # e # zs)"
  by (rule dll_LIST_INSERT_AFTER [OF assms])

theorem list_insert_refines_witness:
  "dll (LIST_INSERT_AFTER 1 2 (LIST_INSERT_HEAD 1 (LIST_INIT \<lparr>lh_first = Node 9, lh_last = Head, lh_count = 4, le_next = (\<lambda>_. Head), le_prev = (\<lambda>_. Head)\<rparr>))) [1, 2]"
proof -
  let ?h = "LIST_INSERT_HEAD 1 (LIST_INIT \<lparr>lh_first = Node 9, lh_last = Head, lh_count = 4, le_next = (\<lambda>_. Head), le_prev = (\<lambda>_. Head)\<rparr>)"
  have "dll ?h ([] @ 1 # [])" using dll_LIST_INSERT_HEAD [OF dll_LIST_INIT, of 1] by simp
  from list_insert_refines [OF this, of 2] show ?thesis by simp
qed

text \<open>
  C14. A broadcast gives the message exactly once to the peer of every listed acceptor that has
  one, in list order, and changes nothing else.
\<close>

theorem broadcast_reaches_live:
  assumes "\<forall>a\<in>set (alist s). aheap s a \<noteq> None"
  shows "paxos_broadcast py s = Some (0, s\<lparr>out := out s @ map (\<lambda>p. Send p py) (live_peers s)\<rparr>)"
  by (rule paxos_broadcast_run [OF assms])

theorem broadcast_reaches_live_witness:
  "paxos_broadcast [] host = Some (0, host\<lparr>out := out host @ map (\<lambda>p. Send p []) (live_peers host)\<rparr>)"
  by (rule broadcast_reaches_live) code_simp

text \<open>
  C15. Ballots are totally ordered by the comparison the code uses: a higher generation wins, and
  within a generation the acceptor with the lower id; the comparison is zero only for equal
  ballots, antisymmetric and transitive.
\<close>

theorem ballot_order:
  "(ballot_compare x y = 0 \<longleftrightarrow> x = y) \<and> (ballot_compare x y < 0 \<longleftrightarrow> ballot_compare y x > 0) \<and>
   (ballot_compare x y > 0 \<longleftrightarrow> gen y < gen x \<or> gen x = gen y \<and> pid x < pid y) \<and>
   (ballot_compare x y \<le> 0 \<or> ballot_compare x z > 0 \<or> ballot_compare y z \<le> 0)"
  using ppair_compare_greater [of x y] by (auto simp: ballot_compare_def not_less)

text \<open>
  C16. A promise tells the proposer everything the acceptor has voted for from the hole asked
  about: if the acceptor's log starts at or below it, the message goes to the proposer, adopts the
  prepared ballot, and unpacks, over every msgpack unpacker, to instances sorted by number, each
  as it stands in the log, that include every instance numbered at or above the hole.
\<close>

theorem promise_reports_log:
  assumes u: "msgpack_unpacker u" and wf: "log_wf s" and low: "\<exists>i\<in>set (ilist s). the (inum_of s i) \<le> ph_inum hdr"
    and pr: "proposer s = Some a" "aheap s a = Some acc" "pa_peer acc = Some q"
    and k: "\<forall>i\<in>set (ilist s). known_instance (the (iheap s i))"
  shows "\<exists>s' py vs. acceptor_promise hdr s = Some (0, s') \<and> out s' = out s @ [Send q py] \<and> ballot s' = ph_ballot hdr \<and>
    u py = Some [M_array [header_obj (hdr\<lparr>ph_opcode := OP_PROMISE\<rparr>), M_array (map instance_obj vs)]] \<and>
    map paxos_instance_unpack (map instance_obj vs) = map Some (map instance_sent vs) \<and>
    sorted (map (\<lambda>v. ph_inum (pi_hdr v)) vs) \<and> (\<forall>v\<in>set vs. instance_at s (ph_inum (pi_hdr v)) = Some v) \<and>
    (\<forall>n x. ph_inum hdr \<le> n \<longrightarrow> instance_at s n = Some x \<longrightarrow> x \<in> set vs)"
  by (rule promise_reports [OF assms])

theorem promise_reports_log_witness:
  "\<exists>s' py. acceptor_promise prepare_hdr late = Some (0, s') \<and> out s' = out late @ [Send 8 py] \<and> ballot s' = PPair 2 2"
proof -
  have "\<exists>i\<in>set (ilist late). the (inum_of late i) \<le> ph_inum prepare_hdr" by code_simp
  moreover have "proposer late \<noteq> None" "aheap late (the (proposer late)) \<noteq> None" by code_simp+
  then have "proposer late = Some (the (proposer late))"
    "aheap late (the (proposer late)) = Some (the (aheap late (the (proposer late))))" by auto
  moreover have "pa_peer (the (aheap late (the (proposer late)))) = Some 8" by code_simp
  moreover have "\<forall>i\<in>set (ilist late). known_instance (the (iheap late i))" by code_simp
  moreover have "ph_ballot prepare_hdr = PPair 2 2" by code_simp
  ultimately show ?thesis using promise_reports_log [OF decode.msgpack_unpacker_axioms late_wf] by metis
qed

text \<open>
  C17. A newcomer enters with the proposer's state. The welcome packed from a well-formed session
  and unpacked by the newcomer, over every such unpacker, builds a session with the same UUID,
  ballot and first instance, the assigned identifier, the same acceptors (only the proposer with a
  peer), a well-formed log with the same headers, values and commit flags at every number,
  connections opened to everyone but the proposer and itself, and a hole that is the first number
  not committed.
\<close>

theorem welcome_roundtrip:
  assumes "msgpack_unpacker u" "log_wf s" "\<forall>a\<in>set (alist s). aheap s a \<noteq> None"
    "\<forall>i\<in>set (ilist s). known_instance (the (iheap s i))" "\<forall>d. conn d = 0"
    "ilist s \<noteq> [] \<Longrightarrow> inum_of s (hd (ilist s)) = Some (ibase s)" "instance_at s (- 1) = None"
  shows "\<exists>py o1 s'. welcome_message n s = Some py \<and> u py = Some [M_array [header_obj (header_init s OP_WELCOME n), o1]] \<and>
    acceptor_ack_welcome conn data src (header_init s OP_WELCOME n) (Some o1) = Some (0, s') \<and>
    entered s n src s' \<and> log_wf s' \<and> first_hole s (ihole s')"
  by (rule welcome_builds [OF assms])

theorem welcome_roundtrip_witness:
  "\<exists>py o1 s'. welcome_message 2 proposing = Some py \<and> decode py = Some [M_array [header_obj (header_init proposing OP_WELCOME 2), o1]] \<and>
    acceptor_ack_welcome (\<lambda>_. 0) Null_data (Some 5) (header_init proposing OP_WELCOME 2) (Some o1) = Some (0, s') \<and>
    entered proposing 2 (Some 5) s' \<and> log_wf s' \<and> first_hole proposing (ihole s')"
proof -
  have "let s = proposing in (\<forall>a\<in>set (alist s). aheap s a \<noteq> None) \<and> (\<forall>i\<in>set (ilist s). known_instance (the (iheap s i))) \<and>
    inum_of s (hd (ilist s)) = Some (ibase s) \<and> instance_at s (- 1) = None" by code_simp
  then have p: "\<forall>a\<in>set (alist proposing). aheap proposing a \<noteq> None" "\<forall>i\<in>set (ilist proposing). known_instance (the (iheap proposing i))"
    "inum_of proposing (hd (ilist proposing)) = Some (ibase proposing)" "instance_at proposing (- 1) = None" by (simp_all add: Let_def)
  show ?thesis
    by (rule welcome_roundtrip [OF decode.msgpack_unpacker_axioms proposing_wf]) (rule p | simp)+
qed

text \<open>
  C18. The reason a new proposer cannot undo a choice. Let w have been voted for at ballot b in
  instance n by a majority A (votes reported for n at b or later are for w, and so is what the new
  proposer has there). When the new proposer has handled the promises of acceptors that make a
  majority with itself, one after another, the last of which ends the prepare, its instance n has
  the value w: committed, or decreed again under the new ballot (below the hole: as it was
  merged), since the code's majority forces A and the promisers to meet. Conditions: every promise
  can be merged where the prepare started, that is, its votes are sorted, none lies below the
  starting instance, and none replaces it; and the instance numbers stay below 2^32 - 1.
\<close>

theorem chosen_value_survives:
  assumes s: "starts_at g x s" "acceptors_ok s" "distinct (alist s)" "length (alist s) < 2 ^ 32" "\<forall>i\<in>set (idefer s). iheap s i \<noteq> None"
    and p: "prep s = Some p" "pp_acks p = 1" "pp_istart p = Some g" "ph_inum (pi_hdr x) \<le> ihole s"
    and bs: "bs \<noteq> []" "distinct (me # bs)" "set (me # bs) \<subseteq> set (alist s)" "length (me # bs) = unat (majority s)"
      "\<forall>a\<in>set bs. ph_ballot (hdr a) = pp_ballot p \<and> mergeable x (pay a) (votes a)"
    and M: "\<forall>k. instance_at s k \<noteq> None \<longrightarrow> k \<le> M" "\<forall>a\<in>set bs. \<forall>v\<in>set (votes a). ph_inum (pi_hdr v) \<le> M"
      "unat M + length (idefer s) < 2 ^ 32 - 1"
    and A: "A \<subseteq> set (alist s)" "unat (majority s) \<le> card A" "\<forall>a\<in>A \<inter> set bs. votes_for b n (votes a) \<noteq> {}"
      "me \<in> A \<longrightarrow> has_vote b n (instance_at s)"
    and w: "\<forall>a\<in>set bs. \<forall>v\<in>votes_for b n (votes a). pi_val v = w" "only_value b n w (instance_at s)"
  shows "\<exists>t y. ack_promises (map (\<lambda>a. (hdr a, M_array (pay a))) bs) s = Some (0, t) \<and> instance_at t n = Some y \<and> pi_val y = w \<and>
    (if ihole s \<le> n then pi_committed y \<or> ph_ballot (pi_hdr y) = pp_ballot p else counts b y)"
proof -
  let ?m = "fold merge_all (map votes bs) (instance_at s)"
  have "unat (majority s) \<le> card (set (me # bs))" using bs(2,4) by (simp only: distinct_card)
  then obtain a where a: "a \<in> A" "a \<in> set (me # bs)"
    using majorities_meet [OF s(3,4) A(1) bs(3) A(2)] by blast
  then have "has_vote b n (instance_at s) \<or> (\<exists>vs\<in>set (map votes bs). votes_for b n vs \<noteq> {})"
    using A(3,4) by (cases "a = me") auto
  then have "has_vote b n ?m" by (rule fold_merge_has)
  then obtain y where y: "?m n = Some y" "counts b y" by (auto simp: has_vote_def)
  have "only_value b n w ?m" using w by (intro fold_merge_only) auto
  with y have yw: "pi_val y = w" by (simp add: only_value_def)
  have m: "unat (pp_acks p) + length bs = unat (majority s)" using bs(4) p(2) by simp
  have "1 < unat (majority s)" using bs(1,4) by (cases bs) auto
  then have m1: "1 < majority s" by (simp add: word_less_nat_alt)
  obtain t z where t: "ack_promises (map (\<lambda>a. (hdr a, M_array (pay a))) bs) s = Some (0, t)" "instance_at t n = Some z" "pi_val z = pi_val y"
    "if ihole s \<le> n \<and> \<not> pi_committed y then ph_ballot (pi_hdr z) = pp_ballot p else z = y"
    using ack_promises_value [OF s(1) p(4,1,3) s(2) m1 s(5) bs(1,5) m M y(1)] by blast
  then show ?thesis using yw y(2) by (intro exI [of _ t] exI [of _ z]) (auto split: if_splits)
qed

theorem chosen_value_survives_witness:
  "\<exists>t y. ack_promises [(promise_hdr, M_array [instance_obj (joined_at 6)])] heir = Some (0, t) \<and> instance_at t 6 = Some y \<and>
    pi_val y = pi_val (joined_at 6) \<and> (pi_committed y \<or> ph_ballot (pi_hdr y) = PPair 2 2)"
proof -
  let ?p = "the (prep heir)" and ?g = "the (pp_istart (the (prep heir)))" and ?v = "instance_sent (joined_at 6)"
  let ?x = "the (iheap heir ?g)" and ?me = "alist heir ! 1" and ?o = "alist heir ! 2" and ?A = "set (alist heir) - {alist heir ! 1}"
  have h: "let h = heir; p = the (prep h); g = the (pp_istart p); x = the (iheap h g); v = instance_sent (joined_at 6) in
    log_wf h \<and> \<not> ended h \<and> g \<in> set (ilist h) \<and> iheap h g \<noteq> None \<and> acceptors_ok h \<and> distinct (alist h) \<and> length (alist h) = 3 \<and>
    alist h = [alist h ! 0, alist h ! 1, alist h ! 2] \<and>
    (\<forall>i\<in>set (idefer h). iheap h i \<noteq> None) \<and> prep h \<noteq> None \<and> pp_acks p = 1 \<and> pp_istart p \<noteq> None \<and> ph_inum (pi_hdr x) = 5 \<and>
    pi_committed x \<and> ihole h = 6 \<and> unat (majority h) = 2 \<and> pp_ballot p = PPair 2 2 \<and> length (idefer h) = 1 \<and>
    ilist_last h \<noteq> None \<and> inum_of h (the (ilist_last h)) = Some 5 \<and> instance_at h 6 = None" by code_simp
  then have al: "alist heir = [alist heir ! 0, ?me, ?o]" unfolding Let_def by blast
  from h have s: "starts_at ?g ?x heir" "acceptors_ok heir" "distinct (alist heir)" "length (alist heir) = 3" "\<forall>i\<in>set (idefer heir). iheap heir i \<noteq> None"
    and p: "prep heir = Some ?p" "pp_acks ?p = 1" "pp_istart ?p = Some ?g" "ph_inum (pi_hdr ?x) = 5" "pi_committed ?x" "ihole heir = 6"
    and m: "unat (majority heir) = 2" "pp_ballot ?p = PPair 2 2" "length (idefer heir) = 1"
    and l: "ilist_last heir = Some (the (ilist_last heir))" "inum_of heir (the (ilist_last heir)) = Some 5" "instance_at heir 6 = None"
    by (simp_all add: Let_def starts_at_def)
  have v: "paxos_instance_unpack (instance_obj (joined_at 6)) = Some ?v" "ph_inum (pi_hdr ?v) = 6" "pi_val ?v = pi_val (joined_at 6)"
    "PPair 1 1 \<le> ph_ballot (pi_hdr ?v)" "ph_ballot promise_hdr = PPair 2 2" by code_simp+
  have M: "k \<le> 6" if "instance_at heir k \<noteq> None" for k
  proof (rule ccontr)
    assume "\<not> k \<le> 6"
    then have "5 < k" by (simp add: not_le order_less_trans [of 5 6])
    with log_to_last [OF heir_wf l(1,2)] that show False by (simp add: log_to_def)
  qed
  have f: "votes_for (PPair 1 1) 6 [?v] = {?v}" using v by (auto simp: votes_for_def)
  have d: "?me \<noteq> ?o" using s(3) al by (metis distinct_length_2_or_more)
  have "card ?A = 2" using s(3,4) al by (metis card_Diff_singleton distinct_card diff_Suc_1 list.set_intros(1,2) numeral_3_eq_3 numeral_2_eq_2)
  then have "\<exists>t y. ack_promises (map (\<lambda>a. (promise_hdr, M_array [instance_obj (joined_at 6)])) [?o]) heir = Some (0, t) \<and>
    instance_at t 6 = Some y \<and> pi_val y = pi_val (joined_at 6) \<and>
    (if ihole heir \<le> 6 then pi_committed y \<or> ph_ballot (pi_hdr y) = pp_ballot ?p else counts (PPair 1 1) y)"
    using s p m v f d al M l(3)
    by (intro chosen_value_survives [where x = ?x and g = ?g and me = ?me and A = ?A and M = 6 and votes = "\<lambda>_. [?v]"])
      (auto simp: mergeable_def outvoted_def only_value_def)
  then show ?thesis using p(6) m(2) by simp
qed

text \<open>
  C19. The end of a prepare terminates and leaves no gap: from the hole to the last instance of
  the log, committed instances are kept, uncommitted ones are decreed again under the new ballot,
  missing ones become null decrees; instances outside that range are untouched; then all deferred
  values are decreed at the consecutive numbers that follow, and none stays deferred. (The list is
  started at or below the hole, we are not a majority alone, and the numbers do not reach 2^32 -
  1.)
\<close>

theorem prepare_completes:
  assumes "log_wf s" "\<not> ended s" "pp_istart p = Some it" "it \<in> set (ilist s)" "the (inum_of s it) \<le> ihole s"
    "acceptors_ok s" "1 < majority s" "ilist_last s = Some l" "inum_of s l = Some L" "unat L + length (idefer s) < 2 ^ 32 - 1"
    "map (iheap s) (idefer s) = map Some xs"
  shows "\<exists>s' m. end_prepare p s = Some (0, s') \<and> log_wf s' \<and> idefer s' = [] \<and>
    instance_at s' = decreed (s\<lparr>ballot := pp_ballot p\<rparr>) (L + 1) xs m \<and>
    (\<forall>n. if ihole s \<le> n \<and> n \<le> L
         then \<exists>y. m n = Some y \<and> redecreed (s\<lparr>ballot := pp_ballot p\<rparr>) n (instance_at s n) y
         else m n = instance_at s n)"
proof -
  have "PPair (pid (pp_ballot p)) (gen (pp_ballot p)) = pp_ballot p" by simp
  then show ?thesis using end_prepare_run [OF assms(1-7) log_to_last [OF assms(1,8,9)] assms(10,11)] by metis
qed

theorem prepare_completes_witness:
  "\<exists>s'. end_prepare (the (prep heir)) heir = Some (0, s') \<and> log_wf s' \<and> idefer s' = []"
proof -
  let ?it = "the (pp_istart (the (prep heir)))" and ?l = "last (ilist heir)"
  have h: "let h = heir; it = pp_istart (the (prep h)) in it \<noteq> None \<and> \<not> ended h \<and> the it \<in> set (ilist h) \<and>
    the (inum_of h (the it)) \<le> ihole h \<and> acceptors_ok h \<and> 1 < majority h \<and> ilist_last h = Some (last (ilist h)) \<and>
    inum_of h (last (ilist h)) = Some 5 \<and> length (idefer h) = 1 \<and> (\<forall>i\<in>set (idefer h). iheap h i \<noteq> None)" by code_simp
  then have it: "pp_istart (the (prep heir)) = Some ?it" by (auto simp: Let_def)
  from h have a: "\<not> ended heir" "?it \<in> set (ilist heir)" "the (inum_of heir ?it) \<le> ihole heir" "acceptors_ok heir" "1 < majority heir"
    "ilist_last heir = Some ?l" "inum_of heir ?l = Some 5" and l: "length (idefer heir) = 1" by (simp_all add: Let_def)
  from l have b: "unat (5 :: u32) + length (idefer heir) < 2 ^ 32 - 1" by simp
  from h have "\<forall>i\<in>set (idefer heir). iheap heir i \<noteq> None" by (simp add: Let_def)
  then have c: "map (iheap heir) (idefer heir) = map Some (map (\<lambda>i. the (iheap heir i)) (idefer heir))" by auto
  from prepare_completes [OF heir_wf a(1) it a(2-7) b c] show ?thesis by blast
qed

text \<open>
  C20. A promise of an acceptor that lags behind aborts the new proposer: when the first instance
  reported lies below the instance the prepare started from, the search for its place finds
  nothing and the assertion fails. (The witness is such a report: the promise that an acceptor of
  the model, which has missed two instances, sends to the session that prepares.)
\<close>

theorem lagging_promise_faults:
  assumes "prep s = Some p" "ph_ballot hdr = pp_ballot p" "pp_istart p = Some g" "inum_of s g = Some m"
    "paxos_instance_unpack v = Some x" "ph_inum (pi_hdr x) < m" "g < brk s"
  shows "proposer_ack_promise hdr (Some (M_array (v # vs))) s = None"
proof -
  from assms(4) obtain y where y: "iheap s g = Some y" "ph_inum (pi_hdr y) = m" by (auto simp: inum_of_def)
  let ?t = "s\<lparr>brk := Suc (brk s), iheap := (iheap s)(brk s \<mapsto> cleared x)\<rparr>"
  have "get_instance_glb (Some g) (ph_inum (pi_hdr x)) ?t = Some None"
    using y assms(6,7) by (subst get_instance_glb_def, subst glb_walk.simps) simp
  then have "promise_vote v (None, Some g) s = None"
    using assms(5) by (simp add: promise_vote_def scratch_instance_def alloc_instance_def upd_instance_def cleared_def)
  then show ?thesis using assms(1-3) by (simp add: proposer_ack_promise_def)
qed

theorem lagging_promise_faults_witness: "proposer_ack_promise promise_hdr (Some late_promise) heir = None"
proof -
  let ?p = "the (prep heir)"
  have "let h = heir; p = the (prep h) in prep h \<noteq> None \<and> pp_istart p \<noteq> None \<and> inum_of h (the (pp_istart p)) = Some 5 \<and>
    the (pp_istart p) < brk h \<and> ph_ballot promise_hdr = pp_ballot p" by code_simp
  then have p: "prep heir \<noteq> None" "pp_istart ?p \<noteq> None" "inum_of heir (the (pp_istart ?p)) = Some 5" "the (pp_istart ?p) < brk heir"
    and b: "ph_ballot promise_hdr = pp_ballot ?p" by (simp_all add: Let_def)
  have v: "paxos_instance_unpack (instance_obj (joined_at 3)) = Some (instance_sent (joined_at 3))" by code_simp
  have n: "ph_inum (pi_hdr (instance_sent (joined_at 3))) < 5" by code_simp
  have "late_promise = M_array [instance_obj (joined_at 3)]" by code_simp
  then show ?thesis using lagging_promise_faults [OF _ b _ p(3) v n p(4), of "[]"] p(1,2) by simp
qed

text \<open>
  C21. An acceptor that answers a decree with an accept has the vote in its log: the decree
  carries the ballot the acceptor has promised, and afterwards the instance holds exactly the
  decree's header and value, or was committed before to a value of the same kind and request. No
  other instance changes.
\<close>

theorem accept_records_vote:
  assumes "acceptor_ack_decree hdr (Some o1) s = Some (r, s')" "paxos_value_unpack o1 = Some val" "log_wf s" "\<not> ended s"
    "out s' = out s @ [Send q (header_message (hdr\<lparr>ph_opcode := OP_ACCEPT\<rparr>))]"
  shows "ph_ballot hdr = ballot s \<and> (\<exists>y. instance_at s' = (instance_at s)(ph_inum hdr \<mapsto> y) \<and> recorded hdr val y)"
  using acceptor_ack_decree_at [OF assms] by blast

theorem accept_records_vote_witness:
  "\<exists>y. instance_at (run (acceptor_ack_decree (msg OP_DECREE 3) (Some (value_obj chat_value))) guest_asked) 3 = Some y
    \<and> recorded (msg OP_DECREE 3) chat_value y"
proof -
  let ?f = "acceptor_ack_decree (msg OP_DECREE 3) (Some (value_obj chat_value))"
  have r: "?f guest_asked = Some (fst (the (?f guest_asked)), run ?f guest_asked)" by (rule run_eq) code_simp
  have v: "paxos_value_unpack (value_obj chat_value) = Some chat_value" by code_simp
  have w: "log_wf guest_asked" "\<not> ended guest_asked" by code_simp+
  have o: "out (run ?f guest_asked) = out guest_asked @ [Send 5 (header_message ((msg OP_DECREE 3)\<lparr>ph_opcode := OP_ACCEPT\<rparr>))]" by code_simp
  have "ph_inum (msg OP_DECREE 3) = 3" by code_simp
  with accept_records_vote [OF r v w o] show ?thesis by auto
qed

text \<open>
  C22. An acceptor only ever moves to a higher ballot when it answers a prepare, and only for the
  acceptor it takes for the proposer: a prepare is promised if its ballot is above the acceptor's
  and it comes from the proposer's peer, and then the ballot and its generation are adopted; every
  other prepare changes nothing but for the redirect that is sent.
\<close>

theorem prepare_guard:
  assumes "acceptor_ack_prepare src hdr s = Some (r, s')"
  shows "(ballot s < ph_ballot hdr \<and> ballot s' = ph_ballot hdr \<and> gen_high s' = gen (ph_ballot hdr) \<and>
      (\<exists>a acc. proposer s = Some a \<and> aheap s a = Some acc \<and> pa_peer acc = src)) \<or>
    (sends_only s s' \<and> (ph_ballot hdr \<le> ballot s \<or> (\<exists>a acc. proposer s = Some a \<and> aheap s a = Some acc \<and> pa_peer acc \<noteq> src)))"
  by (rule acceptor_ack_prepare_cases [OF assms])

theorem prepare_guard_witness:
  "ballot (run (acceptor_ack_prepare (Some 8) prepare_hdr) late) = PPair 2 2"
proof -
  let ?f = "acceptor_ack_prepare (Some 8) prepare_hdr"
  have r: "?f late = Some (fst (the (?f late)), run ?f late)" by (rule run_eq) code_simp
  have "let s = late in ph_ballot prepare_hdr = PPair 2 2 \<and> \<not> PPair 2 2 \<le> ballot s \<and> aheap s (the (proposer s)) \<noteq> None \<and>
    pa_peer (the (aheap s (the (proposer s)))) = Some 8" by code_simp
  then show ?thesis using prepare_guard [OF r] by (auto simp: Let_def)
qed

text \<open>
  C23. A commit or a recommit message leaves its instance in the log, committed, whether the
  instance was missing, voted for or already committed, and whatever the commit sets off (asking
  for a request, learning everything that is ready, a prepare): its value is the one of the
  message, unless the instance was committed before, and then it is the one it had.
\<close>

theorem commit_installs:
  assumes "acceptor_ack_commit hdr (Some (value_obj val)) s = Some (r, s') \<or> acceptor_ack_recommit hdr (Some (value_obj val)) s = Some (r, s')"
    "known_kind (pv_dkind val)" "log_wf s" "\<not> ended s" "\<not> ended s'"
  shows "\<exists>y. instance_at s' (ph_inum hdr) = Some y \<and> pi_committed y \<and>
    pi_val y = (case instance_at s (ph_inum hdr) of Some x \<Rightarrow> if pi_committed x then pi_val x else val | None \<Rightarrow> val)"
proof -
  have v: "paxos_value_unpack o2 = Some val" if "Some (value_obj val) = Some o2" for o2
    using that value_unpack_obj [OF assms(2)] by simp
  show ?thesis
    using assms(1) ack_commit_installs [OF _ assms(3-5) v] ack_recommit_installs [OF _ assms(3-5) v]
    unfolding installed_def by blast
qed

theorem commit_installs_witness:
  "\<exists>y. instance_at (run (acceptor_ack_commit (msg OP_COMMIT 3) (Some (value_obj chat_value))) guest) 3 = Some y \<and>
    pi_committed y \<and> pi_val y = chat_value"
proof -
  let ?f = "acceptor_ack_commit (msg OP_COMMIT 3) (Some (value_obj chat_value))"
  have r: "?f guest = Some (fst (the (?f guest)), run ?f guest)" by (rule run_eq) code_simp
  have n: "instance_at guest 3 = None" "ph_inum (msg OP_COMMIT 3) = 3" by code_simp+
  have "known_kind (pv_dkind chat_value)" "\<not> ended guest" "\<not> ended (run ?f guest)" by code_simp+
  from commit_installs [OF disjI1 [OF r] this(1) guest_wf this(2,3)] show ?thesis by (simp add: n)
qed

text \<open>
  C24. Re-electing a proposer never faults on an acceptor list ordered by id and picks the live
  acceptor with the lowest id (ourselves, or one we have a connection to); it leaves the proposer
  alone when there is none, and nothing else changes.
\<close>

theorem elects_lowest_live:
  assumes "ordered paxid_compare (paxid_of s) (alist s)"
  shows "\<exists>s'. reset_proposer s = Some s' \<and>
    (if \<exists>a\<in>set (alist s). live s a
     then \<exists>a. s' = s\<lparr>proposer := Some a\<rparr> \<and> a \<in> set (alist s) \<and> live s a \<and>
       (\<forall>b\<in>set (alist s). live s b \<longrightarrow> the (paxid_of s a) \<le> the (paxid_of s b))
     else s' = s)"
  by (rule reset_proposer_run [OF assms])

theorem elects_lowest_live_witness: "\<exists>s'. reset_proposer trio = Some s' \<and> proposer s' \<noteq> None"
proof -
  have "ordered paxid_compare (paxid_of trio) (alist trio)" by code_simp
  from elects_lowest_live [OF this] have "\<exists>s'. reset_proposer trio = Some s'" by blast
  moreover have "aheap trio (hd (alist trio)) \<noteq> None" "pa_peer (the (aheap trio (hd (alist trio)))) \<noteq> None" "alist trio \<noteq> []" by code_simp+
  then have "live trio (hd (alist trio))" "hd (alist trio) \<in> set (alist trio)" by (auto simp: live_def)
  then have "\<exists>a\<in>set (alist trio). live trio a" by blast
  ultimately show ?thesis using elects_lowest_live [OF \<open>ordered paxid_compare (paxid_of trio) (alist trio)\<close>] by auto
qed

text \<open>
  C25. A sync drops exactly what everybody has learned: when the acceptors' answers to the current
  sync have all arrived, in any order, the proposer's log is cut at the least of the numbers
  reported and its own last contiguous learn, which becomes the base, and the sync is over. (The
  numbers are not 0, and the new base is not below the old.)
\<close>

theorem sync_truncates_minimum:
  assumes "sync s = Some y" "ps_last y = 0" "\<forall>m\<in>set (ms @ [(h, l)]). ph_inum (fst m) = sync_id s \<and> snd m \<noteq> 0"
    "unat (ps_total y) = unat (ps_acks y) + length ms + 1" "log_wf s" "\<not> ended s" "acceptors_ok s"
    "b = min (ihole s - 1) (Min (set (map snd (ms @ [(h, l)]))))" "ibase s \<le> b"
  shows "\<exists>s'. ack_lasts (ms @ [(h, l)]) s = Some (0, s') \<and> log_wf s' \<and> sync s' = None \<and>
    ibase s' = b \<and> instance_at s' = (\<lambda>m. if m < b then None else instance_at s m)"
proof -
  obtain n ns where n: "map snd (ms @ [(h, l)]) = n # ns" by (cases "map snd (ms @ [(h, l)])") auto
  then have "set (n # ns) = snd ` set (ms @ [(h, l)])" by (metis set_map)
  then have nz: "\<forall>k\<in>set (n # ns). k \<noteq> 0" using assms(3) by auto
  then have "fold lower (n # ns) 0 = Min (set (n # ns))" using fold_lower [of ns n] by (simp add: lower_def)
  then have "fold lower (map snd (ms @ [(h, l)])) (ps_last y) = Min (set (map snd (ms @ [(h, l)])))"
    by (simp only: n assms(2))
  then show ?thesis using assms by (intro ack_lasts_run) auto
qed

theorem sync_truncates_minimum_witness:
  "\<exists>s'. ack_lasts [(msg OP_LAST 1, 2)] (run proposer_sync host) = Some (0, s') \<and> instance_at s' 1 = None"
proof -
  let ?s = "run proposer_sync host" and ?y = "the (sync (run proposer_sync host))"
  have y: "sync ?s \<noteq> None" "ps_last ?y = 0" "unat (ps_total ?y) = unat (ps_acks ?y) + 0 + 1" by code_simp+
  have w: "log_wf ?s" "\<not> ended ?s" "acceptors_ok ?s" by code_simp+
  have b: "(2 :: u32) = min (ihole ?s - 1) (Min {2 :: u32})" "ibase ?s \<le> 2" "\<forall>m\<in>set [(msg OP_LAST 1, 2 :: u32)]. ph_inum (fst m) = sync_id ?s \<and> snd m \<noteq> 0"
    by code_simp+
  show ?thesis
    using sync_truncates_minimum [of ?s ?y "[]" "msg OP_LAST 1" 2 2] y w b by auto
qed

text \<open>
  C26. A participant that is alone gets its own chats: whatever the descriptor, the message and
  the random UUID, a chat requested in a fresh session is decreed, committed and learned at once,
  so the client has received exactly that message when the request returns 0.
\<close>

theorem solo_chat_delivered:
  "paxos_request DEC_CHAT m (start_session conn rnd desc data) = Some (0, run (paxos_request DEC_CHAT m) (start_session conn rnd desc data))
   \<and> chat_log (out (run (paxos_request DEC_CHAT m) (start_session conn rnd desc data))) = [m]"
proof -
  have "paxos_request DEC_CHAT m (start_session conn rnd desc data) \<noteq> None"
    "fst (the (paxos_request DEC_CHAT m (start_session conn rnd desc data))) = 0"
    "chat_log (out (run (paxos_request DEC_CHAT m) (start_session conn rnd desc data))) = [m]" by code_simp+
  then show ?thesis using run_eq [of "paxos_request DEC_CHAT m"] by metis
qed

text \<open>
  C27. The sync timer outlives its session: once the client has disconnected, the next tick finds
  no session of that UUID and dereferences NULL.
\<close>

theorem timer_after_disconnect_faults:
  assumes "ordered pax_uuid_compare (uuid_of st) (sessions st)" "q \<in> set (sessions st)" "uuid_of st q = Some u"
    "motmot_disconnect q st = Some (c, st')"
  shows "paxos_sync_timer u st' = None"
  by (rule paxos_sync_timer_gone [OF assms])

theorem timer_after_disconnect_faults_witness:
  "paxos_sync_timer 9 (snd (the (motmot_disconnect 1 chatting))) = None"
proof -
  have "ordered pax_uuid_compare (uuid_of chatting) (sessions chatting)" "1 \<in> set (sessions chatting)" "uuid_of chatting 1 = Some 9"
    "motmot_disconnect 1 chatting \<noteq> None" by code_simp+
  then show ?thesis using timer_after_disconnect_faults [of chatting 1 9] by auto
qed

text \<open>
  C28. Being welcomed to a chat can make the program deaf to another: a welcome enters its session
  in the sorted list before its UUID is known, as UUID 0, so afterwards every session with a UUID
  below the new one is in the list but can no longer be found, and messages for it are dropped.
\<close>

theorem welcome_hides_sessions:
  assumes "ordered pax_uuid_compare (uuid_of st) (sessions st)" "\<forall>r\<in>set (sessions st). r < sbrk st"
    "\<forall>r\<in>set (sessions st). uuid_of st r \<noteq> Some 0" "dispatch_welcome src hdr o1 st = Some (0, st')"
    "uuid_of st' (sbrk st) = Some U" "q \<in> set (sessions st)" "uuid_of st q = Some u" "u < U"
  shows "q \<in> set (sessions st') \<and> uuid_of st' q = Some u \<and> session_find (uuid_of st') (sessions st') u = Some None"
  by (rule dispatch_welcome_hides [OF assms])

theorem welcome_hides_sessions_witness:
  "session_find (uuid_of (snd (the (dispatch_welcome 5 (msg OP_WELCOME 2) (Some other_welcome) chatting))))
     (sessions (snd (the (dispatch_welcome 5 (msg OP_WELCOME 2) (Some other_welcome) chatting)))) 9 = Some None"
proof -
  let ?d = "dispatch_welcome 5 (msg OP_WELCOME 2) (Some other_welcome) chatting"
  have "ordered pax_uuid_compare (uuid_of chatting) (sessions chatting)" "\<forall>r\<in>set (sessions chatting). r < sbrk chatting"
    "\<forall>r\<in>set (sessions chatting). uuid_of chatting r \<noteq> Some 0" by code_simp+
  moreover have "?d \<noteq> None" "fst (the ?d) = 0" by code_simp+
  then have "?d = Some (0, snd (the ?d))" by (metis option.collapse prod.collapse)
  moreover have "uuid_of (snd (the ?d)) (sbrk chatting) = Some 12" "1 \<in> set (sessions chatting)" "uuid_of chatting 1 = Some 9" "(9 :: u64) < 12"
    by code_simp+
  ultimately show ?thesis using welcome_hides_sessions by blast
qed

text \<open>
  C29. The continuation of a reject resets its instance without looking at it: once the
  reconnection succeeds, an instance that has been committed and learned in the meantime (a second
  rejection has its own continuation) is a null decree again, neither committed nor learned.
\<close>

theorem second_reject_uncommits:
  assumes "do_continue_ack_reject (Some c) a k s = Some (r, s')" "pk_data k = PK_inum n" "log_wf s" "instance_at s n = Some x"
  shows "\<exists>y. instance_at s' n = Some y \<and> \<not> pi_committed y \<and> \<not> pi_learned y \<and> pv_dkind (pi_val y) = DEC_NULL"
  by (rule ack_reject_resets [OF assms])

theorem second_reject_uncommits_witness:
  "pi_committed (the (instance_at host 2)) \<and>
   (\<exists>y. instance_at (run (do_continue_ack_reject (Some 7) (last (alist host)) reject_kont) host) 2 = Some y \<and> \<not> pi_committed y)"
proof -
  let ?f = "do_continue_ack_reject (Some 7) (last (alist host)) reject_kont"
  have r: "?f host = Some (fst (the (?f host)), run ?f host)" by (rule run_eq) code_simp
  have c: "pi_committed (the (instance_at host 2))" "instance_at host 2 \<noteq> None" "pk_data reject_kont = PK_inum 2" by code_simp+
  then have "instance_at host 2 = Some (the (instance_at host 2))" by simp
  with second_reject_uncommits [OF r c(3) host_wf] c(1) show ?thesis by blast
qed

text \<open>
  C30. Bytes sent to a peer leave in order, and none is lost or repeated: after any schedule of
  sends and partial writes, what was written followed by what is still buffered is what was
  buffered at first followed by everything sent; and the peer listens for a chance to write
  exactly while something is buffered.
\<close>

theorem peer_fifo:
  assumes "peer_ready peer" "peer_run es peer = (ws, peer')"
  shows "ws @ pp_write_buffer peer' = pp_write_buffer peer @ sent_of es \<and> peer_ready peer'"
  using peer_run_fifo [OF assms(2)] peer_run_ready [OF assms] by simp

theorem peer_fifo_witness:
  "fst (peer_run [Inl [1, 2, 3], Inr 2, Inl [4], Inr 1] (the (peer_new (Some 7)))) = [1, 2, 3]"
proof -
  let ?es = "[Inl [1, 2, 3], Inr 2, Inl [4], Inr 1] :: (bytes + nat) list" and ?p = "the (peer_new (Some 7))"
  have "peer_ready ?p" "pp_write_buffer (snd (peer_run ?es ?p)) = [4]" "sent_of ?es = [1, 2, 3, 4]" "pp_write_buffer ?p = []"
    by code_simp+
  with peer_fifo [of ?p ?es "fst (peer_run ?es ?p)" "snd (peer_run ?es ?p)"] show ?thesis by simp
qed

text \<open>
  C31. Everything sent is written in the end: when each write takes at least one byte, as many
  write events as there are bytes in the buffer empty it, and what they write is the buffer.
\<close>

theorem peer_drains:
  assumes "\<forall>e\<in>set es. \<exists>n. e = Inr n \<and> 0 < n" "length (pp_write_buffer peer) \<le> length es" "peer_run es peer = (ws, peer')"
  shows "ws = pp_write_buffer peer \<and> pp_write_buffer peer' = []"
  by (rule peer_run_drains [OF assms])

theorem peer_drains_witness:
  "fst (peer_run [Inr 1, Inr 5] (snd (peer_send [1, 2] (the (peer_new (Some 7)))))) = [1, 2]"
proof -
  let ?p = "snd (peer_send [1, 2] (the (peer_new (Some 7))))"
  have "pp_write_buffer ?p = [1, 2]" by code_simp
  with peer_drains [of "[Inr 1, Inr 5]" ?p "fst (peer_run [Inr 1, Inr 5] ?p)" "snd (peer_run [Inr 1, Inr 5] ?p)"]
  show ?thesis by simp
qed

text \<open>
  C32. However the stream from a peer is cut into reads, the messages in it are dispatched one by
  one and in order: reading any chunks leaves the program where dispatching the objects of the
  whole stream does, and keeps the bytes of an unfinished object for the next read. (msgpack's
  unpacker is a parameter that finds an object as soon as its bytes are there; every dispatch goes
  well and the peer is not closed.)
\<close>

theorem read_any_cut:
  assumes "unpacker_ok pop" "\<forall>(c, b)\<in>set reads. c \<noteq> G_IO_STATUS_EOF" "reads \<noteq> []"
    "objects pop (pp_unpacker peer @ concat (map snd reads)) os rest" "dispatch_all (pp_channel peer) os st = Some st'"
  shows "paxos_peer_read pop reads peer st = Some (True, peer\<lparr>pp_unpacker := rest\<rparr>, st')"
  unfolding paxos_peer_read_def using assms by (intro read_loop_run) auto

theorem read_any_cut_witness:
  "paxos_peer_read two_byte_frames [(G_IO_STATUS_NORMAL, [1]), (G_IO_STATUS_NORMAL, [2, 3])] (the (peer_new (Some 7))) chatting =
   Some (True, (the (peer_new (Some 7)))\<lparr>pp_unpacker := [3]\<rparr>, the (dispatch_all 7 [frame_msg] chatting))"
proof -
  let ?p = "the (peer_new (Some 7))"
  have p: "pp_unpacker ?p = []" "pp_channel ?p = 7" by code_simp+
  have "objects two_byte_frames [1, 2, 3] [frame_msg] [3]" by (simp add: objects_Cons objects_Nil two_byte_frames_def)
  moreover have "dispatch_all 7 [frame_msg] chatting \<noteq> None" by code_simp
  ultimately show ?thesis
    using read_any_cut [OF two_byte_frames_ok, of "[(G_IO_STATUS_NORMAL, [1]), (G_IO_STATUS_NORMAL, [2, 3])]" ?p "[frame_msg]" "[3]" chatting] p
    by auto
qed

text \<open>
  C33. The three hash functions read nothing but the key: given the key and its length, each of
  them returns, for every length that a C int carries (below 2^31), so that no read before or
  behind the key happens.
\<close>

theorem murmur_reads_key_only:
  "MurmurHash3_x86_32 key (int (length key)) seed \<noteq> None \<and>
   MurmurHash3_x86_128 key (int (length key)) seed \<noteq> None \<and>
   MurmurHash3_x64_128 key (int (length key)) seed \<noteq> None"
  using x86_32_in x86_128_in x64_128_in by blast

text \<open>
  C34. Two identities of one length that differ only within one aligned block of four bytes, or
  only in the one to three bytes after the last block, have different hashes under every seed:
  every step of the 32-bit hash is invertible.
\<close>

theorem murmur_no_collision:
  assumes "length p = 4 * j" "length b = length c" "b \<noteq> c" "length b = 4 \<or> length b < 4 \<and> r = []"
    "length (p @ b @ r) < 2 ^ 31"
  shows "connect_key_hash seed (p @ b @ r) \<noteq> connect_key_hash seed (p @ c @ r)"
  using x86_32_differs [OF assms(1-4), of seed] connect_key_hash_in [of "p @ b @ r" seed] connect_key_hash_in [of "p @ c @ r" seed] assms(2,5)
  by simp

theorem murmur_no_collision_witness: "connect_key_hash 5 [1, 2, 3, 4, 5, 6] \<noteq> connect_key_hash 5 [1, 2, 3, 4, 6, 5]"
  using murmur_no_collision [of "[1, 2, 3, 4]" 1 "[5, 6]" "[6, 5]" "[]" 5] by simp

text \<open>
  C35. The prepare can lose committed instances. If an earlier promise has replaced the starting
  instance x, and the instance that x still points to has been reused further down the list for a
  greater number, then a promise with a vote that outvotes x is merged without a fault: the vote
  is spliced in behind x, and everything that stood between x's old place and the reused instance,
  committed or not, is gone from the list in both directions, while the count of the list stays.
  (merge_vote, the merge on lists, calls this splice a fault: lemma stale_vote_faults of
  Promise_Links.)
\<close>

theorem stale_switch_drops:
  assumes "dll h (us @ mids @ a # vs)" "x \<notin> set (us @ mids @ a # vs)" "le_prev h x = link_last us" "le_next h x = Node a"
    and "iheap s x = Some X" "iheap s a = Some Y" "x < brk s" "\<forall>i\<in>set (us @ mids @ a # vs). i < brk s"
    and "paxos_instance_unpack p = Some v" "outvoted v X" "ph_inum (pi_hdr v) < ph_inum (pi_hdr Y)"
    and "length (us @ a # vs) + 1 < fuel"
  shows "\<exists>h' s'. votes_links [p] (None, Some x) h s = Some (h', s') \<and> iheap s' (brk s) = Some (cleared v) \<and>
    LIST_FOREACH fuel h' = Some (us @ brk s # a # vs) \<and> LIST_FOREACH_REV fuel h' = Some (rev (us @ brk s # a # vs)) \<and>
    set mids \<inter> set (us @ brk s # a # vs) = {} \<and> LIST_COUNT h' = of_nat (length (us @ mids @ a # vs))"
proof -
  let ?h = "LIST_REMOVE x (LIST_INSERT_AFTER x (brk s) h)"
  have n: "brk s \<notin> set (us @ mids @ a # vs)" "brk s \<noteq> x" "a < brk s" using assms(7,8) by auto
  have len: "length (us @ brk s # a # vs) < fuel" using assms(12) by simp
  note d = dll_count_foreach [OF splice_stale [OF assms(1,2) n(1,2) assms(3,4)] len]
  have "LIST_COUNT ?h = of_nat (length (us @ mids @ a # vs))"
    using assms(1) n(2) by (simp add: splice_count) (simp add: LIST_COUNT_def dll_def)
  moreover have "votes_links [p] (None, Some x) h s = Some (?h, s\<lparr>iheap := (iheap s)(brk s \<mapsto> cleared v), brk := Suc (brk s)\<rparr>)"
    using stale_vote_run [OF assms(5,4,7) n(3) assms(6,9,10,11)] by simp
  moreover have "set mids \<inter> set (us @ brk s # a # vs) = {}" using assms(1) n(1) by (auto simp: dll_def)
  ultimately show ?thesis using d by simp
qed

theorem stale_switch_drops_witness:
  "\<exists>h' s'. votes_links [instance_obj (logged 4 2 False)] (None, Some 2) (fst gap_promises) (snd gap_promises) = Some (h', s') \<and>
    LIST_FOREACH 9 h' = Some [1, 7, 5, 4] \<and> LIST_FOREACH 9 (fst gap_promises) = Some [1, 6, 3, 5, 4] \<and> pi_committed (the (iheap (snd gap_promises) 3))"
proof -
  let ?h = "fst gap_promises" and ?s = "snd gap_promises" and ?p = "instance_obj (logged 4 2 False)"
  have g: "dll ?h ([1] @ [6, 3] @ 5 # [4])" "le_prev ?h 2 = link_last [1]" "le_next ?h 2 = Node 5" "iheap ?s 2 = Some (logged 4 1 False)"
    "iheap ?s 3 = Some (logged 5 1 True)" "iheap ?s 5 = Some (instance_sent (logged 9 1 False))" "brk ?s = 7"
    using gap_promises_links by (simp_all add: Let_def link_last_def)
  have v: "paxos_instance_unpack ?p = Some (instance_sent (logged 4 2 False))" "outvoted (instance_sent (logged 4 2 False)) (logged 4 1 False)"
    "ph_inum (pi_hdr (instance_sent (logged 4 2 False))) < ph_inum (pi_hdr (instance_sent (logged 9 1 False)))"
    "pi_committed (logged 5 1 True)" by code_simp+
  have "\<exists>h' s'. votes_links [?p] (None, Some 2) ?h ?s = Some (h', s') \<and> LIST_FOREACH 9 h' = Some ([1] @ brk ?s # 5 # [4])"
    using stale_switch_drops [OF g(1) _ g(2,3,4,6) _ _ v(1,2,3), of 9] g(7) by auto
  moreover have "LIST_FOREACH 9 ?h = Some ([1] @ [6, 3] @ 5 # [4])" by (rule dll_foreach [OF g(1)]) simp
  ultimately show ?thesis using g(5,7) v(4) by auto
qed

text \<open>
  C36. A decree gets the number after the last one: in a session that is not alone, the proposer's
  new instance stands in the log behind all others under the next number, with its ballot and its
  own vote and uncommitted, and the rest of the log is as it was.
\<close>

theorem decree_takes_next_number:
  assumes "log_wf s" "\<not> ended s" "i \<notin> set (ilist s @ idefer s)" "i < brk s" "iheap s i = Some x"
    "acceptors_ok s" "1 < majority s" "log_to L s" "L < - 1"
  shows "\<exists>s' y. proposer_decree i s = Some (0, s') \<and> log_wf s' \<and> log_to (L + 1) s' \<and>
    instance_at s' = (instance_at s)(L + 1 \<mapsto> y) \<and> pi_val y = pi_val x \<and> pi_votes y = 1 \<and> \<not> pi_committed y \<and>
    ph_ballot (pi_hdr y) = ballot s"
  by (rule proposer_decree_run [OF assms]) (use decree_of_simps in blast)

theorem decree_takes_next_number_witness:
  "\<exists>s' y. proposer_decree (brk host) (snd (alloc_instance (joined_at 9) host)) = Some (0, s') \<and> instance_at s' 3 = Some y \<and> \<not> pi_committed y"
proof -
  let ?s = "snd (alloc_instance (joined_at 9) host)"
  have "log_wf ?s" "\<not> ended ?s" "brk host \<notin> set (ilist ?s @ idefer ?s)" "brk host < brk ?s" "iheap ?s (brk host) \<noteq> None"
    "acceptors_ok ?s" "1 < majority ?s" "(2 :: u32) < - 1" by code_simp+
  moreover have "ilist_last ?s \<noteq> None" "inum_of ?s (the (ilist_last ?s)) = Some 2" by code_simp+
  then have "log_to 2 ?s" using log_to_last [OF \<open>log_wf ?s\<close>] by auto
  ultimately obtain x where "iheap ?s (brk host) = Some x" by blast
  from decree_takes_next_number [OF \<open>log_wf ?s\<close> \<open>\<not> ended ?s\<close> \<open>brk host \<notin> set (ilist ?s @ idefer ?s)\<close> \<open>brk host < brk ?s\<close> this
    \<open>acceptors_ok ?s\<close> \<open>1 < majority ?s\<close> \<open>log_to 2 ?s\<close> \<open>2 < - 1\<close>]
  show ?thesis by fastforce
qed

text \<open>
  C37. Messages sent to a user who is offline (with a user name that is not empty and has no white
  space) are delivered at the next login, in the order they were sent and with their senders and
  times; but they stay in the table after they have been freed (the entry to remove is looked up
  under the wrong key), so the login after that reads freed memory.
\<close>

theorem offline_delivered_once:
  assumes "get_purplemot_gc w who = None" "\<And>f. accounts w who \<noteq> None \<Longrightarrow> privacy w who f" "ms \<noteq> []" "table who = None"
    "no_space who" "addr_key \<noteq> who" "other_key \<noteq> who"
  shows "\<exists>es table'. purplemot_login addr_key disc_port who (send_all w who ms table) = Some (es, table') \<and>
    drop 3 es = map (\<lambda>m. im_of who (stored w m)) ms \<and> purplemot_login other_key disc_port who table' = None"
proof -
  let ?t = "send_all w who ms table" and ?ms = "map (\<lambda>m. Some (stored w m)) ms"
  have t: "?t who = Some ?ms" using send_all_run [OF assms(1-3), of table] assms(4) by simp
  have d: "deliver_offline who ?ms = Some (map (\<lambda>m. im_of who (stored w m)) ms)"
    using deliver_offline_run [of who "map (stored w) ms"] by (simp add: comp_def)
  obtain pre where l: "length pre = 3" "purplemot_login addr_key disc_port who ?t =
      Some (pre @ map (\<lambda>m. im_of who (stored w m)) ms, ?t(who \<mapsto> map (\<lambda>_. None) ?ms, addr_key := None))"
    using login_delivers [where table = ?t and k = addr_key and p = disc_port, OF assms(5) t _ d] assms(3) by auto
  have "purplemot_login other_key disc_port who (?t(who \<mapsto> map (\<lambda>_. None) ?ms, addr_key := None)) = None"
    by (rule login_faults [OF assms(5), where xs = "map (\<lambda>_. None) ?ms"]) (use assms(3,6) in \<open>cases ms; simp\<close>)+
  with l show ?thesis by auto
qed

theorem offline_delivered_once_witness:
  "\<exists>es table'. purplemot_login [1] 8888 [98, 64, 99]
     (send_all \<lparr>accounts = Map.empty, privacy = \<lambda>_ _. True, msg_send = 1, msg_recv = 2, msg_whisper = 16, str_hash = \<lambda>_. 0\<rparr>
        [98, 64, 99] [(0, [97], [104], 1), (1, [97], [105], 1)] Map.empty) = Some (es, table') \<and>
     drop 3 es = [Got_im [98, 64, 99] [97] [104] 2 0, Got_im [98, 64, 99] [97] [105] 2 1] \<and>
     purplemot_login [2] 8888 [98, 64, 99] table' = None"
  using offline_delivered_once [of "\<lparr>accounts = Map.empty, privacy = \<lambda>_ _. True, msg_send = 1, msg_recv = 2, msg_whisper = 16, str_hash = \<lambda>_. 0\<rparr>"
    "[98, 64, 99]" "[(0, [97], [104], 1), (1, [97], [105], 1)]" Map.empty "[1]" "[2]" 8888]
  by (simp add: get_purplemot_gc_def stored_def im_of_def no_space_def)

text \<open>
  C38. The client of the discovery server handles no response: rpc_dispatch asserts that the
  opcode is a negative integer object, and the opcodes it knows are positive, so for whatever
  msgpack delivers (a negative integer object holds a negative number) it returns 1 and changes
  nothing.
\<close>

theorem rpc_dispatch_rejects:
  assumes "\<And>n args. obj = M_array (M_negative_integer n # args) \<Longrightarrow> n < 0"
  shows "rpc_dispatch union_u64 obj b = Some (1, b)"
  by (rule rpc_dispatch_run [OF assms])

theorem rpc_dispatch_rejects_witness:
  "rpc_dispatch (\<lambda>_. 0) (M_array [M_positive_integer 65, M_array []]) Map.empty = Some (1, Map.empty)"
  by (rule rpc_dispatch_rejects) simp

text \<open>
  C39. Reading from the discovery server never returns normally: the number of bytes read is
  stored in an unsigned variable before it is compared with 0, so neither an error nor the end of
  the input ends the loop.
\<close>

theorem rpc_read_never_returns: "rpc_read union_u64 pop reads buf b = None"
  unfolding rpc_read_def by (rule rpc_read_loop_diverges)

text \<open>
  C40. The terminal client parts from the chat on the line "/part" with at most one more
  character, whatever it is, and on longer lines only when the character after that one is a
  space: it looks one character too far (the comment says: if followed by a space or the end).
\<close>

theorem part_command:
  assumes "0 \<notin> set text"
  shows "parse_line (c_str ''/part'' @ text) [10] =
    Some (if length text \<le> 1 \<or> text ! 1 = 32 then Disconnect_and_exit else No_action)"
  by (rule part_prefix [OF refl assms refl])

theorem part_command_witness:
  "parse_line (c_str ''/partx'') [10] = Some Disconnect_and_exit \<and> parse_line (c_str ''/part now'') [10] = Some No_action"
  using part_command [of "c_str ''x''"] part_command [of "c_str '' now''"] by (simp add: c_str_def)

section \<open>Further facts\<close>

text \<open>
  Wire format: for every msgpack unpacker that decodes what the packer calls encode, the message
  that carries an instance's header and value unpacks to exactly that header and that value.
\<close>

theorem instance_message_roundtrip:
  assumes u: "msgpack_unpacker u" and k: "known_op (ph_opcode (pi_hdr inst))" "known_kind (pv_dkind (pi_val inst))"
  shows "\<exists>o1 o2. u (instance_message inst) = Some [M_array [o1, o2]] \<and> paxos_header_unpack o1 = Some (pi_hdr inst)
    \<and> paxos_value_unpack o2 = Some (pi_val inst)"
  using msgpack_unpacker.encodes_unpack [OF u msgpack_unpacker.encodes_message2
      [OF u k(1) msgpack_unpacker.encodes_value [OF u k(2)]]]
    header_unpack_obj [OF k(1)] value_unpack_obj [OF k(2)]
  by (auto simp: instance_message_def)

theorem instance_message_roundtrip_witness:
  "\<exists>o1 o2. decode (instance_message (joined_at 1)) = Some [M_array [o1, o2]] \<and> paxos_header_unpack o1 = Some (pi_hdr (joined_at 1))
    \<and> paxos_value_unpack o2 = Some (pi_val (joined_at 1))"
  by (rule instance_message_roundtrip [OF decode.msgpack_unpacker_axioms]) code_simp+

text \<open>
  The out-of-band request message, a header and a request with its data, unpacks to the header and
  the request that were packed, over every such unpacker.
\<close>

theorem request_message_roundtrip:
  assumes u: "msgpack_unpacker u" and k: "known_op (ph_opcode hdr)" "known_kind (pv_dkind (pr_val req))"
  shows "\<exists>o1 o2. u (request_message hdr req) = Some [M_array [o1, o2]] \<and> paxos_header_unpack o1 = Some hdr
    \<and> paxos_request_unpack o2 = Some req"
  using msgpack_unpacker.encodes_unpack [OF u msgpack_unpacker.encodes_message2
      [OF u k(1) msgpack_unpacker.encodes_request [OF u k(2)]]]
    header_unpack_obj [OF k(1)] request_unpack_obj [OF k(2)]
  by (auto simp: request_message_def)

theorem request_message_roundtrip_witness:
  "\<exists>o1 o2. decode (request_message (msg OP_REQUEST 1) chat_request) = Some [M_array [o1, o2]]
    \<and> paxos_header_unpack o1 = Some (msg OP_REQUEST 1) \<and> paxos_request_unpack o2 = Some chat_request"
  by (rule request_message_roundtrip [OF decode.msgpack_unpacker_axioms]) code_simp+

text \<open>
  Removing an element unlinks exactly it, and the removed element keeps its old links, which is
  what lets a loop that removes the element it stands on go on.
\<close>

theorem list_remove_refines:
  assumes "dll h (ys @ e # zs)"
  shows "dll (LIST_REMOVE e h) (ys @ zs) \<and> LIST_NEXT (LIST_REMOVE e h) e = link_hd zs"
  using dll_LIST_REMOVE [OF assms] LIST_REMOVE_stale [OF assms] by blast

theorem list_remove_refines_witness:
  "dll (LIST_REMOVE 1 (LIST_INSERT_TAIL 1 (LIST_INIT \<lparr>lh_first = Node 9, lh_last = Head, lh_count = 4, le_next = (\<lambda>_. Head), le_prev = (\<lambda>_. Head)\<rparr>))) []"
proof -
  let ?h = "LIST_INSERT_TAIL 1 (LIST_INIT \<lparr>lh_first = Node 9, lh_last = Head, lh_count = 4, le_next = (\<lambda>_. Head), le_prev = (\<lambda>_. Head)\<rparr>)"
  have "dll ?h ([] @ 1 # [])" using dll_LIST_INSERT_TAIL [OF dll_LIST_INIT, of 1] by simp
  from list_remove_refines [OF this] show ?thesis by simp
qed

text \<open>
  A session that has just been started is in order, whatever the client passes in: its log holds
  the initial join, committed and learned, and is well formed; the participant is alone, is the
  proposer, and is a majority.
\<close>

theorem start_session_ok:
  "log_wf (start_session conn rnd desc data) \<and> is_proposer (start_session conn rnd desc data) = Some True \<and>
   majority (start_session conn rnd desc data) = live_count (start_session conn rnd desc data) \<and>
   (\<exists>x. instance_at (start_session conn rnd desc data) 1 = Some x \<and> pi_committed x \<and> pi_learned x \<and> pv_dkind (pi_val x) = DEC_JOIN)"
proof (intro conjI)
  show "log_wf (start_session conn rnd desc data)" "is_proposer (start_session conn rnd desc data) = Some True"
    "majority (start_session conn rnd desc data) = live_count (start_session conn rnd desc data)" by code_simp+
  let ?x = "the (instance_at (start_session conn rnd desc data) 1)"
  have "instance_at (start_session conn rnd desc data) 1 \<noteq> None" "pi_committed ?x" "pi_learned ?x" "pv_dkind (pi_val ?x) = DEC_JOIN"
    by code_simp+
  then show "\<exists>x. instance_at (start_session conn rnd desc data) 1 = Some x \<and> pi_committed x \<and> pi_learned x \<and> pv_dkind (pi_val x) = DEC_JOIN"
    by auto
qed

text \<open>
  A list of statuses is read past its entries: every entry must have three elements, of which a
  fourth is then checked, so a list that starts with a well-formed entry is a fault, one that
  starts with anything else returns 1, and only the empty list is accepted.
\<close>

theorem status_list_faults:
  "rpc_all_statuses (Some (M_array es)) b =
     (case es of [] \<Rightarrow> Some (0, b) | e # _ \<Rightarrow> if status_entry e then None else Some (1, b))"
  by (rule rpc_all_statuses_run)

end
